(* ===== verification/Prelude.thy ===== *)
theory Prelude
  imports Main "HOL-Library.Word"
begin

text \<open>
  What every component of the development shares: the names of the machine types, the parts of
  the Rust standard library the source calls (\<^verbatim>\<open>std::time::Duration\<close>, integer parsing and printing,
  string trimming and prefix/suffix stripping), and generic lemmas on lists and maps.

  A Rust string is modelled as a list of code points below U+0100 (the Isabelle type \<^typ>\<open>string\<close>),
  so the character classes below are those of the Latin-1 block. A \<^verbatim>\<open>Duration\<close> is its number of
  nanoseconds; \<open>DURATION_MAX\<close> is \<^verbatim>\<open>Duration::MAX\<close>.
\<close>

named_theorems exec_defs \<open>definitions of the execution policy component\<close>
named_theorems queue_defs \<open>definitions of the work queue component\<close>
named_theorems registry_defs \<open>definitions of the runner registry component\<close>

type_synonym u32 = "32 word"
type_synonym u64 = "64 word"
type_synonym duration = nat
type_synonym instant = int

subsection \<open>Durations\<close>

definition U32_MAX :: nat where
  "U32_MAX = 2 ^ 32 - 1"

definition U64_MAX :: nat where
  "U64_MAX = 2 ^ 64 - 1"

definition NANOS_PER_SEC :: nat where
  "NANOS_PER_SEC = 1000000000"

definition DURATION_MAX :: duration where
  "DURATION_MAX = U64_MAX * NANOS_PER_SEC + (NANOS_PER_SEC - 1)"

definition from_secs :: "nat \<Rightarrow> duration" where
  "from_secs s = s * NANOS_PER_SEC"

definition from_millis :: "nat \<Rightarrow> duration" where
  "from_millis m = m * 1000000"

definition as_millis :: "duration \<Rightarrow> nat" where
  "as_millis d = d div 1000000"

definition dur_saturating_mul :: "duration \<Rightarrow> nat \<Rightarrow> duration" where
  "dur_saturating_mul d k = min (d * k) DURATION_MAX"

definition dur_saturating_add :: "duration \<Rightarrow> duration \<Rightarrow> duration" where
  "dur_saturating_add d e = min (d + e) DURATION_MAX"

definition u64_saturating_pow2 :: "nat \<Rightarrow> nat" where
  "u64_saturating_pow2 e = (if e < 64 then 2 ^ e else U64_MAX)"

definition u64_as_u32 :: "nat \<Rightarrow> nat" where
  "u64_as_u32 n = n mod 2 ^ 32"

definition u64_checked_mul :: "nat \<Rightarrow> nat \<Rightarrow> nat option" where
  "u64_checked_mul a b = (if a * b \<le> U64_MAX then Some (a * b) else None)"

subsection \<open>Instants\<close>

text \<open>
  A \<^verbatim>\<open>DateTime<Utc>\<close> is its number of nanoseconds since the epoch, a signed difference of two of them
  an integer number of nanoseconds; \<^verbatim>\<open>num_seconds\<close> truncates towards zero.
\<close>

definition nanos :: int where
  "nanos = 1000000000"

definition num_seconds :: "int \<Rightarrow> int" where
  "num_seconds d = (if 0 \<le> d then d div nanos else - ((- d) div nanos))"

definition seconds :: "int \<Rightarrow> int" where
  "seconds s = s * nanos"

subsection \<open>Strings\<close>

definition is_ascii_digit :: "char \<Rightarrow> bool" where
  "is_ascii_digit c \<longleftrightarrow> 48 \<le> (of_char c :: nat) \<and> (of_char c :: nat) \<le> 57"

definition digit_val :: "char \<Rightarrow> nat" where
  "digit_val c = (of_char c :: nat) - 48"

definition is_whitespace :: "char \<Rightarrow> bool" where
  "is_whitespace c \<longleftrightarrow>
     (let n = (of_char c :: nat) in (9 \<le> n \<and> n \<le> 13) \<or> n = 32 \<or> n = 133 \<or> n = 160)"

definition trim_start :: "string \<Rightarrow> string" where
  "trim_start s = dropWhile is_whitespace s"

definition trim_end :: "string \<Rightarrow> string" where
  "trim_end s = rev (dropWhile is_whitespace (rev s))"

definition trim :: "string \<Rightarrow> string" where
  "trim s = trim_end (trim_start s)"

definition strip_suffix :: "string \<Rightarrow> string \<Rightarrow> string option" where
  "strip_suffix s suf =
     (if length suf \<le> length s \<and> drop (length s - length suf) s = suf
      then Some (take (length s - length suf) s) else None)"

definition strip_prefix :: "string \<Rightarrow> string \<Rightarrow> string option" where
  "strip_prefix s pre =
     (if take (length pre) s = pre then Some (drop (length pre) s) else None)"

text \<open>
  \<^verbatim>\<open>str::parse::<uN>()\<close>: an optional leading plus sign, then at least one ASCII digit and nothing
  else, and the value must fit below the type's maximum.
\<close>

definition digits_value :: "string \<Rightarrow> nat" where
  "digits_value ds = foldl (\<lambda>a c. 10 * a + digit_val c) 0 ds"

definition parse_unsigned :: "nat \<Rightarrow> string \<Rightarrow> nat option" where
  "parse_unsigned mx s =
     (let ds = (case s of [] \<Rightarrow> [] | c # cs \<Rightarrow> if c = CHR ''+'' then cs else s)
      in if ds \<noteq> [] \<and> list_all is_ascii_digit ds \<and> digits_value ds \<le> mx
         then Some (digits_value ds) else None)"

definition digit_char :: "nat \<Rightarrow> char" where
  "digit_char d = char_of (48 + d)"

fun show_nat :: "nat \<Rightarrow> string" where
  "show_nat n = (if n < 10 then [digit_char n] else show_nat (n div 10) @ [digit_char (n mod 10)])"

declare show_nat.simps [simp del]

definition two_digits :: "nat \<Rightarrow> string" where
  "two_digits n = (if n < 10 then ''0'' else []) @ show_nat n"

fun join :: "string \<Rightarrow> string list \<Rightarrow> string" where
  "join sep [] = []"
| "join sep [x] = x"
| "join sep (x # y # ys) = x @ sep @ join sep (y # ys)"

fun split_on :: "char \<Rightarrow> string \<Rightarrow> string list" where
  "split_on sep [] = [[]]"
| "split_on sep (c # cs) =
     (if c = sep then [] # split_on sep cs
      else (case split_on sep cs of [] \<Rightarrow> [[c]] | p # ps \<Rightarrow> (c # p) # ps))"

subsection \<open>Lists\<close>

definition remove_nth :: "nat \<Rightarrow> 'a list \<Rightarrow> 'a list" where
  "remove_nth i xs = take i xs @ drop (Suc i) xs"

fun position :: "('a \<Rightarrow> bool) \<Rightarrow> 'a list \<Rightarrow> nat option" where
  "position P [] = None"
| "position P (x # xs) = (if P x then Some 0 else map_option Suc (position P xs))"

subsection \<open>Lemmas\<close>

lemma nanos_pos [simp]: "0 < nanos"
  by (simp add: nanos_def)

lemma num_seconds_nonneg: "0 \<le> d \<Longrightarrow> num_seconds d = d div nanos"
  by (simp add: num_seconds_def)

lemma num_seconds_seconds [simp]: "num_seconds (seconds s) = s"
  by (auto simp: num_seconds_def seconds_def nanos_def)

lemma num_seconds_mono: "a \<le> b \<Longrightarrow> num_seconds a \<le> num_seconds b"
  by (auto simp: num_seconds_def zdiv_mono1 nanos_def pos_imp_zdiv_nonneg_iff
      intro: order_trans [of _ 0])

lemma remove_nth_append [simp]: "remove_nth (length xs) (xs @ x # ys) = xs @ ys"
  by (simp add: remove_nth_def)

lemma remove_nth_split:
  assumes "i < length xs"
  obtains ys zs where "xs = ys @ xs ! i # zs" and "length ys = i" and "remove_nth i xs = ys @ zs"
  using assms id_take_nth_drop [OF assms] by (metis length_take min.absorb4 remove_nth_append)

lemma position_None: "position P xs = None \<longleftrightarrow> (\<forall>x \<in> set xs. \<not> P x)"
  by (induction xs) auto

lemma position_Some:
  "position P xs = Some i \<Longrightarrow> i < length xs \<and> P (xs ! i) \<and> (\<forall>j < i. \<not> P (xs ! j))"
  by (induction xs arbitrary: i) (auto split: if_splits simp: nth_Cons split: nat.splits)

lemma dur_saturating_mul_le [simp]: "dur_saturating_mul d k \<le> DURATION_MAX"
  by (simp add: dur_saturating_mul_def)

lemma dur_saturating_add_le [simp]: "dur_saturating_add d e \<le> DURATION_MAX"
  by (simp add: dur_saturating_add_def)

lemma digit_char_simps [simp]:
  "digit_char 0 = CHR ''0''" "digit_char (Suc 0) = CHR ''1''" "digit_char 1 = CHR ''1''"
  "digit_char 2 = CHR ''2''" "digit_char 3 = CHR ''3''" "digit_char 4 = CHR ''4''"
  "digit_char 5 = CHR ''5''" "digit_char 6 = CHR ''6''" "digit_char 7 = CHR ''7''"
  "digit_char 8 = CHR ''8''" "digit_char 9 = CHR ''9''"
  by (simp_all add: digit_char_def char_of_def bit_0)

lemma of_char_digit_char: "d < 10 \<Longrightarrow> (of_char (digit_char d) :: nat) = 48 + d"
  by (simp add: digit_char_def)

lemma digit_val_digit_char [simp]: "d < 10 \<Longrightarrow> digit_val (digit_char d) = d"
  by (simp add: digit_val_def of_char_digit_char)

lemma is_ascii_digit_digit_char [simp]: "d < 10 \<Longrightarrow> is_ascii_digit (digit_char d)"
  by (simp add: is_ascii_digit_def of_char_digit_char)

lemma digit_not_whitespace: "is_ascii_digit c \<Longrightarrow> \<not> is_whitespace c"
  by (simp add: is_ascii_digit_def is_whitespace_def Let_def)

lemma digits_value_snoc [simp]: "digits_value (ds @ [c]) = 10 * digits_value ds + digit_val c"
  by (simp add: digits_value_def)

lemma digits_value_Nil [simp]: "digits_value [] = 0"
  by (simp add: digits_value_def)

lemma show_nat_nonempty [simp]: "show_nat n \<noteq> []"
  by (subst show_nat.simps) simp

lemma show_nat_digits [simp]: "list_all is_ascii_digit (show_nat n)"
proof (induction n rule: show_nat.induct)
  case (1 n)
  then show ?case by (subst show_nat.simps) simp
qed

lemma digits_value_show_nat [simp]: "digits_value (show_nat n) = n"
proof (induction n rule: show_nat.induct)
  case (1 n)
  then show ?case
    by (subst show_nat.simps) (simp add: digits_value_def)
qed

lemma plus_not_digit [simp]: "\<not> is_ascii_digit (CHR ''+'')"
  by (simp add: is_ascii_digit_def)

lemma show_nat_hd_digit: "is_ascii_digit (hd (show_nat n))"
  using show_nat_digits[of n] show_nat_nonempty[of n]
  by (metis hd_in_set list_all_iff)

lemma parse_unsigned_digits:
  assumes "ds \<noteq> []" and "list_all is_ascii_digit ds" and "digits_value ds \<le> mx"
  shows "parse_unsigned mx ds = Some (digits_value ds)"
proof (cases ds)
  case (Cons c cs)
  with assms(2) have "c \<noteq> CHR ''+''" using plus_not_digit by auto
  with Cons assms show ?thesis by (simp add: parse_unsigned_def)
qed (use assms in simp)

lemma parse_unsigned_show_nat: "n \<le> mx \<Longrightarrow> parse_unsigned mx (show_nat n) = Some n"
  using parse_unsigned_digits[of "show_nat n" mx] by simp

lemma parse_unsigned_bound: "parse_unsigned mx s = Some n \<Longrightarrow> n \<le> mx"
  by (auto simp: parse_unsigned_def Let_def split: if_splits)

lemma strip_suffix_append [simp]: "strip_suffix (s @ suf) suf = Some s"
  by (simp add: strip_suffix_def)

lemma strip_suffix_Some: "strip_suffix s suf = Some r \<longleftrightarrow> s = r @ suf"
proof
  assume "strip_suffix s suf = Some r"
  then show "s = r @ suf"
    by (auto simp: strip_suffix_def split: if_splits) (metis append_take_drop_id)
qed simp

lemma strip_prefix_Some: "strip_prefix s pre = Some r \<longleftrightarrow> s = pre @ r"
proof
  assume "strip_prefix s pre = Some r"
  then show "s = pre @ r"
    by (auto simp: strip_prefix_def split: if_splits) (metis append_take_drop_id)
qed (simp add: strip_prefix_def)

lemma trim_id:
  assumes "s \<noteq> [] \<Longrightarrow> \<not> is_whitespace (hd s) \<and> \<not> is_whitespace (last s)"
  shows "trim s = s"
proof (cases "s = []")
  case True
  then show ?thesis by (simp add: trim_def trim_start_def trim_end_def)
next
  case False
  with assms have h: "\<not> is_whitespace (hd s)" and l: "\<not> is_whitespace (last s)" by auto
  from False h have "dropWhile is_whitespace s = s" by (cases s) auto
  moreover from False l have "dropWhile is_whitespace (rev s) = rev s"
    by (cases s rule: rev_cases) auto
  ultimately show ?thesis by (simp add: trim_def trim_start_def trim_end_def)
qed

end
