(* ===== verification/Execution.thy ===== *)
theory Execution
  imports Prelude Complex_Main
begin

text \<open>
  The execution policy engine, crate \<^verbatim>\<open>croniq-execution\<close>: retry strategies with backoff and jitter and
  the duration grammar (\<^verbatim>\<open>retry.rs\<close>), the timeout policy (\<^verbatim>\<open>timeout.rs\<close>), the dead-letter policy
  (\<^verbatim>\<open>dead_letter.rs\<close>) and the decision taken after every execution (\<^verbatim>\<open>pipeline.rs\<close>).

  Jitter is the one place where the code computes with \<^verbatim>\<open>f64\<close>. Its operations are the real operations
  followed by the rounding \<open>rnd\<close>, a parameter with the laws \<open>f64_rounding\<close> of IEEE 754; infinities and
  NaN are not modelled. The random number drawn by \<^verbatim>\<open>rand::random\<close> is the parameter \<open>random\<close>.
\<close>

subsection \<open>Data\<close>

datatype RetryStrategy =
    Exponential (exp_base: duration) (exp_cap: duration)
  | Fixed duration
  | Linear (lin_base: duration) (lin_step: duration) (lin_cap: duration)

record RetryPolicy =
  strategy :: RetryStrategy
  max_attempts :: u32
  jitter :: real

datatype RetryDecision = RetryAfter duration | Exhausted

record TimeoutPolicy =
  timeout_duration :: duration

record DeadLetterPolicy =
  enabled :: bool
  retention :: duration
  operator_hint :: "string option"
  replay_max_age :: "duration option"

record ExecutionPolicy =
  retry :: RetryPolicy
  timeout :: TimeoutPolicy
  dead_letter :: DeadLetterPolicy

datatype ExecutionOutcome =
    Success
  | Retry (next_attempt: u32) (delay: duration)
  | DeadLetter (dl_reason: string) (dl_hint: "string option") (expires_after: "duration option")
  | Dropped string
  | Cancelled

record ExecutionResult =
  success :: bool
  error :: "string option"
  exec_duration :: duration
  attempt :: u32

datatype duration_error =
    DurationInvalid string
  | DurationBadNumber string string
  | DurationOverflow string

subsection \<open>Retry policy\<close>

definition default_retry_policy :: RetryPolicy where
  "default_retry_policy =
     \<lparr>strategy = Exponential (from_secs 2) (from_secs 30), max_attempts = 3, jitter = 1 / 4\<rparr>"

definition compute_delay :: "RetryPolicy \<Rightarrow> u32 \<Rightarrow> duration" where
  "compute_delay p n =
     (let retry_num = n in
      case strategy p of
        Exponential base cap \<Rightarrow>
          (let multiplier = u64_saturating_pow2 (unat (retry_num - 1));
               d = dur_saturating_mul base (u64_as_u32 multiplier)
           in min d cap)
      | Fixed d \<Rightarrow> d
      | Linear base step cap \<Rightarrow>
          (let additional = dur_saturating_mul step (unat (retry_num - 1));
               d = dur_saturating_add base additional
           in min d cap))"

definition f64_as_u64 :: "real \<Rightarrow> nat" where
  "f64_as_u64 x = (if x \<le> 0 then 0 else min U64_MAX (nat \<lfloor>x\<rfloor>))"

definition apply_jitter :: "(real \<Rightarrow> real) \<Rightarrow> real \<Rightarrow> duration \<Rightarrow> real \<Rightarrow> duration" where
  "apply_jitter rnd random d j0 =
     (if j0 \<le> 0 \<or> d = 0 then d
      else
        let j = max 0 (min 1 j0);
            millis = rnd (real (as_millis d));
            variance = rnd (millis * j);
            offset = rnd (variance * rnd (rnd (2 * random) - 1));
            jittered = max (rnd (millis + offset)) 0
        in from_millis (f64_as_u64 jittered))"

definition retry_evaluate :: "(real \<Rightarrow> real) \<Rightarrow> real \<Rightarrow> RetryPolicy \<Rightarrow> u32 \<Rightarrow> RetryDecision" where
  "retry_evaluate rnd random p n =
     (if n \<ge> max_attempts p then Exhausted
      else RetryAfter (apply_jitter rnd random (compute_delay p n) (jitter p)))"

definition exponential :: "u32 \<Rightarrow> duration \<Rightarrow> duration \<Rightarrow> real \<Rightarrow> RetryPolicy" where
  "exponential n base cap j = \<lparr>strategy = Exponential base cap, max_attempts = n, jitter = j\<rparr>"

definition fixed :: "u32 \<Rightarrow> duration \<Rightarrow> RetryPolicy" where
  "fixed n d = \<lparr>strategy = Fixed d, max_attempts = n, jitter = 0\<rparr>"

definition linear :: "u32 \<Rightarrow> duration \<Rightarrow> duration \<Rightarrow> duration \<Rightarrow> RetryPolicy" where
  "linear n base step cap = \<lparr>strategy = Linear base step cap, max_attempts = n, jitter = 0\<rparr>"

definition no_retry :: RetryPolicy where
  "no_retry = \<lparr>strategy = Fixed 0, max_attempts = 1, jitter = 0\<rparr>"

subsection \<open>The duration grammar\<close>

definition split_unit :: "string \<Rightarrow> string \<times> string \<times> nat" where
  "split_unit t =
     (case strip_suffix t ''ms'' of Some v \<Rightarrow> (v, ''ms'', 1) | None \<Rightarrow>
     (case strip_suffix t ''s'' of Some v \<Rightarrow> (v, ''s'', 1000) | None \<Rightarrow>
     (case strip_suffix t ''m'' of Some v \<Rightarrow> (v, ''m'', 60 * 1000) | None \<Rightarrow>
     (case strip_suffix t ''h'' of Some v \<Rightarrow> (v, ''h'', 3600 * 1000) | None \<Rightarrow>
     (case strip_suffix t ''d'' of Some v \<Rightarrow> (v, ''d'', 86400 * 1000) | None \<Rightarrow>
       (t, '''', 1000))))))"

definition parse_duration_checked :: "string \<Rightarrow> duration_error + duration" where
  "parse_duration_checked s =
     (case split_unit (trim s) of (digits, u, millis_per_unit) \<Rightarrow>
        if digits = [] then Inl (DurationInvalid s)
        else
          (case parse_unsigned U64_MAX digits of
             None \<Rightarrow> Inl (if u = [] then DurationInvalid s else DurationBadNumber s u)
           | Some v \<Rightarrow>
               (case u64_checked_mul v millis_per_unit of
                  None \<Rightarrow> Inl (DurationOverflow s)
                | Some ms \<Rightarrow> Inr (from_millis ms))))"

definition parse_duration :: "string \<Rightarrow> duration option" where
  "parse_duration s = (case parse_duration_checked s of Inl _ \<Rightarrow> None | Inr d \<Rightarrow> Some d)"

definition validate_optional_duration :: "string option \<Rightarrow> duration_error + string option" where
  "validate_optional_duration v =
     (case v of None \<Rightarrow> Inr None
      | Some x \<Rightarrow>
          (let trimmed = trim x in
           if trimmed = [] then Inr None
           else (case parse_duration_checked trimmed of
                   Inl e \<Rightarrow> Inl e
                 | Inr _ \<Rightarrow> Inr (Some trimmed))))"

subsection \<open>Timeout policy\<close>

definition default_timeout :: TimeoutPolicy where
  "default_timeout = \<lparr>timeout_duration = from_secs 300\<rparr>"

definition timeout_parse :: "string \<Rightarrow> TimeoutPolicy option" where
  "timeout_parse s = map_option (\<lambda>d. \<lparr>timeout_duration = d\<rparr>) (parse_duration s)"

definition is_expired :: "TimeoutPolicy \<Rightarrow> duration \<Rightarrow> bool" where
  "is_expired t elapsed \<longleftrightarrow> elapsed \<ge> timeout_duration t"

definition remaining :: "TimeoutPolicy \<Rightarrow> duration \<Rightarrow> duration" where
  "remaining t elapsed = timeout_duration t - elapsed"

subsection \<open>Dead-letter policy\<close>

definition default_dead_letter :: DeadLetterPolicy where
  "default_dead_letter =
     \<lparr>enabled = True, retention = from_secs (30 * 86400), operator_hint = None,
      replay_max_age = None\<rparr>"

definition dead_letter_disabled :: DeadLetterPolicy where
  "dead_letter_disabled =
     \<lparr>enabled = False, retention = 0, operator_hint = None, replay_max_age = None\<rparr>"

definition with_retention :: "DeadLetterPolicy \<Rightarrow> string \<Rightarrow> DeadLetterPolicy" where
  "with_retention p s =
     (case parse_duration s of Some d \<Rightarrow> p\<lparr>retention := d\<rparr> | None \<Rightarrow> p)"

definition with_hint :: "DeadLetterPolicy \<Rightarrow> string \<Rightarrow> DeadLetterPolicy" where
  "with_hint p h = p\<lparr>operator_hint := Some h\<rparr>"

definition with_replay_max_age :: "DeadLetterPolicy \<Rightarrow> string \<Rightarrow> DeadLetterPolicy" where
  "with_replay_max_age p s = p\<lparr>replay_max_age := parse_duration s\<rparr>"

definition expires_at :: "DeadLetterPolicy \<Rightarrow> instant \<Rightarrow> instant option" where
  "expires_at p now =
     (if \<not> enabled p \<or> retention p = 0 then None else Some (now + int (retention p)))"

subsection \<open>The pipeline\<close>

definition failure_text :: "ExecutionPolicy \<Rightarrow> ExecutionResult \<Rightarrow> string" where
  "failure_text p r =
     (if is_expired (timeout p) (exec_duration r)
      then (case error r of Some e \<Rightarrow> e | None \<Rightarrow> ''execution timed out'')
      else (case error r of Some e \<Rightarrow> e | None \<Rightarrow> ''unknown error''))"

definition evaluate ::
  "(real \<Rightarrow> real) \<Rightarrow> real \<Rightarrow> ExecutionPolicy \<Rightarrow> ExecutionResult \<Rightarrow> ExecutionOutcome" where
  "evaluate rnd random p r =
     (if success r then Success
      else
        case retry_evaluate rnd random (retry p) (attempt r) of
          RetryAfter d \<Rightarrow> Retry (attempt r + 1) d
        | Exhausted \<Rightarrow>
            (let reason = ''exhausted after '' @ show_nat (unat (attempt r)) @ '' attempts: ''
                            @ failure_text p r
             in if enabled (dead_letter p)
                then DeadLetter reason (operator_hint (dead_letter p))
                       (if retention (dead_letter p) \<noteq> 0 then Some (retention (dead_letter p))
                        else None)
                else Dropped reason))"

definition check_timeout :: "ExecutionPolicy \<Rightarrow> duration \<Rightarrow> bool" where
  "check_timeout p elapsed = is_expired (timeout p) elapsed"

text \<open>
  The attempts of one job when every attempt fails: the outcome of each attempt decides whether
  there is a next one. The list holds the attempts made, and the flag tells that the chain ended.
\<close>

fun failing_run ::
  "(real \<Rightarrow> real) \<Rightarrow> real \<Rightarrow> ExecutionPolicy \<Rightarrow> ExecutionResult \<Rightarrow> nat \<Rightarrow> u32 list \<times> bool" where
  "failing_run rnd random p r 0 = ([], False)"
| "failing_run rnd random p r (Suc fuel) =
     (case evaluate rnd random p (r\<lparr>success := False\<rparr>) of
        Retry n d \<Rightarrow>
          (let (rest, fin) = failing_run rnd random p (r\<lparr>attempt := n\<rparr>) fuel
           in (attempt r # rest, fin))
      | _ \<Rightarrow> ([attempt r], True))"

text \<open>The accepted units with their length in milliseconds; the empty unit means seconds.\<close>

definition duration_units :: "(string \<times> nat) list" where
  "duration_units =
     [(''ms'', 1), (''s'', 1000), (''m'', 60000), (''h'', 3600000), (''d'', 86400000), ('''', 1000)]"

text \<open>The laws of IEEE 754 rounding to nearest that the bounds below rely on.\<close>

definition f64_rounding :: "(real \<Rightarrow> real) \<Rightarrow> bool" where
  "f64_rounding rnd \<longleftrightarrow>
     mono rnd \<and> (\<forall>x. rnd (rnd x) = rnd x) \<and> (\<forall>x. rnd (- x) = - rnd x) \<and>
     (\<forall>n::nat. n \<le> 2 ^ 53 \<longrightarrow> rnd (real n) = real n)"

lemmas policy_defs [exec_defs] =
  compute_delay_def retry_evaluate_def evaluate_def failure_text_def is_expired_def Let_def

subsection \<open>Lemmas: delays\<close>

lemma unat_pred_u32: "(0::u32) < n \<Longrightarrow> unat (n - 1) = unat n - 1"
  by (simp add: unat_minus_one word_gt_0)

lemma pow2_u32_id:
  assumes "e < 32"
  shows "u64_as_u32 (u64_saturating_pow2 e) = 2 ^ e"
proof -
  from assms have "(2::nat) ^ e < 2 ^ 32" by (intro power_strict_increasing) simp_all
  with assms show ?thesis by (simp add: u64_as_u32_def u64_saturating_pow2_def)
qed

lemma pow2_u32_zero:
  assumes "32 \<le> e" and "e < 64"
  shows "u64_as_u32 (u64_saturating_pow2 e) = 0"
proof -
  from assms(1) have "(2::nat) ^ 32 dvd 2 ^ e" by (rule le_imp_power_dvd)
  with assms(2) show ?thesis by (simp add: u64_as_u32_def u64_saturating_pow2_def)
qed

lemma pow2_u32_saturated: "64 \<le> e \<Longrightarrow> u64_as_u32 (u64_saturating_pow2 e) = U32_MAX"
  by (simp add: u64_as_u32_def u64_saturating_pow2_def U64_MAX_def U32_MAX_def)

lemma min_saturating_mul: "cap \<le> DURATION_MAX \<Longrightarrow> min (dur_saturating_mul d k) cap = min (d * k) cap"
  by (simp add: dur_saturating_mul_def)

lemma attempt_succ: "(n::u32) < m \<Longrightarrow> unat (n + 1) = Suc (unat n) \<and> n + 1 \<le> m"
  by unat_arith

subsection \<open>Lemmas: retry decisions\<close>

lemma evaluate_retry_iff:
  "(\<exists>n d. evaluate rnd random p r = Retry n d) \<longleftrightarrow>
     \<not> success r \<and> attempt r < max_attempts (retry p)"
  by (auto simp: evaluate_def retry_evaluate_def Let_def not_le split: if_splits)

lemma evaluate_retry_next:
  assumes "evaluate rnd random p r = Retry n d"
  shows "n = attempt r + 1 \<and> unat n = Suc (unat (attempt r)) \<and> n \<le> max_attempts (retry p)"
  using assms attempt_succ [of "attempt r" "max_attempts (retry p)"]
  by (auto simp: evaluate_def retry_evaluate_def Let_def not_le split: if_splits)

lemma failing_run_attempts:
  assumes "unat (max_attempts (retry p)) - unat (attempt r) < fuel"
  shows "failing_run rnd random p r fuel =
           (attempt r # map of_nat [Suc (unat (attempt r)) ..< Suc (unat (max_attempts (retry p)))],
            True)"
  using assms
proof (induction fuel arbitrary: r)
  case (Suc fuel)
  let ?m = "max_attempts (retry p)"
  let ?a = "attempt r"
  show ?case
  proof (cases "?a < ?m")
    case True
    then obtain n d where ev: "evaluate rnd random p (r\<lparr>success := False\<rparr>) = Retry n d"
      using evaluate_retry_iff [of rnd random p "r\<lparr>success := False\<rparr>"] by auto
    from evaluate_retry_next [OF ev]
    have n: "n = ?a + 1" "unat n = Suc (unat ?a)" "unat n \<le> unat ?m"
      by (auto simp: word_le_nat_alt)
    with Suc.prems have "unat ?m - unat (attempt (r\<lparr>attempt := n\<rparr>)) < fuel" by simp
    from Suc.IH [OF this] n have
      "failing_run rnd random p (r\<lparr>attempt := n\<rparr>) fuel =
         (n # map of_nat [Suc (unat n) ..< Suc (unat ?m)], True)" by simp
    moreover have "[Suc (unat ?a) ..< Suc (unat ?m)] = unat n # [Suc (unat n) ..< Suc (unat ?m)]"
      using n(2,3) by (simp add: upt_conv_Cons del: upt_Suc)
    ultimately show ?thesis using ev by (simp del: upt_Suc)
  next
    case False
    then have "\<nexists>n d. evaluate rnd random p (r\<lparr>success := False\<rparr>) = Retry n d"
      using evaluate_retry_iff [of rnd random p "r\<lparr>success := False\<rparr>"] by auto
    moreover have "unat ?m \<le> unat ?a" using False by (simp add: word_less_nat_alt)
    ultimately show ?thesis by (auto split: ExecutionOutcome.split)
  qed
qed simp

subsection \<open>Lemmas: jitter\<close>

lemma f64_roundingD:
  assumes "f64_rounding rnd"
  shows "x \<le> y \<Longrightarrow> rnd x \<le> rnd y" and "rnd (rnd x) = rnd x" and "rnd (- x) = - rnd x"
    and "n \<le> 2 ^ 53 \<Longrightarrow> rnd (real n) = real n"
  using assms by (auto simp: f64_rounding_def mono_def)

lemma rounded_offset_bound:
  assumes rnd: "f64_rounding rnd" and r: "0 \<le> random" "random \<le> 1" and v: "rnd v = v" "0 \<le> v"
  shows "\<bar>rnd (v * rnd (rnd (2 * random) - 1))\<bar> \<le> v"
proof -
  note R = f64_roundingD [OF rnd]
  have ints: "rnd 0 = 0" "rnd 1 = 1" "rnd 2 = 2"
    using R(4) [of 0] R(4) [of 1] R(4) [of 2] by simp_all
  have "0 \<le> rnd (2 * random)" "rnd (2 * random) \<le> 2"
    using R(1) [of 0 "2 * random"] R(1) [of "2 * random" 2] r ints by auto
  then have "rnd (rnd (2 * random) - 1) \<le> 1" "- 1 \<le> rnd (rnd (2 * random) - 1)"
    using R(1) [of "rnd (2 * random) - 1" 1] R(1) [of "- 1" "rnd (2 * random) - 1"] R(3) [of 1] ints
    by auto
  then have "v * rnd (rnd (2 * random) - 1) \<le> v" "- v \<le> v * rnd (rnd (2 * random) - 1)"
    using v(2) mult_left_le [of "rnd (rnd (2 * random) - 1)" v]
      mult_left_mono [of "- 1" "rnd (rnd (2 * random) - 1)" v] by (auto simp: mult.commute)
  then show ?thesis
    using R(1) [of "v * rnd (rnd (2 * random) - 1)" v] R(1) [of "- v" "v * rnd (rnd (2 * random) - 1)"]
      R(3) [of v] v(1) by (simp add: abs_le_iff)
qed

lemma jittered_millis_bound:
  fixes m :: nat
  assumes rnd: "f64_rounding rnd" and r: "0 \<le> random" "random \<le> 1" and j: "0 \<le> j" "j \<le> 1"
    and m: "2 * m \<le> 2 ^ 53"
  defines "v \<equiv> rnd (rnd (real m) * j)"
  defines "x \<equiv> rnd (rnd (real m) + rnd (v * rnd (rnd (2 * random) - 1)))"
  shows "rnd (real m - v) \<le> x" and "x \<le> rnd (real m + v)" and "0 \<le> x" and "x \<le> 2 * real m"
proof -
  note R = f64_roundingD [OF rnd]
  have m1: "rnd (real m) = real m" using R(4) [of m] m by simp
  have z: "rnd 0 = 0" using R(4) [of 0] by simp
  have v0: "0 \<le> v" and vm: "v \<le> real m"
    using R(1) [of 0 "real m * j"] R(1) [of "real m * j" "real m"] z m1 j
    by (auto simp: v_def mult_left_le)
  have "rnd v = v" by (simp add: v_def R(2))
  from rounded_offset_bound [OF rnd r this v0]
  have o: "- v \<le> rnd (v * rnd (rnd (2 * random) - 1))" "rnd (v * rnd (rnd (2 * random) - 1)) \<le> v"
    by (auto simp: abs_le_iff)
  from o(1) show lo: "rnd (real m - v) \<le> x" unfolding x_def m1 by (intro R(1)) simp
  from o(2) show hi: "x \<le> rnd (real m + v)" unfolding x_def m1 by (intro R(1)) simp
  have "0 \<le> rnd (real m - v)" using R(1) [of 0 "real m - v"] z vm by simp
  with lo show "0 \<le> x" by simp
  have "rnd (real m + v) \<le> rnd (real (2 * m))" using vm by (intro R(1)) simp
  with R(4) [of "2 * m"] m hi show "x \<le> 2 * real m" by simp
qed

lemma f64_as_u64_le: "x \<le> real n \<Longrightarrow> f64_as_u64 x \<le> n"
  by (auto simp: f64_as_u64_def nat_le_iff floor_le_iff min_le_iff_disj)

lemma f64_as_u64_ge: "real n \<le> x \<Longrightarrow> n \<le> U64_MAX \<Longrightarrow> n \<le> f64_as_u64 x"
  by (auto simp: f64_as_u64_def le_nat_iff le_floor_iff)

subsection \<open>Lemmas: the duration grammar\<close>

lemma parse_unsigned_last_digit:
  assumes "parse_unsigned mx ds = Some v"
  obtains ds' c where "ds = ds' @ [c]" and "is_ascii_digit c"
proof (cases ds rule: rev_cases)
  case (snoc ds' c)
  with assms have "is_ascii_digit c"
    by (cases ds') (auto simp: parse_unsigned_def Let_def split: if_splits)
  with snoc that show ?thesis by blast
qed (use assms in \<open>simp add: parse_unsigned_def\<close>)

lemma strip_suffix_None: "strip_suffix s suf = None \<longleftrightarrow> (\<nexists>r. s = r @ suf)"
  using strip_suffix_Some [of s suf] by (cases "strip_suffix s suf") auto

lemma strip_suffix_snoc:
  "strip_suffix (xs @ [c]) [d] = (if c = d then Some xs else None)"
  "strip_suffix (xs @ [b, c]) [e, d] = (if b = e \<and> c = d then Some xs else None)"
  using strip_suffix_append [of xs "[e, d]"] by (auto simp: strip_suffix_None)

lemma unit_letters_not_digits [simp]:
  "\<not> is_ascii_digit (CHR ''s'')" "\<not> is_ascii_digit (CHR ''m'')"
  "\<not> is_ascii_digit (CHR ''h'')" "\<not> is_ascii_digit (CHR ''d'')"
  by (simp_all add: is_ascii_digit_def)

lemma strip_suffix_digit:
  assumes "is_ascii_digit c"
  shows "strip_suffix (xs @ [c]) ''ms'' = None"
proof -
  have "xs @ [c] \<noteq> (r @ ''m'') @ ''s''" for r
    using assms unit_letters_not_digits(1) by (metis append_is_Nil_conv last_snoc)
  then show ?thesis by (auto simp: strip_suffix_None)
qed

lemma split_unit_digits:
  assumes c: "is_ascii_digit c" and u: "(u, f) \<in> set duration_units"
  shows "split_unit ((xs @ [c]) @ u) = (xs @ [c], u, f)"
proof -
  have cs: "c \<noteq> CHR ''s''" "c \<noteq> CHR ''m''" "c \<noteq> CHR ''h''" "c \<noteq> CHR ''d''"
    using c unit_letters_not_digits by metis+
  have two: "strip_suffix (xs @ [c, x]) [y] = (if x = y then Some (xs @ [c]) else None)" for x y
    using strip_suffix_snoc(1) [of "xs @ [c]" x y] by simp
  have ms: "strip_suffix (xs @ [c, CHR ''m'', CHR ''s'']) ''ms'' = Some (xs @ [c])"
    using strip_suffix_append [of "xs @ [c]" "''ms''"] by simp
  show ?thesis
    using u cs by (auto simp: duration_units_def split_unit_def two ms strip_suffix_snoc
        strip_suffix_digit [OF c])
qed

lemma split_unit_parts:
  assumes "split_unit t = (ds, u, f)"
  shows "t = ds @ u \<and> (u, f) \<in> set duration_units"
  using assms
  by (auto simp: split_unit_def duration_units_def strip_suffix_Some split: option.splits)

lemma parse_duration_grammar_aux:
  "parse_duration_checked s = Inr d \<longleftrightarrow>
     (\<exists>ds u f v. trim s = ds @ u \<and> (u, f) \<in> set duration_units \<and>
        parse_unsigned U64_MAX ds = Some v \<and> v * f \<le> U64_MAX \<and> d = from_millis (v * f))"
  (is "?l \<longleftrightarrow> ?r")
proof
  assume l: ?l
  obtain ds u f where sp: "split_unit (trim s) = (ds, u, f)" by (metis prod_cases3)
  with l have "\<exists>v. parse_unsigned U64_MAX ds = Some v \<and> v * f \<le> U64_MAX \<and> d = from_millis (v * f)"
    by (auto simp: parse_duration_checked_def u64_checked_mul_def split: if_splits option.splits)
  with split_unit_parts [OF sp] show ?r by blast
next
  assume ?r
  then obtain ds u f v where t: "trim s = ds @ u" and u: "(u, f) \<in> set duration_units"
    and v: "parse_unsigned U64_MAX ds = Some v" "v * f \<le> U64_MAX" "d = from_millis (v * f)" by blast
  from parse_unsigned_last_digit [OF v(1)] obtain xs c where "ds = xs @ [c]" "is_ascii_digit c" .
  with t split_unit_digits [OF _ u] have "split_unit (trim s) = (ds, u, f)" by simp
  with v \<open>ds = xs @ [c]\<close> show ?l by (simp add: parse_duration_checked_def u64_checked_mul_def)
qed

lemma trim_show_nat_unit: "(u, f) \<in> set duration_units \<Longrightarrow> trim (show_nat n @ u) = show_nat n @ u"
proof (rule trim_id)
  assume u: "(u, f) \<in> set duration_units"
  have "\<not> is_whitespace (last (show_nat n))"
    using show_nat_digits [of n] by (auto simp: list_all_iff intro!: digit_not_whitespace)
  with u have "\<not> is_whitespace (last (show_nat n @ u))"
    by (auto simp: duration_units_def is_whitespace_def)
  then show "\<not> is_whitespace (hd (show_nat n @ u)) \<and> \<not> is_whitespace (last (show_nat n @ u))"
    using digit_not_whitespace [OF show_nat_hd_digit] by simp
qed

subsection \<open>Properties\<close>

text \<open>C4: A job whose every attempt fails is attempted exactly \<open>max 1 max_attempts\<close> times, with the
  attempt numbers 1, 2, 3 and so on without a gap or a repetition, and then its chain of retries
  ends, whatever the jitter and the delays are.\<close>

theorem retry_chain_exact:
  assumes "attempt r = 1" and "unat (max_attempts (retry p)) < fuel"
  shows "failing_run rnd random p r fuel =
           (map of_nat [1 ..< Suc (max 1 (unat (max_attempts (retry p))))], True)"
proof -
  let ?m = "unat (max_attempts (retry p))"
  have "failing_run rnd random p r fuel = (1 # map of_nat [2 ..< Suc ?m], True)"
    using failing_run_attempts [of p r fuel rnd random] assms by (simp add: numeral_2_eq_2 del: upt_Suc)
  moreover have "[1 ..< Suc (max 1 ?m)] = 1 # [2 ..< Suc ?m]"
    by (cases "?m = 0") (simp_all add: upt_conv_Cons numeral_2_eq_2 max_def del: upt_Suc)
  ultimately show ?thesis by (simp del: upt_Suc)
qed

theorem retry_chain_exact_witness:
  "failing_run (\<lambda>x. x) 0
     \<lparr>retry = fixed 3 (from_secs 5), timeout = default_timeout, dead_letter = default_dead_letter\<rparr>
     \<lparr>success = False, error = None, exec_duration = 0, attempt = 1\<rparr> 4 = ([1, 2, 3], True)"
  using retry_chain_exact
    [of "\<lparr>success = False, error = None, exec_duration = 0, attempt = 1\<rparr>"
        "\<lparr>retry = fixed 3 (from_secs 5), timeout = default_timeout, dead_letter = default_dead_letter\<rparr>"
        4 "\<lambda>x. x" 0]
  by (simp add: fixed_def upt_rec)

text \<open>Up to the 32nd attempt the exponential backoff is the documented
  \<open>min (base * 2 ^ (attempt - 1)) cap\<close>, with no overflow effect.\<close>

theorem exponential_delay_exact:
  assumes "strategy p = Exponential base cap" and "cap \<le> DURATION_MAX"
    and "1 \<le> n" and "n \<le> 32"
  shows "compute_delay p n = min (base * 2 ^ (unat n - 1)) cap"
proof -
  have "unat (n - 1) = unat n - 1" using assms(3) by (intro unat_pred_u32) unat_arith
  moreover have "unat n - 1 < 32" using assms(3,4) by (simp add: word_le_nat_alt)
  ultimately show ?thesis
    using assms(1,2) by (simp add: compute_delay_def pow2_u32_id min_saturating_mul)
qed

theorem exponential_delay_exact_witness:
  "compute_delay default_retry_policy 5 = min (from_secs 2 * 16) (from_secs 30)"
  using exponential_delay_exact [of default_retry_policy "from_secs 2" "from_secs 30" 5]
  by (simp add: default_retry_policy_def DURATION_MAX_def U64_MAX_def NANOS_PER_SEC_def from_secs_def
      word_le_nat_alt)

text \<open>From the 33rd to the 64th attempt the cast of the 64-bit multiplier to 32 bits drops every
  set bit, so the exponential backoff collapses to a delay of zero whatever base and cap are.\<close>

theorem exponential_delay_collapses:
  assumes "strategy p = Exponential base cap" and "33 \<le> n" and "n \<le> 64"
  shows "compute_delay p n = 0"
proof -
  have "unat (n - 1) = unat n - 1"
    using assms(2) by (intro unat_pred_u32) unat_arith
  moreover have "32 \<le> unat n - 1" "unat n - 1 < 64" using assms(2,3) by (auto simp: word_le_nat_alt)
  ultimately show ?thesis
    using assms(1) by (simp add: compute_delay_def pow2_u32_zero dur_saturating_mul_def)
qed

theorem exponential_delay_collapses_witness: "compute_delay default_retry_policy 40 = 0"
  using exponential_delay_collapses [of default_retry_policy "from_secs 2" "from_secs 30" 40]
  by (simp add: default_retry_policy_def word_le_nat_alt)

text \<open>Jitter moves a delay by at most its factor: for a factor between 0 and 1 and any random
  draw the jittered delay is a whole number of milliseconds between the rounded
  \<open>m - m * j\<close> and \<open>m + m * j\<close>, where \<open>m\<close> is the delay in milliseconds; it is never more than
  twice the delay.\<close>

theorem apply_jitter_range:
  assumes rnd: "f64_rounding rnd" and r: "0 \<le> random" "random \<le> 1" and j: "0 < j" "j \<le> 1"
    and d: "0 < d" "2 * as_millis d \<le> 2 ^ 53"
  shows "\<exists>k. apply_jitter rnd random d j = from_millis k \<and> k \<le> 2 * as_millis d \<and>
           \<lfloor>rnd (real (as_millis d) - rnd (real (as_millis d) * j))\<rfloor> \<le> int k \<and>
           real k \<le> rnd (real (as_millis d) + rnd (real (as_millis d) * j))"
proof -
  let ?m = "as_millis d"
  have m: "rnd (real ?m) = real ?m" using f64_roundingD(4) [OF rnd, of ?m] d(2) by simp
  define x where "x = rnd (real ?m + rnd (rnd (real ?m * j) * rnd (rnd (2 * random) - 1)))"
  have b: "rnd (real ?m - rnd (real ?m * j)) \<le> x" "x \<le> rnd (real ?m + rnd (real ?m * j))"
    "0 \<le> x" "x \<le> 2 * real ?m"
    using jittered_millis_bound [OF rnd r _ j(2) d(2)] j(1) m by (auto simp: x_def)
  have jit: "apply_jitter rnd random d j = from_millis (f64_as_u64 x)"
    using j d b(3) m by (simp add: apply_jitter_def x_def Let_def)
  have k2: "f64_as_u64 x \<le> 2 * ?m" using f64_as_u64_le [of x "2 * ?m"] b(4) by simp
  have "nat \<lfloor>x\<rfloor> \<le> 2 * ?m" using b(4) by linarith
  also have "\<dots> \<le> U64_MAX" using d(2) by (simp add: U64_MAX_def)
  finally have "nat \<lfloor>x\<rfloor> \<le> U64_MAX" .
  then have "f64_as_u64 x = nat \<lfloor>x\<rfloor>" using b(3) by (simp add: f64_as_u64_def)
  then have "int (f64_as_u64 x) = \<lfloor>x\<rfloor>" using b(3) by simp
  then have "\<lfloor>rnd (real ?m - rnd (real ?m * j))\<rfloor> \<le> int (f64_as_u64 x)"
    "real (f64_as_u64 x) \<le> rnd (real ?m + rnd (real ?m * j))"
    using b(1,2) by (simp_all add: floor_mono) (metis floor_correct of_int_of_nat_eq order_trans)
  with jit k2 show ?thesis by blast
qed

theorem apply_jitter_range_witness:
  "\<exists>k. apply_jitter (\<lambda>x. x) (3/4) (from_millis 1000) (1/2) = from_millis k \<and> k \<le> 2000 \<and>
     500 \<le> int k \<and> real k \<le> 1500"
  using apply_jitter_range [of "\<lambda>x. x" "3/4" "1/2" "from_millis 1000"]
  by (simp add: f64_rounding_def mono_def from_millis_def as_millis_def)

text \<open>C5: The duration grammar: a string is accepted exactly when, after trimming, it is an unsigned
  64-bit number followed by one of the units ms, s, m, h, d or by nothing (seconds), and its value
  in milliseconds fits into 64 bits; the result is that value.\<close>

theorem parse_duration_grammar:
  "parse_duration_checked s = Inr d \<longleftrightarrow>
     (\<exists>ds u f v. trim s = ds @ u \<and> (u, f) \<in> set duration_units \<and>
        parse_unsigned U64_MAX ds = Some v \<and> v * f \<le> U64_MAX \<and> d = from_millis (v * f))"
  by (rule parse_duration_grammar_aux)

text \<open>Printing a number followed by a unit and parsing the text gives the duration back.\<close>

theorem duration_roundtrip:
  assumes "(u, f) \<in> set duration_units" and "n * f \<le> U64_MAX"
  shows "parse_duration (show_nat n @ u) = Some (from_millis (n * f))"
proof -
  have "1 \<le> f" using assms(1) by (auto simp: duration_units_def)
  then have "n \<le> n * f" by simp
  with assms(2) have "parse_unsigned U64_MAX (show_nat n) = Some n"
    by (intro parse_unsigned_show_nat) linarith
  then have "parse_duration_checked (show_nat n @ u) = Inr (from_millis (n * f))"
    using assms trim_show_nat_unit [OF assms(1)] by (subst parse_duration_grammar_aux) blast
  then show ?thesis by (simp add: parse_duration_def)
qed

theorem duration_roundtrip_witness: "parse_duration ''90m'' = Some (from_secs 5400)"
  using duration_roundtrip [of "''m''" 60000 90]
  by (simp add: duration_units_def U64_MAX_def from_millis_def from_secs_def NANOS_PER_SEC_def
      show_nat.simps)

text \<open>The expiry the pipeline attaches to a dead letter agrees with the policy's own expiry time
  for every creation time: both are absent when the retention is zero, and otherwise they lie one
  retention after the creation.\<close>

theorem dead_letter_expiry_agrees:
  assumes "evaluate rnd random p r = DeadLetter reason hint e"
  shows "map_option (\<lambda>d. now + int d) e = expires_at (dead_letter p) now"
  using assms
  by (auto simp: evaluate_def retry_evaluate_def expires_at_def Let_def split: if_splits)

theorem dead_letter_expiry_agrees_witness:
  "map_option (\<lambda>d. 100 + int d) (Some (from_secs (30 * 86400))) = expires_at default_dead_letter 100"
  using dead_letter_expiry_agrees
    [of "\<lambda>x. x" 0 "\<lparr>retry = no_retry, timeout = default_timeout, dead_letter = default_dead_letter\<rparr>"
        "\<lparr>success = False, error = Some ''down'', exec_duration = 0, attempt = 1\<rparr>"
        "''exhausted after 1 attempts: down''" None "Some (from_secs (30 * 86400))" 100]
  by (simp add: evaluate_def retry_evaluate_def no_retry_def default_dead_letter_def
      failure_text_def is_expired_def default_timeout_def from_secs_def NANOS_PER_SEC_def
      show_nat.simps)

end
