(* ===== verification/Work_Queue.thy ===== *)
theory Work_Queue
  imports Prelude "HOL-Library.Multiset"
begin

text \<open>
  The work queue of pending executions, \<^verbatim>\<open>croniq-runner/src/queue.rs\<close>, and the work item it holds
  (\<^verbatim>\<open>types.rs\<close>). The metadata of an item is a JSON value of the \<^verbatim>\<open>serde_json\<close> crate: its type is a
  parameter, and so is the lookup \<open>get_str\<close> that stands for \<^verbatim>\<open>metadata.get(key).and_then(as_str)\<close>.
  The wall clock is the argument \<open>now\<close>.
\<close>

subsection \<open>Data\<close>

record 'j WorkItem =
  execution_id :: string
  job_key :: string
  fire_at :: instant
  scheduled_for :: instant
  wi_attempt :: u32
  require :: "string list"
  wi_prefer :: "string list"
  metadata :: 'j
  wi_timeout :: string
  is_ephemeral :: bool

record 'j WorkQueue =
  items :: "'j WorkItem list"
  per_job_count :: "string \<rightharpoonup> nat"

definition PRIORITY_METADATA_KEY :: string where
  "PRIORITY_METADATA_KEY = ''__priority''"

definition PRIORITY_AGING_STEP_SECS :: int where
  "PRIORITY_AGING_STEP_SECS = 5 * 60"

definition MAX_PRIORITY_AGING_STEPS :: nat where
  "MAX_PRIORITY_AGING_STEPS = 288"

subsection \<open>Priorities\<close>

definition base_priority :: "('j \<Rightarrow> string \<Rightarrow> string option) \<Rightarrow> 'j WorkItem \<Rightarrow> nat" where
  "base_priority get_str item =
     (case get_str (metadata item) PRIORITY_METADATA_KEY of
        None \<Rightarrow> 1
      | Some v \<Rightarrow> if v = ''low'' then 0 else if v = ''high'' then 2 else 1)"

definition effective_priority ::
  "('j \<Rightarrow> string \<Rightarrow> string option) \<Rightarrow> 'j WorkItem \<Rightarrow> instant \<Rightarrow> nat" where
  "effective_priority get_str item now =
     (let waited = max (num_seconds (now - fire_at item)) 0;
          steps = min (waited div PRIORITY_AGING_STEP_SECS) (int MAX_PRIORITY_AGING_STEPS)
      in base_priority get_str item + nat steps)"

subsection \<open>Operations\<close>

definition new_queue :: "'j WorkQueue" where
  "new_queue = \<lparr>items = [], per_job_count = Map.empty\<rparr>"

definition enqueue :: "'j WorkItem \<Rightarrow> 'j WorkQueue \<Rightarrow> bool \<times> 'j WorkQueue" where
  "enqueue item q =
     (if list_ex (\<lambda>i. execution_id i = execution_id item) (items q) then (False, q)
      else
        let n = (case per_job_count q (job_key item) of None \<Rightarrow> 0 | Some c \<Rightarrow> c) in
        (True, q\<lparr>per_job_count := (per_job_count q)(job_key item \<mapsto> n + 1),
                 items := items q @ [item]\<rparr>))"

definition dec_count :: "string \<Rightarrow> 'j WorkQueue \<Rightarrow> 'j WorkQueue" where
  "dec_count k q =
     (case per_job_count q k of
        None \<Rightarrow> q
      | Some c \<Rightarrow>
          if c - 1 = 0 then q\<lparr>per_job_count := (per_job_count q)(k := None)\<rparr>
          else q\<lparr>per_job_count := (per_job_count q)(k \<mapsto> c - 1)\<rparr>)"

definition CEILING :: nat where
  "CEILING = 2 + MAX_PRIORITY_AGING_STEPS"

definition can_run :: "string list \<Rightarrow> 'j WorkItem \<Rightarrow> bool" where
  "can_run capabilities item = list_all (\<lambda>req. req \<in> set capabilities) (require item)"

fun best_scan ::
  "('j \<Rightarrow> string \<Rightarrow> string option) \<Rightarrow> instant \<Rightarrow> string list \<Rightarrow> ('j WorkItem \<Rightarrow> bool) \<Rightarrow>
   'j WorkItem list \<Rightarrow> nat \<Rightarrow> (nat \<times> nat) option \<Rightarrow> (nat \<times> nat) option" where
  "best_scan get_str now caps eligible [] i best = best"
| "best_scan get_str now caps eligible (item # rest) i best =
     (if \<not> can_run caps item then best_scan get_str now caps eligible rest (Suc i) best
      else
        let rank = effective_priority get_str item now in
        if (case best of None \<Rightarrow> False | Some (best_rank, _) \<Rightarrow> rank \<le> best_rank)
        then best_scan get_str now caps eligible rest (Suc i) best
        else if eligible item
        then (if rank = CEILING then Some (rank, i)
              else best_scan get_str now caps eligible rest (Suc i) (Some (rank, i)))
        else best_scan get_str now caps eligible rest (Suc i) best)"

definition dequeue_for_where_at ::
  "('j \<Rightarrow> string \<Rightarrow> string option) \<Rightarrow> instant \<Rightarrow> string list \<Rightarrow> ('j WorkItem \<Rightarrow> bool) \<Rightarrow>
   'j WorkQueue \<Rightarrow> 'j WorkItem option \<times> 'j WorkQueue" where
  "dequeue_for_where_at get_str now caps eligible q =
     (case best_scan get_str now caps eligible (items q) 0 None of
        None \<Rightarrow> (None, q)
      | Some (_, i) \<Rightarrow>
          (let item = items q ! i
           in (Some item, dec_count (job_key item) (q\<lparr>items := remove_nth i (items q)\<rparr>))))"

definition dequeue_for_where ::
  "('j \<Rightarrow> string \<Rightarrow> string option) \<Rightarrow> instant \<Rightarrow> string list \<Rightarrow> ('j WorkItem \<Rightarrow> bool) \<Rightarrow>
   'j WorkQueue \<Rightarrow> 'j WorkItem option \<times> 'j WorkQueue" where
  "dequeue_for_where get_str now caps eligible q = dequeue_for_where_at get_str now caps eligible q"

definition dequeue_for ::
  "('j \<Rightarrow> string \<Rightarrow> string option) \<Rightarrow> instant \<Rightarrow> string list \<Rightarrow> 'j WorkQueue \<Rightarrow>
   'j WorkItem option \<times> 'j WorkQueue" where
  "dequeue_for get_str now caps q = dequeue_for_where_at get_str now caps (\<lambda>_. True) q"

fun dequeue_many_for ::
  "('j \<Rightarrow> string \<Rightarrow> string option) \<Rightarrow> instant \<Rightarrow> string list \<Rightarrow> nat \<Rightarrow> 'j WorkQueue \<Rightarrow>
   'j WorkItem list \<times> 'j WorkQueue" where
  "dequeue_many_for get_str now caps 0 q = ([], q)"
| "dequeue_many_for get_str now caps (Suc limit) q =
     (case dequeue_for_where_at get_str now caps (\<lambda>_. True) q of
        (None, q') \<Rightarrow> ([], q')
      | (Some item, q') \<Rightarrow>
          (let (rest, q'') = dequeue_many_for get_str now caps limit q' in (item # rest, q'')))"

definition peek :: "'j WorkQueue \<Rightarrow> 'j WorkItem option" where
  "peek q = (case items q of [] \<Rightarrow> None | x # _ \<Rightarrow> Some x)"

definition peek_n :: "nat \<Rightarrow> 'j WorkQueue \<Rightarrow> 'j WorkItem list" where
  "peek_n n q = take n (items q)"

definition queue_len :: "'j WorkQueue \<Rightarrow> nat" where
  "queue_len q = length (items q)"

definition queue_is_empty :: "'j WorkQueue \<Rightarrow> bool" where
  "queue_is_empty q = (items q = [])"

definition count_for_job :: "string \<Rightarrow> 'j WorkQueue \<Rightarrow> nat" where
  "count_for_job k q = (case per_job_count q k of None \<Rightarrow> 0 | Some c \<Rightarrow> c)"

definition find_for_job ::
  "string \<Rightarrow> ('j WorkItem \<Rightarrow> bool) \<Rightarrow> 'j WorkQueue \<Rightarrow> 'j WorkItem option" where
  "find_for_job k pred q = find (\<lambda>item. job_key item = k \<and> pred item) (items q)"

definition remove :: "string \<Rightarrow> 'j WorkQueue \<Rightarrow> bool \<times> 'j WorkQueue" where
  "remove eid q =
     (case position (\<lambda>i. execution_id i = eid) (items q) of
        Some idx \<Rightarrow>
          (let removed = items q ! idx
           in (True, dec_count (job_key removed) (q\<lparr>items := remove_nth idx (items q)\<rparr>)))
      | None \<Rightarrow> (False, q))"

function remove_job_loop ::
  "string \<Rightarrow> nat \<Rightarrow> 'j WorkItem list \<Rightarrow> string list \<Rightarrow> 'j WorkItem list \<times> string list" where
  "remove_job_loop k i xs removed =
     (if i < length xs
      then if job_key (xs ! i) = k
           then remove_job_loop k i (remove_nth i xs) (removed @ [execution_id (xs ! i)])
           else remove_job_loop k (Suc i) xs removed
      else (xs, removed))"
  by pat_completeness auto
termination
  by (relation "measures [\<lambda>(k, i, xs, removed). length xs, \<lambda>(k, i, xs, removed). length xs - i]")
    (auto simp: remove_nth_def)

declare remove_job_loop.simps [simp del]

definition remove_job :: "string \<Rightarrow> 'j WorkQueue \<Rightarrow> string list \<times> 'j WorkQueue" where
  "remove_job k q =
     (case remove_job_loop k 0 (items q) [] of (xs, removed) \<Rightarrow>
        let q1 = q\<lparr>items := xs\<rparr> in
        if removed \<noteq> [] then (removed, q1\<lparr>per_job_count := (per_job_count q1)(k := None)\<rparr>)
        else (removed, q1))"

definition drain :: "'j WorkQueue \<Rightarrow> 'j WorkItem list \<times> 'j WorkQueue" where
  "drain q = (items q, q\<lparr>per_job_count := Map.empty, items := []\<rparr>)"

subsection \<open>Specification\<close>

text \<open>
  The counter map that the items determine, and the invariant of the queue: the counters are in
  lockstep with the items, and no execution is queued twice.
\<close>

definition count_map :: "'j WorkItem list \<Rightarrow> string \<rightharpoonup> nat" where
  "count_map xs k =
     (let n = length (filter (\<lambda>i. job_key i = k) xs) in if n = 0 then None else Some n)"

definition queue_inv :: "'j WorkQueue \<Rightarrow> bool" where
  "queue_inv q \<longleftrightarrow> distinct (map execution_id (items q)) \<and> per_job_count q = count_map (items q)"

text \<open>Every mutating method of the queue as a labelled step.\<close>

inductive queue_step :: "('j \<Rightarrow> string \<Rightarrow> string option) \<Rightarrow> 'j WorkQueue \<Rightarrow> 'j WorkQueue \<Rightarrow> bool"
  for get_str where
  step_enqueue: "enqueue item q = (b, q') \<Longrightarrow> queue_step get_str q q'"
| step_dequeue: "dequeue_for_where_at get_str now caps eligible q = (r, q') \<Longrightarrow> queue_step get_str q q'"
| step_dequeue_many: "dequeue_many_for get_str now caps n q = (r, q') \<Longrightarrow> queue_step get_str q q'"
| step_remove: "remove eid q = (b, q') \<Longrightarrow> queue_step get_str q q'"
| step_remove_job: "remove_job k q = (r, q') \<Longrightarrow> queue_step get_str q q'"
| step_drain: "drain q = (r, q') \<Longrightarrow> queue_step get_str q q'"

inductive queue_reachable :: "('j \<Rightarrow> string \<Rightarrow> string option) \<Rightarrow> 'j WorkQueue \<Rightarrow> bool" for get_str where
  reach_new: "queue_reachable get_str new_queue"
| reach_step: "queue_reachable get_str q \<Longrightarrow> queue_step get_str q q' \<Longrightarrow> queue_reachable get_str q'"

text \<open>What the scan promises: the first of the admissible items of greatest rank.\<close>

definition first_max :: "('a \<Rightarrow> bool) \<Rightarrow> ('a \<Rightarrow> nat) \<Rightarrow> 'a list \<Rightarrow> 'a list \<Rightarrow> 'a \<Rightarrow> 'a list \<Rightarrow> bool" where
  "first_max P r xs ys x zs \<longleftrightarrow>
     xs = ys @ x # zs \<and> P x \<and> (\<forall>y \<in> set ys. P y \<longrightarrow> r y < r x) \<and> (\<forall>z \<in> set zs. P z \<longrightarrow> r z \<le> r x)"

definition scan_result ::
  "('a \<Rightarrow> bool) \<Rightarrow> ('a \<Rightarrow> nat) \<Rightarrow> 'a list \<Rightarrow> nat \<Rightarrow> (nat \<times> nat) option \<Rightarrow> (nat \<times> nat) option \<Rightarrow> bool"
  where
  "scan_result P r xs i best res \<longleftrightarrow>
     (case res of
        None \<Rightarrow> best = None \<and> (\<forall>x \<in> set xs. \<not> P x)
      | Some (rk, j) \<Rightarrow>
          best = Some (rk, j) \<and> (\<forall>x \<in> set xs. P x \<longrightarrow> r x \<le> rk) \<or>
          (\<exists>ys x zs. first_max P r xs ys x zs \<and> j = i + length ys \<and> rk = r x \<and>
             (\<forall>b k. best = Some (b, k) \<longrightarrow> b < rk)))"

subsection \<open>Lemmas: counters\<close>

lemma count_map_Nil [simp]: "count_map [] = Map.empty"
  by (simp add: count_map_def fun_eq_iff)

lemma count_map_snoc:
  "count_map (xs @ [x]) =
     (count_map xs)(job_key x \<mapsto> (case count_map xs (job_key x) of None \<Rightarrow> 0 | Some c \<Rightarrow> c) + 1)"
  by (auto simp: count_map_def Let_def fun_eq_iff)

lemma items_dec_count [simp]: "items (dec_count k q) = items q"
  by (auto simp: dec_count_def split: option.split)

lemma count_dec_count:
  assumes "per_job_count q = count_map (ys @ x # zs)"
  shows "per_job_count (dec_count (job_key x) q) = count_map (ys @ zs)"
  using assms by (auto simp: dec_count_def count_map_def Let_def fun_eq_iff split: option.split)

lemma count_map_filter_other: "k' \<noteq> k \<Longrightarrow> count_map (filter (\<lambda>i. job_key i \<noteq> k) xs) k' = count_map xs k'"
proof -
  assume "k' \<noteq> k"
  then have "filter (\<lambda>i. job_key i = k') (filter (\<lambda>i. job_key i \<noteq> k) xs) =
      filter (\<lambda>i. job_key i = k') xs"
    by (induction xs) auto
  then show ?thesis by (simp add: count_map_def)
qed

lemma count_map_filter_same: "count_map (filter (\<lambda>i. job_key i \<noteq> k) xs) k = None"
  by (auto simp: count_map_def)

lemma queue_inv_remove_nth:
  assumes inv: "queue_inv q" and i: "i < length (items q)"
  shows "queue_inv (dec_count (job_key (items q ! i)) (q\<lparr>items := remove_nth i (items q)\<rparr>))"
proof -
  obtain ys zs where s: "items q = ys @ items q ! i # zs" "remove_nth i (items q) = ys @ zs"
    using remove_nth_split [OF i] by metis
  have "per_job_count (q\<lparr>items := ys @ zs\<rparr>) = count_map (ys @ items q ! i # zs)"
    using inv s(1) by (simp add: queue_inv_def)
  moreover have "distinct (map execution_id (ys @ items q ! i # zs))"
    using inv s(1) by (simp add: queue_inv_def del: map_append)
  ultimately show ?thesis by (simp add: queue_inv_def s(2) count_dec_count)
qed

subsection \<open>Lemmas: the scan\<close>

lemma base_priority_le: "base_priority get_str x \<le> 2"
  by (simp add: base_priority_def split: option.split)

lemma effective_priority_le: "effective_priority get_str x now \<le> CEILING"
  using base_priority_le [of get_str x]
  by (simp add: effective_priority_def Let_def CEILING_def MAX_PRIORITY_AGING_STEPS_def)

lemma scan_result_oldI:
  "\<forall>x \<in> set xs. P x \<longrightarrow> r x \<le> rk \<Longrightarrow> scan_result P r xs i (Some (rk, j)) (Some (rk, j))"
  by (simp add: scan_result_def)

lemma scan_result_newI:
  assumes "first_max P r xs ys x zs" and "j = i + length ys" and "rk = r x"
    and "\<And>b k. best = Some (b, k) \<Longrightarrow> b < rk"
  shows "scan_result P r xs i best (Some (rk, j))"
proof -
  have "\<exists>ys x zs. first_max P r xs ys x zs \<and> j = i + length ys \<and> rk = r x \<and>
          (\<forall>b k. best = Some (b, k) \<longrightarrow> b < rk)"
    using assms by blast
  then show ?thesis by (simp add: scan_result_def)
qed

lemma scan_resultE:
  assumes "scan_result P r xs i best res"
  obtains (none) "res = None" "best = None" "\<forall>x \<in> set xs. \<not> P x"
  | (old) rk j where "res = Some (rk, j)" "best = Some (rk, j)" "\<forall>x \<in> set xs. P x \<longrightarrow> r x \<le> rk"
  | (new) ys x zs where "res = Some (r x, i + length ys)" "first_max P r xs ys x zs"
      "\<forall>b k. best = Some (b, k) \<longrightarrow> b < r x"
proof (cases res)
  case None
  with assms none show ?thesis by (simp add: scan_result_def)
next
  case (Some a)
  obtain rk j where "a = (rk, j)" by (cases a)
  with assms Some old new show ?thesis by (auto simp: scan_result_def)
qed

lemma scan_result_skip:
  assumes "scan_result P r xs (Suc i) best res"
    and x: "\<not> P x \<or> (\<exists>b k. best = Some (b, k) \<and> r x \<le> b)"
  shows "scan_result P r (x # xs) i best res"
  using assms(1)
proof (cases rule: scan_resultE)
  case none
  with x show ?thesis by (simp add: scan_result_def)
next
  case (old rk j)
  with x have "\<forall>y \<in> set (x # xs). P y \<longrightarrow> r y \<le> rk" by auto
  with old show ?thesis by (simp only: scan_result_oldI)
next
  case (new ys y zs)
  then have "first_max P r (x # xs) (x # ys) y zs"
    using x by (auto simp: first_max_def dest: le_less_trans)
  then show ?thesis unfolding new(1) by (rule scan_result_newI) (use new(3) in auto)
qed

lemma scan_result_take:
  assumes "scan_result P r xs (Suc i) (Some (r x, i)) res" and x: "P x"
    and best: "\<And>b k. best = Some (b, k) \<Longrightarrow> b < r x"
  shows "scan_result P r (x # xs) i best res"
  using assms(1)
proof (cases rule: scan_resultE)
  case (old rk j)
  then have "first_max P r (x # xs) [] x xs" using x by (simp add: first_max_def)
  then show ?thesis unfolding old(1) by (rule scan_result_newI) (use old(2) best in auto)
next
  case (new ys y zs)
  then have y: "r x < r y" by simp
  from new(2) y have "first_max P r (x # xs) (x # ys) y zs" by (auto simp: first_max_def)
  then show ?thesis unfolding new(1) by (rule scan_result_newI) (use y in \<open>auto dest: best\<close>)
qed simp

lemma best_scan_result:
  "scan_result (\<lambda>x. can_run caps x \<and> eligible x) (\<lambda>x. effective_priority get_str x now) xs i best
     (best_scan get_str now caps eligible xs i best)"
proof (induction xs arbitrary: i best)
  case Nil
  show ?case by (auto simp: scan_result_def first_max_def split: option.split)
next
  case (Cons x xs)
  let ?r = "\<lambda>x. effective_priority get_str x now"
  let ?P = "\<lambda>x. can_run caps x \<and> eligible x"
  show ?case
  proof (cases "\<not> ?P x \<or> (\<exists>b k. best = Some (b, k) \<and> ?r x \<le> b)")
    case True
    then have "best_scan get_str now caps eligible (x # xs) i best =
        best_scan get_str now caps eligible xs (Suc i) best" by (auto simp: Let_def)
    with scan_result_skip [OF Cons.IH True] show ?thesis by simp
  next
    case False
    then have P: "?P x" and best: "\<And>b k. best = Some (b, k) \<Longrightarrow> b < ?r x" by force+
    let ?res = "best_scan get_str now caps eligible (x # xs) i best"
    have "scan_result ?P ?r xs (Suc i) (Some (?r x, i)) ?res"
    proof (cases "?r x = CEILING")
      case True
      then have "?res = Some (?r x, i)"
        using P best by (auto simp: Let_def not_le split: option.split)
      moreover have "\<forall>y \<in> set xs. ?P y \<longrightarrow> ?r y \<le> ?r x"
        using True effective_priority_le [of get_str _ now] by simp
      ultimately show ?thesis by (simp only: scan_result_oldI)
    next
      case False
      then have "?res = best_scan get_str now caps eligible xs (Suc i) (Some (?r x, i))"
        using P best by (auto simp: Let_def not_le split: option.split)
      with Cons.IH show ?thesis by simp
    qed
    from scan_result_take [OF this P best] show ?thesis .
  qed
qed

subsection \<open>Lemmas: operations\<close>

abbreviation admits ::
  "instant \<times> string list \<times> ('j WorkItem \<Rightarrow> bool) \<Rightarrow> 'j WorkItem \<Rightarrow> bool" where
  "admits c x \<equiv> (case c of (now, caps, eligible) \<Rightarrow> can_run caps x \<and> eligible x)"

lemma dequeue_cases:
  assumes "dequeue_for_where_at get_str now caps eligible q = (res, q')"
  obtains (none) "res = None" "q' = q" "\<forall>x \<in> set (items q). \<not> (can_run caps x \<and> eligible x)"
  | (some) ys x zs where "res = Some x" "items q' = ys @ zs"
      "q' = dec_count (job_key x) (q\<lparr>items := remove_nth (length ys) (items q)\<rparr>)"
      "first_max (\<lambda>x. can_run caps x \<and> eligible x) (\<lambda>x. effective_priority get_str x now)
         (items q) ys x zs"
  using best_scan_result [of caps eligible get_str now "items q" 0 None]
proof (cases rule: scan_resultE)
  case none
  with assms that(1) show ?thesis by (auto simp: dequeue_for_where_at_def)
next
  case (new ys x zs)
  then have xs: "items q = ys @ x # zs" by (simp add: first_max_def)
  with new assms have "res = Some x"
    "q' = dec_count (job_key x) (q\<lparr>items := remove_nth (length ys) (items q)\<rparr>)"
    by (auto simp: dequeue_for_where_at_def Let_def)
  with xs new(2) that(2) show ?thesis by simp
qed simp

lemma queue_inv_new: "queue_inv new_queue"
  by (simp add: queue_inv_def new_queue_def)

lemma list_ex_ident: "list_ex (\<lambda>i. f i = e) xs \<longleftrightarrow> e \<in> f ` set xs"
  by (induction xs) auto

lemma queue_inv_enqueue:
  assumes "queue_inv q" and "enqueue item q = (b, q')"
  shows "queue_inv q'"
  using assms
  by (auto simp: queue_inv_def enqueue_def Let_def count_map_snoc list_ex_ident split: if_splits)

lemma queue_inv_dequeue:
  assumes inv: "queue_inv q" and d: "dequeue_for_where_at get_str now caps eligible q = (res, q')"
  shows "queue_inv q'"
  using d
proof (cases rule: dequeue_cases)
  case (some ys x zs)
  then have "items q = ys @ x # zs" by (simp add: first_max_def)
  then have "length ys < length (items q)" "items q ! length ys = x" by simp_all
  with queue_inv_remove_nth [OF inv] some(3) show ?thesis by metis
qed (use inv in simp)

lemma queue_inv_dequeue_many:
  "queue_inv q \<Longrightarrow> dequeue_many_for get_str now caps n q = (r, q') \<Longrightarrow> queue_inv q'"
proof (induction n arbitrary: q r)
  case (Suc n)
  then show ?case
    by (auto split: prod.splits option.splits dest: queue_inv_dequeue)
qed simp

lemma queue_inv_remove:
  assumes "queue_inv q" and "remove eid q = (b, q')"
  shows "queue_inv q'"
  using assms by (auto simp: remove_def Let_def dest: position_Some queue_inv_remove_nth
      split: option.splits)

lemma remove_job_loop_filter:
  "i \<le> length xs \<Longrightarrow> remove_job_loop k i xs removed =
     (take i xs @ filter (\<lambda>x. job_key x \<noteq> k) (drop i xs),
      removed @ map execution_id (filter (\<lambda>x. job_key x = k) (drop i xs)))"
proof (induction k i xs removed rule: remove_job_loop.induct)
  case (1 k i xs removed)
  show ?case
  proof (cases "i < length xs")
    case True
    then have d: "drop i xs = xs ! i # drop (Suc i) xs" by (simp add: Cons_nth_drop_Suc)
    have r: "take i (remove_nth i xs) = take i xs" "drop i (remove_nth i xs) = drop (Suc i) xs"
      "i \<le> length (remove_nth i xs)"
      using True by (auto simp: remove_nth_def)
    show ?thesis
    proof (cases "job_key (xs ! i) = k")
      case eq: True
      with "1.IH"(1) [OF True eq r(3)] r d True show ?thesis
        by (subst remove_job_loop.simps) simp
    next
      case neq: False
      with "1.IH"(2) [OF True neq] d True show ?thesis
        by (subst remove_job_loop.simps) (simp add: take_Suc_conv_app_nth)
    qed
  next
    case False
    with "1.prems" show ?thesis by (subst remove_job_loop.simps) simp
  qed
qed

lemma remove_job_alt:
  "remove_job k q =
     (map execution_id (filter (\<lambda>x. job_key x = k) (items q)),
      q\<lparr>items := filter (\<lambda>x. job_key x \<noteq> k) (items q),
        per_job_count := (if \<exists>x \<in> set (items q). job_key x = k
          then (per_job_count q)(k := None) else per_job_count q)\<rparr>)"
  by (auto simp: remove_job_def remove_job_loop_filter Let_def filter_empty_conv)

lemma queue_inv_remove_job:
  assumes inv: "queue_inv q" and "remove_job k q = (r, q')"
  shows "queue_inv q'"
proof -
  have "(count_map (items q))(k := None) = count_map (filter (\<lambda>x. job_key x \<noteq> k) (items q))"
    by (auto simp: fun_eq_iff count_map_filter_other count_map_filter_same)
  moreover have "filter (\<lambda>x. job_key x \<noteq> k) (items q) = items q"
    if "\<forall>x \<in> set (items q). job_key x \<noteq> k" using that by simp
  moreover have "distinct (map execution_id (filter (\<lambda>x. job_key x \<noteq> k) (items q)))"
    using inv by (simp add: queue_inv_def distinct_map_filter)
  ultimately show ?thesis using assms by (auto simp: remove_job_alt queue_inv_def)
qed

lemma queue_inv_drain: "drain q = (r, q') \<Longrightarrow> queue_inv q'"
  by (auto simp: drain_def queue_inv_def)

lemmas queue_inv_intros =
  queue_inv_new queue_inv_enqueue queue_inv_dequeue queue_inv_dequeue_many queue_inv_remove
  queue_inv_remove_job queue_inv_drain

lemma queue_step_inv: "queue_step get_str q q' \<Longrightarrow> queue_inv q \<Longrightarrow> queue_inv q'"
  by (induction rule: queue_step.induct) (blast intro: queue_inv_intros)+

lemma queue_reachable_inv: "queue_reachable get_str q \<Longrightarrow> queue_inv q"
  by (induction rule: queue_reachable.induct) (blast intro: queue_inv_new queue_step_inv)+

subsection \<open>The interface of a dispatch queue\<close>

text \<open>
  What the poll handlers rely on: a queue holds each identity once, a dequeue under a condition
  takes an admitted element out and nothing else, and fails only when no element is admitted.
\<close>

locale dispatch_queue =
  fixes inv :: "'q \<Rightarrow> bool" and content :: "'q \<Rightarrow> 'w list" and ident :: "'w \<Rightarrow> 'i"
    and admitted :: "'c \<Rightarrow> 'w \<Rightarrow> bool"
    and enq :: "'w \<Rightarrow> 'q \<Rightarrow> bool \<times> 'q" and deq :: "'c \<Rightarrow> 'q \<Rightarrow> 'w option \<times> 'q"
  assumes inv_distinct: "inv q \<Longrightarrow> distinct (map ident (content q))"
    and enq_inv: "inv q \<Longrightarrow> enq w q = (b, q') \<Longrightarrow> inv q'"
    and enq_fresh: "inv q \<Longrightarrow> enq w q = (b, q') \<Longrightarrow> b \<longleftrightarrow> ident w \<notin> ident ` set (content q)"
    and enq_content: "inv q \<Longrightarrow> enq w q = (b, q') \<Longrightarrow>
      content q' = (if b then content q @ [w] else content q)"
    and deq_inv: "inv q \<Longrightarrow> deq c q = (r, q') \<Longrightarrow> inv q'"
    and deq_none: "inv q \<Longrightarrow> deq c q = (None, q') \<Longrightarrow>
      q' = q \<and> (\<forall>w \<in> set (content q). \<not> admitted c w)"
    and deq_some: "inv q \<Longrightarrow> deq c q = (Some w, q') \<Longrightarrow>
      admitted c w \<and> mset (content q) = add_mset w (mset (content q'))"
begin

fun deq_upto :: "'c \<Rightarrow> nat \<Rightarrow> 'q \<Rightarrow> 'w list \<times> 'q" where
  "deq_upto c 0 q = ([], q)"
| "deq_upto c (Suc n) q =
     (case deq c q of
        (None, q') \<Rightarrow> ([], q')
      | (Some w, q') \<Rightarrow> (let (ws, q'') = deq_upto c n q' in (w # ws, q'')))"

lemma deq_upto_spec:
  assumes "inv q" and "deq_upto c n q = (ws, q')"
  shows "inv q' \<and> length ws \<le> n \<and> (\<forall>w \<in> set ws. admitted c w) \<and>
    mset (content q) = mset ws + mset (content q') \<and>
    (length ws < n \<longrightarrow> (\<forall>w \<in> set (content q'). \<not> admitted c w))"
  using assms
proof (induction n arbitrary: q ws)
  case (Suc n)
  obtain r q1 where d: "deq c q = (r, q1)" by (cases "deq c q")
  show ?case
  proof (cases r)
    case None
    with Suc.prems d deq_none [OF Suc.prems(1), of c q1] show ?thesis by auto
  next
    case (Some w)
    with d have d': "deq c q = (Some w, q1)" by simp
    obtain ws' where ws: "deq_upto c n q1 = (ws', q')" "ws = w # ws'"
      using Suc.prems(2) d' by (auto split: prod.splits)
    have "inv q1" by (rule deq_inv [OF Suc.prems(1) d'])
    from Suc.IH [OF this ws(1)] deq_some [OF Suc.prems(1) d'] ws(2) show ?thesis by auto
  qed
qed simp

lemma deq_upto_disjoint:
  assumes "inv q" and "deq_upto c n q = (ws, q')"
  shows "distinct (map ident ws) \<and> ident ` set ws \<inter> ident ` set (content q') = {}"
proof -
  from deq_upto_spec [OF assms] have "mset (content q) = mset (ws @ content q')" by simp
  then have "mset (map ident (content q)) = mset (map ident (ws @ content q'))"
    by (metis mset_map)
  with inv_distinct [OF assms(1)] have "distinct (map ident (ws @ content q'))"
    by (metis mset_eq_imp_distinct_iff)
  then show ?thesis by auto
qed

end

interpretation wq: dispatch_queue queue_inv items execution_id admits enqueue
  "\<lambda>c q. dequeue_for_where_at get_str (fst c) (fst (snd c)) (snd (snd c)) q"
  for get_str :: "'j \<Rightarrow> string \<Rightarrow> string option"
proof (unfold_locales, goal_cases)
  case (1 q)
  then show ?case by (simp add: queue_inv_def)
next
  case (2 q w b q')
  then show ?case by (rule queue_inv_enqueue)
next
  case (3 q w b q')
  then show ?case by (auto simp: enqueue_def Let_def list_ex_ident split: if_splits)
next
  case (4 q w b q')
  then show ?case by (auto simp: enqueue_def Let_def split: if_splits)
next
  case (5 q c r q')
  then show ?case by (blast intro: queue_inv_dequeue)
next
  case (6 q c q')
  from 6(2) show ?case by (cases rule: dequeue_cases) (auto split: prod.split)
next
  case (7 q c w q')
  from 7(2) show ?case by (cases rule: dequeue_cases) (auto simp: first_max_def split: prod.split)
qed

lemma dequeue_many_for_upto:
  "dequeue_many_for get_str now caps n q = wq.deq_upto get_str (now, caps, \<lambda>_. True) n q"
  by (induction n arbitrary: q) (auto split: prod.splits option.splits)

subsection \<open>Lemmas: aging\<close>

definition waited_secs :: "'j WorkItem \<Rightarrow> instant \<Rightarrow> int" where
  "waited_secs x now = max (num_seconds (now - fire_at x)) 0"

lemma effective_priority_waited:
  "int (effective_priority get_str x now) =
     int (base_priority get_str x) + min (waited_secs x now div 300) 288"
  by (simp add: effective_priority_def waited_secs_def Let_def PRIORITY_AGING_STEP_SECS_def
      MAX_PRIORITY_AGING_STEPS_def pos_imp_zdiv_nonneg_iff)

lemma dequeue_rank_le:
  assumes "dequeue_for_where_at get_str now caps eligible q = (Some y, q')"
    and "x \<in> set (items q)" and "can_run caps x" and "eligible x"
  shows "effective_priority get_str x now \<le> effective_priority get_str y now"
  using assms(1)
proof (cases rule: dequeue_cases)
  case (some ys y' zs)
  with assms(2-4) show ?thesis by (auto simp: first_max_def less_imp_le)
qed simp

subsection \<open>Properties\<close>

text \<open>C6: In every state the queue can reach from the empty one through enqueue, the dequeues, remove,
  remove-job and drain, in any order, the per-job counters are exactly the numbers of queued items
  of each job, with no entry for a job that has none, and no execution is queued twice.\<close>

theorem queue_counters_in_lockstep:
  assumes "queue_reachable get_str q"
  shows "count_for_job k q = length (filter (\<lambda>i. job_key i = k) (items q)) \<and>
         (per_job_count q k = None \<longleftrightarrow> (\<forall>i \<in> set (items q). job_key i \<noteq> k)) \<and>
         distinct (map execution_id (items q))"
proof -
  from queue_reachable_inv [OF assms] have c: "per_job_count q k = count_map (items q) k"
    and d: "distinct (map execution_id (items q))" by (simp_all add: queue_inv_def)
  show ?thesis using c d by (auto simp: count_for_job_def count_map_def Let_def filter_empty_conv)
qed

theorem queue_counters_in_lockstep_witness:
  "count_for_job ''j''
     (snd (enqueue \<lparr>execution_id = ''e'', job_key = ''j'', fire_at = 0, scheduled_for = 0,
       wi_attempt = 1, require = [], wi_prefer = [], metadata = (), wi_timeout = ''5m'',
       is_ephemeral = False\<rparr> new_queue)) = 1"
proof -
  let ?x = "\<lparr>execution_id = ''e'', job_key = ''j'', fire_at = 0, scheduled_for = 0,
       wi_attempt = 1, require = [], wi_prefer = [], metadata = (), wi_timeout = ''5m'',
       is_ephemeral = False\<rparr>"
  have "queue_reachable (\<lambda>_ _. None) (snd (enqueue ?x new_queue))"
    by (rule reach_step [OF reach_new]) (rule step_enqueue [of ?x _ True], simp add: enqueue_def new_queue_def)
  from queue_counters_in_lockstep [OF this, of "''j''"] show ?thesis
    by (simp add: enqueue_def new_queue_def)
qed

text \<open>C7: A dequeue hands out the first queued item of the highest effective priority among those the
  runner is capable of and the predicate admits, takes exactly this item out and keeps the order of
  the others; it hands out nothing exactly when no queued item is admitted.\<close>

theorem dequeue_first_of_highest_priority:
  assumes "dequeue_for_where_at get_str now caps eligible q = (res, q')"
  shows "case res of
      None \<Rightarrow> q' = q \<and> (\<forall>x \<in> set (items q). \<not> (can_run caps x \<and> eligible x))
    | Some x \<Rightarrow> \<exists>ys zs. items q = ys @ x # zs \<and> items q' = ys @ zs \<and> can_run caps x \<and> eligible x \<and>
        (\<forall>y \<in> set ys. can_run caps y \<and> eligible y \<longrightarrow>
           effective_priority get_str y now < effective_priority get_str x now) \<and>
        (\<forall>z \<in> set zs. can_run caps z \<and> eligible z \<longrightarrow>
           effective_priority get_str z now \<le> effective_priority get_str x now)"
  using assms by (cases rule: dequeue_cases) (auto simp: first_max_def)

definition sample_item :: "string \<Rightarrow> string \<Rightarrow> instant \<Rightarrow> string WorkItem" where
  "sample_item e p at = \<lparr>execution_id = e, job_key = ''j'', fire_at = at, scheduled_for = at,
     wi_attempt = 1, require = [], wi_prefer = [], metadata = p, wi_timeout = ''5m'',
     is_ephemeral = False\<rparr>"

lemmas sample_simps = sample_item_def dequeue_for_where_at_def can_run_def effective_priority_def
  base_priority_def Let_def CEILING_def MAX_PRIORITY_AGING_STEPS_def PRIORITY_AGING_STEP_SECS_def
  num_seconds_def seconds_def nanos_def remove_nth_def dec_count_def

theorem dequeue_first_of_highest_priority_witness:
  "\<exists>q'. dequeue_for_where_at (\<lambda>m _. Some m) 0 [] (\<lambda>_. True)
     \<lparr>items = [sample_item ''a'' ''low'' 0, sample_item ''b'' ''high'' 0], per_job_count = Map.empty\<rparr>
     = (Some (sample_item ''b'' ''high'' 0), q') \<and> items q' = [sample_item ''a'' ''low'' 0]"
proof -
  let ?q = "\<lparr>items = [sample_item ''a'' ''low'' 0, sample_item ''b'' ''high'' 0],
             per_job_count = Map.empty\<rparr>"
  obtain res q' where d: "dequeue_for_where_at (\<lambda>m _. Some m) 0 [] (\<lambda>_. True) ?q = (res, q')"
    by fastforce
  then have r: "res = Some (sample_item ''b'' ''high'' 0)" by (simp add: sample_simps)
  from dequeue_first_of_highest_priority [OF d] r have "items q' = [sample_item ''a'' ''low'' 0]"
    by (auto simp: sample_item_def Cons_eq_append_conv)
  with d r show ?thesis by blast
qed

text \<open>C8: Aging bounds starvation: when an item is handed out while another admitted item stays in the
  queue, the one handed out has itself waited less than fifteen minutes shorter than the other,
  where waiting beyond a day counts as a day.\<close>

theorem dequeue_starvation_bound:
  assumes "dequeue_for_where_at get_str now caps eligible q = (Some y, q')"
    and "x \<in> set (items q)" and "can_run caps x" and "eligible x"
  shows "min (waited_secs x now) 86400 < waited_secs y now + 900"
proof -
  have "int (effective_priority get_str x now) \<le> int (effective_priority get_str y now)"
    using dequeue_rank_le [OF assms] by simp
  then have "min (waited_secs x now div 300) 288 \<le> 2 + waited_secs y now div 300"
    using base_priority_le [of get_str y] unfolding effective_priority_waited by linarith
  then show ?thesis by linarith
qed

theorem dequeue_starvation_bound_witness:
  "min (waited_secs (sample_item ''a'' ''low'' (seconds (- 600))) 0) 86400
     < waited_secs (sample_item ''b'' ''high'' (seconds (- 60))) 0 + 900"
proof (rule dequeue_starvation_bound [where get_str = "\<lambda>m _. Some m" and caps = "[]" and
      eligible = "\<lambda>_. True" and q = "\<lparr>items = [sample_item ''b'' ''high'' (seconds (- 60)),
        sample_item ''a'' ''low'' (seconds (- 600))], per_job_count = Map.empty\<rparr>" and
      q' = "\<lparr>items = [sample_item ''a'' ''low'' (seconds (- 600))], per_job_count = Map.empty\<rparr>"])
qed (simp_all add: sample_simps)

text \<open>The aging cap is counted before the base level is added: a low-priority item that has waited a
  day or longer ranks below a high-priority one that has waited a few minutes less than a day.\<close>

theorem aging_cap_below_high:
  assumes "base_priority get_str x = 0" and "base_priority get_str y = 2"
    and "86400 \<le> waited_secs x now" and "86100 \<le> waited_secs y now" and "waited_secs y now < 86400"
  shows "effective_priority get_str x now < effective_priority get_str y now"
proof -
  have "waited_secs y now div 300 = 287" "288 \<le> waited_secs x now div 300" using assms(3-5) by linarith+
  then have "int (effective_priority get_str x now) < int (effective_priority get_str y now)"
    using assms(1,2) by (simp add: effective_priority_waited)
  then show ?thesis by simp
qed

theorem aging_cap_below_high_witness:
  "effective_priority (\<lambda>m _. Some m) (sample_item ''a'' ''low'' (seconds (- 90000))) 0
     < effective_priority (\<lambda>m _. Some m) (sample_item ''b'' ''high'' (seconds (- 86200))) 0"
  by (rule aging_cap_below_high) (simp_all add: sample_simps waited_secs_def)

text \<open>C9: Taking up to a limit of items hands out at most that many, each runnable by the runner, no
  execution twice and none that is still queued; nothing is lost, and fewer than the limit come
  back only when no runnable item is left.\<close>

theorem dequeue_many_exact:
  assumes "queue_inv q" and "dequeue_many_for get_str now caps n q = (ws, q')"
  shows "length ws \<le> n \<and> (\<forall>w \<in> set ws. can_run caps w) \<and> distinct (map execution_id ws) \<and>
    execution_id ` set ws \<inter> execution_id ` set (items q') = {} \<and>
    mset (items q) = mset ws + mset (items q') \<and>
    (length ws < n \<longrightarrow> (\<forall>w \<in> set (items q'). \<not> can_run caps w))"
proof -
  from assms(2) have d: "wq.deq_upto get_str (now, caps, \<lambda>_. True) n q = (ws, q')"
    by (simp only: dequeue_many_for_upto)
  from wq.deq_upto_spec [OF assms(1) d] wq.deq_upto_disjoint [OF assms(1) d] show ?thesis by simp
qed

theorem dequeue_many_exact_witness:
  "distinct (map execution_id (fst (dequeue_many_for (\<lambda>_ _. None) 0 [] 3
     (snd (enqueue (sample_item ''b'' '''' 0) (snd (enqueue (sample_item ''a'' '''' 0) new_queue)))))))"
proof -
  let ?q = "snd (enqueue (sample_item ''b'' '''' 0) (snd (enqueue (sample_item ''a'' '''' 0) new_queue)))"
  have "queue_inv ?q"
    by (metis prod.collapse queue_inv_enqueue queue_inv_new)
  from dequeue_many_exact [OF this prod.collapse [symmetric]] show ?thesis by blast
qed

text \<open>The index loop that removes a job's items computes the two filters: it returns the ids of the
  job's items in queue order and keeps the others in order.\<close>

theorem remove_job_is_filter:
  "remove_job k q = (ids, q') \<longleftrightarrow>
     ids = map execution_id (filter (\<lambda>x. job_key x = k) (items q)) \<and>
     q' = q\<lparr>items := filter (\<lambda>x. job_key x \<noteq> k) (items q),
            per_job_count := (if ids = [] then per_job_count q else (per_job_count q)(k := None))\<rparr>"
proof -
  have "filter (\<lambda>x. job_key x = k) (items q) = [] \<longleftrightarrow> \<not> (\<exists>x \<in> set (items q). job_key x = k)"
    by (auto simp: filter_empty_conv)
  then show ?thesis by (auto simp: remove_job_alt)
qed

end
