(* ===== verification/Registry.thy ===== *)
theory Registry
  imports Work_Queue "HOL-Library.AList"
begin

text \<open>
  The runner registry (\<^verbatim>\<open>croniq-runner/src/registry.rs\<close>), the runner type and its liveness status
  (\<^verbatim>\<open>types.rs\<close>) and the capability router (\<^verbatim>\<open>router.rs\<close>). A \<^verbatim>\<open>HashMap\<close> that the code iterates is an
  association list with distinct keys; the order of the list stands for the unspecified iteration
  order. A map that is only looked up is a partial function. The wall clock is the argument \<open>now\<close>.
\<close>

subsection \<open>Runners\<close>

record Runner =
  runner_id :: string
  capabilities :: "string list"
  max_inflight :: nat
  last_poll_at :: instant
  inflight :: "string list"
  instance_id :: "string option"
  deposed_instance_id :: "string option"
  tags :: "string list"

datatype RunnerStatus = Online | Stale | Dead

definition new_runner :: "string \<Rightarrow> string list \<Rightarrow> nat \<Rightarrow> instant \<Rightarrow> Runner" where
  "new_runner rid caps mx now =
     \<lparr>runner_id = rid, capabilities = caps, max_inflight = mx, last_poll_at = now, inflight = [],
      instance_id = None, deposed_instance_id = None, tags = []\<rparr>"

definition status_at_with_ttl :: "Runner \<Rightarrow> instant \<Rightarrow> nat \<Rightarrow> RunnerStatus" where
  "status_at_with_ttl r now dead_threshold_secs =
     (let age = nat (max (num_seconds (now - last_poll_at r)) 0);
          stale_threshold = dead_threshold_secs div 2
      in if age < stale_threshold then Online
         else if age < dead_threshold_secs then Stale
         else Dead)"

definition status_at :: "Runner \<Rightarrow> instant \<Rightarrow> RunnerStatus" where
  "status_at r now = status_at_with_ttl r now 120"

definition has_capacity :: "Runner \<Rightarrow> bool" where
  "has_capacity r \<longleftrightarrow> length (inflight r) mod 2 ^ 32 < max_inflight r"

subsection \<open>The registry\<close>

definition FLAP_WINDOW_SECS :: int where
  "FLAP_WINDOW_SECS = 600"

definition FLAP_THRESHOLD :: nat where
  "FLAP_THRESHOLD = 3"

definition DEFAULT_DEAD_THRESHOLD_SECS :: nat where
  "DEFAULT_DEAD_THRESHOLD_SECS = 120"

datatype RegisterOutcome = New | Updated | TookOver (previous_instance_id: string)

record RunnerRegistry =
  runners :: "(string \<times> Runner) list"
  takeover_history :: "string \<rightharpoonup> instant list"
  last_flap_signal :: "string \<rightharpoonup> instant"

definition new_registry :: RunnerRegistry where
  "new_registry = \<lparr>runners = [], takeover_history = Map.empty, last_flap_signal = Map.empty\<rparr>"

definition get_runner :: "string \<Rightarrow> RunnerRegistry \<Rightarrow> Runner option" where
  "get_runner rid reg = map_of (runners reg) rid"

text \<open>
  The instance guard: whose identity the poll takes over, or the instance that fences it off.
\<close>

definition instance_guard :: "string option \<Rightarrow> Runner option \<Rightarrow> string + string option" where
  "instance_guard iid existing =
     (case iid of None \<Rightarrow> Inr None
      | Some new_iid \<Rightarrow>
          (case existing of None \<Rightarrow> Inr None
           | Some e \<Rightarrow>
               (case instance_id e of None \<Rightarrow> Inr None
                | Some old_iid \<Rightarrow>
                    if old_iid = new_iid then Inr None
                    else if deposed_instance_id e = Some new_iid then Inl old_iid
                    else Inr (Some old_iid))))"

definition register_or_update ::
  "instant \<Rightarrow> string \<Rightarrow> string list \<Rightarrow> nat \<Rightarrow> string list \<Rightarrow> string option \<Rightarrow> string list \<Rightarrow>
   RunnerRegistry \<Rightarrow> (string + RegisterOutcome) \<times> RunnerRegistry" where
  "register_or_update now rid caps mx infl iid tgs reg =
     (case instance_guard iid (get_runner rid reg) of
        Inl old_iid \<Rightarrow> (Inl old_iid, reg)
      | Inr took_over \<Rightarrow>
          (let reg1 = (if took_over \<noteq> None then reg\<lparr>runners := AList.delete rid (runners reg)\<rparr> else reg);
               outcome = (case took_over of
                   Some prev \<Rightarrow> TookOver prev
                 | None \<Rightarrow> if get_runner rid reg1 \<noteq> None then Updated else New);
               entry = (case get_runner rid reg1 of
                   Some r \<Rightarrow> r
                 | None \<Rightarrow> \<lparr>runner_id = rid, capabilities = caps, max_inflight = mx,
                     last_poll_at = now, inflight = infl, instance_id = iid,
                     deposed_instance_id = None, tags = tgs\<rparr>);
               r1 = entry\<lparr>capabilities := caps, max_inflight := mx, last_poll_at := now,
                     inflight := infl, tags := tgs\<rparr>;
               r2 = (if iid \<noteq> None then r1\<lparr>instance_id := iid\<rparr> else r1);
               r3 = (if took_over \<noteq> None then r2\<lparr>deposed_instance_id := took_over\<rparr> else r2)
           in (Inr outcome, reg1\<lparr>runners := AList.update rid r3 (runners reg1)\<rparr>)))"

record PollRequest =
  pr_runner_id :: string
  pr_capabilities :: "string list"
  pr_max_inflight :: nat
  pr_inflight :: "string list"
  pr_instance_id :: "string option"
  pr_tags :: "string list"

definition register_poll ::
  "instant \<Rightarrow> PollRequest \<Rightarrow> RunnerRegistry \<Rightarrow> (string + RegisterOutcome) \<times> RunnerRegistry" where
  "register_poll now req reg =
     register_or_update now (pr_runner_id req) (pr_capabilities req) (pr_max_inflight req)
       (pr_inflight req) (pr_instance_id req) (pr_tags req) reg"

definition record_takeover :: "string \<Rightarrow> instant \<Rightarrow> RunnerRegistry \<Rightarrow> bool \<times> RunnerRegistry" where
  "record_takeover rid now reg =
     (let window_start = now - seconds FLAP_WINDOW_SECS;
          old = (case takeover_history reg rid of None \<Rightarrow> [] | Some h \<Rightarrow> h);
          history = dropWhile (\<lambda>t. t < window_start) (old @ [now]);
          reg1 = reg\<lparr>takeover_history := (takeover_history reg)(rid \<mapsto> history)\<rparr>
      in if length history < FLAP_THRESHOLD then (False, reg1)
         else
           let throttled = (case last_flap_signal reg1 rid of
                              None \<Rightarrow> False | Some l \<Rightarrow> l \<ge> window_start)
           in if throttled then (False, reg1)
              else (True, reg1\<lparr>last_flap_signal := (last_flap_signal reg1)(rid \<mapsto> now)\<rparr>))"

definition remove_runner :: "string \<Rightarrow> RunnerRegistry \<Rightarrow> Runner option \<times> RunnerRegistry" where
  "remove_runner rid reg =
     (get_runner rid reg, reg\<lparr>runners := AList.delete rid (runners reg)\<rparr>)"

definition all_runners :: "RunnerRegistry \<Rightarrow> Runner list" where
  "all_runners reg = map snd (runners reg)"

definition total_inflight :: "RunnerRegistry \<Rightarrow> nat" where
  "total_inflight reg = sum_list (map (\<lambda>r. length (inflight r)) (all_runners reg))"

definition by_status_with_ttl :: "RunnerStatus \<Rightarrow> instant \<Rightarrow> nat \<Rightarrow> RunnerRegistry \<Rightarrow> Runner list" where
  "by_status_with_ttl st now ttl reg =
     filter (\<lambda>r. status_at_with_ttl r now ttl = st) (all_runners reg)"

definition by_status :: "RunnerStatus \<Rightarrow> instant \<Rightarrow> RunnerRegistry \<Rightarrow> Runner list" where
  "by_status st now reg = by_status_with_ttl st now DEFAULT_DEAD_THRESHOLD_SECS reg"

definition dead_ids :: "instant \<Rightarrow> RunnerRegistry \<Rightarrow> string list" where
  "dead_ids now reg =
     map runner_id (by_status_with_ttl Dead now DEFAULT_DEAD_THRESHOLD_SECS reg)"

definition claim :: "string \<Rightarrow> string \<Rightarrow> RunnerRegistry \<Rightarrow> bool \<times> RunnerRegistry" where
  "claim rid eid reg =
     (case get_runner rid reg of
        Some r \<Rightarrow>
          (True, reg\<lparr>runners := AList.update rid (r\<lparr>inflight := inflight r @ [eid]\<rparr>) (runners reg)\<rparr>)
      | None \<Rightarrow> (False, reg))"

definition release :: "string \<Rightarrow> string \<Rightarrow> RunnerRegistry \<Rightarrow> bool \<times> RunnerRegistry" where
  "release rid eid reg =
     (case get_runner rid reg of
        Some r \<Rightarrow>
          (let before = length (inflight r);
               kept = filter (\<lambda>i. i \<noteq> eid) (inflight r)
           in (length kept < before,
               reg\<lparr>runners := AList.update rid (r\<lparr>inflight := kept\<rparr>) (runners reg)\<rparr>))
      | None \<Rightarrow> (False, reg))"

definition registry_len :: "RunnerRegistry \<Rightarrow> nat" where
  "registry_len reg = length (runners reg)"

definition registry_is_empty :: "RunnerRegistry \<Rightarrow> bool" where
  "registry_is_empty reg = (runners reg = [])"

subsection \<open>The capability router\<close>

definition can_handle :: "Runner \<Rightarrow> 'j WorkItem \<Rightarrow> bool" where
  "can_handle r w = list_all (\<lambda>req. req \<in> set (capabilities r)) (require w)"

definition score :: "Runner \<Rightarrow> 'j WorkItem \<Rightarrow> nat" where
  "score r w =
     (let preferred_matches = length (filter (\<lambda>p. p \<in> set (capabilities r)) (wi_prefer w));
          capacity_bonus = (if has_capacity r then 1 else 0)
      in preferred_matches + capacity_bonus)"

text \<open>\<^verbatim>\<open>Iterator::max_by_key\<close>: of several elements of maximal key the last one.\<close>

fun max_by_key :: "('a \<Rightarrow> nat) \<Rightarrow> 'a list \<Rightarrow> 'a option" where
  "max_by_key f [] = None"
| "max_by_key f (x # xs) =
     (case max_by_key f xs of
        None \<Rightarrow> Some x
      | Some y \<Rightarrow> if f x \<le> f y then Some y else Some x)"

definition best :: "Runner list \<Rightarrow> 'j WorkItem \<Rightarrow> Runner option" where
  "best rs w =
     max_by_key (\<lambda>r. score r w) (filter (\<lambda>r. has_capacity r \<and> can_handle r w) rs)"

subsection \<open>Specification\<close>

text \<open>
  Keys are unique and name their runner, and a runner that has deposed an instance is held by
  another one, so a registered instance is never fenced off by its own entry.
\<close>

definition runner_ok :: "string \<Rightarrow> Runner \<Rightarrow> bool" where
  "runner_ok k r \<longleftrightarrow> runner_id r = k \<and>
     (case deposed_instance_id r of None \<Rightarrow> True
      | Some d \<Rightarrow> (case instance_id r of None \<Rightarrow> False | Some i \<Rightarrow> i \<noteq> d))"

definition registry_inv :: "RunnerRegistry \<Rightarrow> bool" where
  "registry_inv reg \<longleftrightarrow>
     distinct (map fst (runners reg)) \<and> list_all (\<lambda>(k, r). runner_ok k r) (runners reg)"

inductive registry_step :: "RunnerRegistry \<Rightarrow> RunnerRegistry \<Rightarrow> bool" where
  step_register: "register_or_update now rid caps mx infl iid tgs reg = (res, reg') \<Longrightarrow> registry_step reg reg'"
| step_takeover: "record_takeover rid now reg = (b, reg') \<Longrightarrow> registry_step reg reg'"
| step_remove_runner: "remove_runner rid reg = (r, reg') \<Longrightarrow> registry_step reg reg'"
| step_claim: "claim rid eid reg = (b, reg') \<Longrightarrow> registry_step reg reg'"
| step_release: "release rid eid reg = (b, reg') \<Longrightarrow> registry_step reg reg'"

inductive registry_reachable :: "RunnerRegistry \<Rightarrow> bool" where
  reach_empty: "registry_reachable new_registry"
| reach_reg: "registry_reachable reg \<Longrightarrow> registry_step reg reg' \<Longrightarrow> registry_reachable reg'"

text \<open>Sequences of polls and of takeovers.\<close>

fun run_polls ::
  "(instant \<times> PollRequest) list \<Rightarrow> RunnerRegistry \<Rightarrow> (string + RegisterOutcome) list \<times> RunnerRegistry"
  where
  "run_polls [] reg = ([], reg)"
| "run_polls ((now, req) # ps) reg =
     (case register_poll now req reg of (res, reg') \<Rightarrow>
        (case run_polls ps reg' of (rest, reg'') \<Rightarrow> (res # rest, reg'')))"

fun flap_signals :: "string \<Rightarrow> (string \<times> instant) list \<Rightarrow> RunnerRegistry \<Rightarrow> instant list" where
  "flap_signals rid [] reg = []"
| "flap_signals rid ((k, t) # es) reg =
     (case record_takeover k t reg of (b, reg') \<Rightarrow>
        if b \<and> k = rid then t # flap_signals rid es reg' else flap_signals rid es reg')"

definition fenced :: "string \<Rightarrow> string \<Rightarrow> string \<Rightarrow> RunnerRegistry \<Rightarrow> bool" where
  "fenced rid winner loser reg \<longleftrightarrow>
     (\<exists>r. get_runner rid reg = Some r \<and> instance_id r = Some winner \<and>
        deposed_instance_id r = Some loser) \<and> winner \<noteq> loser"

subsection \<open>Lemmas: the registry as a map\<close>

lemma get_runner_update [simp]:
  "get_runner rid (reg\<lparr>runners := AList.update k r xs\<rparr>) =
     (if rid = k then Some r else get_runner rid (reg\<lparr>runners := xs\<rparr>))"
  by (simp add: get_runner_def update_conv)

lemma get_runner_delete [simp]:
  "get_runner rid (reg\<lparr>runners := AList.delete k xs\<rparr>) =
     (if rid = k then None else get_runner rid (reg\<lparr>runners := xs\<rparr>))"
  by (simp add: get_runner_def delete_conv)

lemma get_runner_same [simp]: "get_runner rid (reg\<lparr>runners := runners reg\<rparr>) = get_runner rid reg"
  by (simp add: get_runner_def)

lemma get_runner_other_fields [simp]:
  "get_runner rid (reg\<lparr>takeover_history := h\<rparr>) = get_runner rid reg"
  "get_runner rid (reg\<lparr>last_flap_signal := l\<rparr>) = get_runner rid reg"
  by (simp_all add: get_runner_def)

lemma list_all_update:
  "list_all (\<lambda>(k, r). P k r) xs \<Longrightarrow> P k v \<Longrightarrow> list_all (\<lambda>(k, r). P k r) (AList.update k v xs)"
  by (induction xs) auto

lemma list_all_delete:
  "list_all (\<lambda>(k, r). P k r) xs \<Longrightarrow> list_all (\<lambda>(k, r). P k r) (AList.delete k xs)"
  by (induction xs) auto

lemma registry_inv_update:
  "registry_inv reg \<Longrightarrow> runner_ok k r \<Longrightarrow>
     registry_inv (reg\<lparr>runners := AList.update k r (runners reg)\<rparr>)"
  by (simp add: registry_inv_def distinct_update list_all_update)

lemma registry_inv_delete:
  "registry_inv reg \<Longrightarrow> registry_inv (reg\<lparr>runners := AList.delete k (runners reg)\<rparr>)"
  by (simp add: registry_inv_def distinct_delete list_all_delete)

lemma registry_inv_get: "registry_inv reg \<Longrightarrow> get_runner k reg = Some r \<Longrightarrow> runner_ok k r"
  by (auto simp: registry_inv_def get_runner_def list_all_iff dest: map_of_SomeD)

subsection \<open>Lemmas: registration\<close>

lemma instance_guard_Inr:
  assumes "instance_guard iid e = Inr (Some old)"
  obtains r new where "iid = Some new" "e = Some r" "instance_id r = Some old" "old \<noteq> new"
    "deposed_instance_id r \<noteq> Some new"
  using assms by (auto simp: instance_guard_def split: option.splits if_splits)

lemma instance_guard_Inl:
  assumes "instance_guard iid e = Inl old"
  obtains r new where "iid = Some new" "e = Some r" "instance_id r = Some old" "old \<noteq> new"
    "deposed_instance_id r = Some new"
  using assms by (auto simp: instance_guard_def split: option.splits if_splits)

lemma instance_guard_keep:
  assumes "instance_guard iid (Some r) = Inr None" and "iid = Some new" and "instance_id r = Some old"
  shows "old = new"
  using assms by (auto simp: instance_guard_def split: option.splits if_splits)

lemma register_cases:
  assumes "register_or_update now rid caps mx infl iid tgs reg = (res, reg')"
  obtains (fence) r new old where "res = Inl old" "reg' = reg" "iid = Some new"
      "get_runner rid reg = Some r" "instance_id r = Some old" "deposed_instance_id r = Some new"
      "old \<noteq> new"
  | (takeover) r new old where "res = Inr (TookOver old)" "iid = Some new"
      "get_runner rid reg = Some r" "instance_id r = Some old" "old \<noteq> new"
      "runners reg' = AList.update rid \<lparr>runner_id = rid, capabilities = caps, max_inflight = mx,
         last_poll_at = now, inflight = infl, instance_id = iid, deposed_instance_id = Some old,
         tags = tgs\<rparr> (AList.delete rid (runners reg))"
  | (update) r where "res = Inr Updated" "get_runner rid reg = Some r"
      "instance_guard iid (Some r) = Inr None"
      "runners reg' = AList.update rid (r\<lparr>capabilities := caps, max_inflight := mx,
         last_poll_at := now, inflight := infl, tags := tgs,
         instance_id := (if iid \<noteq> None then iid else instance_id r)\<rparr>) (runners reg)"
  | (new) "res = Inr New" "get_runner rid reg = None"
      "runners reg' = AList.update rid \<lparr>runner_id = rid, capabilities = caps, max_inflight = mx,
         last_poll_at = now, inflight = infl, instance_id = iid, deposed_instance_id = None,
         tags = tgs\<rparr> (runners reg)"
proof (cases "instance_guard iid (get_runner rid reg)")
  case (Inl old)
  then show ?thesis
    by (rule instance_guard_Inl) (use Inl assms fence in \<open>auto simp: register_or_update_def\<close>)
next
  case (Inr t)
  show ?thesis
  proof (cases t)
    case (Some old)
    with Inr have "instance_guard iid (get_runner rid reg) = Inr (Some old)" by simp
    then show ?thesis
      by (rule instance_guard_Inr)
        (use Inr Some assms takeover in \<open>auto simp: register_or_update_def Let_def\<close>)
  next
    case None
    show ?thesis
    proof (cases "get_runner rid reg")
      case None': None
      with Inr None assms show ?thesis by (intro new) (auto simp: register_or_update_def Let_def)
    next
      case (Some r)
      with Inr None assms show ?thesis
        by (intro update [of r]) (auto simp: register_or_update_def Let_def)
    qed
  qed
qed

lemma registry_inv_runners: "registry_inv reg \<Longrightarrow> runners reg' = runners reg \<Longrightarrow> registry_inv reg'"
  by (simp add: registry_inv_def)

lemma registry_inv_register:
  assumes inv: "registry_inv reg"
    and "register_or_update now rid caps mx infl iid tgs reg = (res, reg')"
  shows "registry_inv reg'"
  using assms(2)
proof (cases rule: register_cases)
  case fence
  with inv show ?thesis by simp
next
  case (takeover r new old)
  let ?r = "\<lparr>runner_id = rid, capabilities = caps, max_inflight = mx, last_poll_at = now,
    inflight = infl, instance_id = iid, deposed_instance_id = Some old, tags = tgs\<rparr>"
  have "runner_ok rid ?r" using takeover by (simp add: runner_ok_def)
  from registry_inv_update [OF registry_inv_delete [OF inv] this, of rid] takeover(6)
  show ?thesis by (simp add: registry_inv_def)
next
  case (update r)
  from registry_inv_get [OF inv update(2)] update(3)
  have "runner_ok rid (r\<lparr>capabilities := caps, max_inflight := mx, last_poll_at := now,
      inflight := infl, tags := tgs, instance_id := (if iid \<noteq> None then iid else instance_id r)\<rparr>)"
    by (auto simp: runner_ok_def instance_guard_def split: option.splits if_splits)
  from registry_inv_update [OF inv this] update(4) show ?thesis by (auto elim: registry_inv_runners)
next
  case new
  let ?r = "\<lparr>runner_id = rid, capabilities = caps, max_inflight = mx, last_poll_at = now,
    inflight = infl, instance_id = iid, deposed_instance_id = None, tags = tgs\<rparr>"
  have "runner_ok rid ?r" by (simp add: runner_ok_def)
  from registry_inv_update [OF inv this] new(3) show ?thesis by (auto elim: registry_inv_runners)
qed

lemma registry_inv_inflight:
  "registry_inv reg \<Longrightarrow> get_runner rid reg = Some r \<Longrightarrow>
     registry_inv (reg\<lparr>runners := AList.update rid (r\<lparr>inflight := xs\<rparr>) (runners reg)\<rparr>)"
  by (rule registry_inv_update)
    (auto dest: registry_inv_get simp: runner_ok_def split: option.splits)

lemma runners_record_takeover: "runners (snd (record_takeover rid now reg)) = runners reg"
  by (simp add: record_takeover_def Let_def)

lemma registry_step_inv: "registry_step reg reg' \<Longrightarrow> registry_inv reg \<Longrightarrow> registry_inv reg'"
proof (induction rule: registry_step.induct)
  case (step_takeover rid now reg b reg')
  then show ?case using runners_record_takeover [of rid now reg] by (simp add: registry_inv_runners)
qed (auto intro: registry_inv_register registry_inv_delete registry_inv_inflight
    simp: remove_runner_def claim_def release_def Let_def split: option.splits)

lemma registry_reachable_inv: "registry_reachable reg \<Longrightarrow> registry_inv reg"
proof (induction rule: registry_reachable.induct)
  case reach_empty
  show ?case by (simp add: registry_inv_def new_registry_def)
qed (rule registry_step_inv)

subsection \<open>Lemmas: fencing\<close>

lemma get_runner_cong: "runners reg' = runners reg \<Longrightarrow> get_runner k reg' = get_runner k reg"
  by (simp add: get_runner_def)

lemma get_runner_register_other:
  assumes "register_or_update now rid caps mx infl iid tgs reg = (res, reg')" and "k \<noteq> rid"
  shows "get_runner k reg' = get_runner k reg"
  using assms(1) by (cases rule: register_cases)
    (use assms(2) in \<open>auto simp: get_runner_def update_conv delete_conv\<close>)

lemma fenced_poll:
  assumes f: "fenced rid winner loser reg"
    and p: "register_or_update now rid caps mx infl iid tgs reg = (res, reg')"
    and iid: "iid \<in> {None, Some winner, Some loser}"
  shows "fenced rid winner loser reg'" and "iid = Some loser \<Longrightarrow> res = Inl winner"
    and "iid \<noteq> Some loser \<Longrightarrow> res = Inr Updated"
proof -
  from f obtain r where r: "get_runner rid reg = Some r" "instance_id r = Some winner"
    "deposed_instance_id r = Some loser" "winner \<noteq> loser" by (auto simp: fenced_def)
  from p have "fenced rid winner loser reg' \<and> (iid = Some loser \<longrightarrow> res = Inl winner) \<and>
      (iid \<noteq> Some loser \<longrightarrow> res = Inr Updated)"
  proof (cases rule: register_cases)
    case (takeover r' new old)
    have "instance_guard iid (get_runner rid reg) = (if iid = Some loser then Inl winner else Inr None)"
      using r iid by (auto simp: instance_guard_def)
    with takeover p r iid show ?thesis by (auto simp: register_or_update_def Let_def split: if_splits)
  next
    case (update r')
    with r iid show ?thesis
      by (auto simp: fenced_def get_runner_def update_conv instance_guard_def split: if_splits)
  qed (use r f iid in auto)
  then show "fenced rid winner loser reg'" and "iid = Some loser \<Longrightarrow> res = Inl winner"
    and "iid \<noteq> Some loser \<Longrightarrow> res = Inr Updated" by auto
qed

lemma takeover_fences:
  assumes "register_or_update now rid caps mx infl (Some new) tgs reg = (Inr (TookOver old), reg')"
  shows "fenced rid new old reg'"
  using assms by (cases rule: register_cases) (auto simp: fenced_def get_runner_def update_conv)

lemma fenced_other:
  assumes "fenced rid w l reg" and "register_or_update now k caps mx infl iid tgs reg = (res, reg')"
    and "k \<noteq> rid"
  shows "fenced rid w l reg'"
  using assms get_runner_register_other [OF assms(2), of rid] by (auto simp: fenced_def)

lemma fenced_run:
  assumes "fenced rid winner loser reg" and "run_polls ps reg = (rs, reg')"
    and "\<forall>(t, p) \<in> set ps. pr_runner_id p = rid \<longrightarrow>
           pr_instance_id p \<in> {None, Some winner, Some loser}"
  shows "fenced rid winner loser reg' \<and>
    list_all2 (\<lambda>(t, p) res. pr_runner_id p = rid \<longrightarrow>
      res = (if pr_instance_id p = Some loser then Inl winner else Inr Updated)) ps rs"
  using assms
proof (induction ps arbitrary: reg rs)
  case (Cons a ps)
  obtain t p where a: "a = (t, p)" by (cases a)
  obtain res reg1 where r1: "register_poll t p reg = (res, reg1)" by (cases "register_poll t p reg")
  obtain rs' where rs: "run_polls ps reg1 = (rs', reg')" "rs = res # rs'"
    using Cons.prems(2) a r1 by (auto split: prod.splits)
  have r1': "register_or_update t (pr_runner_id p) (pr_capabilities p) (pr_max_inflight p)
      (pr_inflight p) (pr_instance_id p) (pr_tags p) reg = (res, reg1)"
    using r1 by (simp add: register_poll_def)
  show ?case
  proof (cases "pr_runner_id p = rid")
    case True
    with Cons.prems(3) a have iid: "pr_instance_id p \<in> {None, Some winner, Some loser}" by auto
    note fp = fenced_poll [OF Cons.prems(1) r1' [unfolded True] iid]
    from Cons.IH [OF fp(1) rs(1)] Cons.prems(3) fp(2,3) a rs(2) show ?thesis by auto
  next
    case False
    from Cons.IH [OF fenced_other [OF Cons.prems(1) r1' False] rs(1)] Cons.prems(3) a rs(2) False
    show ?thesis by auto
  qed
qed simp

subsection \<open>Lemmas: flapping\<close>

lemma record_takeover_signal:
  assumes "record_takeover k t reg = (b, reg')"
  shows "b \<Longrightarrow> last_flap_signal reg' = (last_flap_signal reg)(k \<mapsto> t)"
    and "\<not> b \<Longrightarrow> last_flap_signal reg' = last_flap_signal reg"
    and "b \<Longrightarrow> last_flap_signal reg k = Some l \<Longrightarrow> l + seconds FLAP_WINDOW_SECS < t"
  using assms by (auto simp: record_takeover_def Let_def split: if_splits option.splits)

lemma flap_signals_after:
  "last_flap_signal reg rid = Some l \<Longrightarrow>
     \<forall>s \<in> set (flap_signals rid es reg). l + seconds FLAP_WINDOW_SECS < s"
proof (induction es arbitrary: reg l)
  case (Cons e es)
  obtain k t where e: "e = (k, t)" by (cases e)
  obtain b reg' where r: "record_takeover k t reg = (b, reg')" by (cases "record_takeover k t reg")
  note sig = record_takeover_signal [OF r]
  show ?case
  proof (cases "b \<and> k = rid")
    case True
    then have lt: "l + seconds FLAP_WINDOW_SECS < t" using sig(3) Cons.prems by auto
    have "last_flap_signal reg' rid = Some t" using sig(1) True by simp
    from Cons.IH [OF this] lt have "\<forall>s \<in> set (flap_signals rid es reg'). l + seconds FLAP_WINDOW_SECS < s"
      by (fastforce simp: seconds_def FLAP_WINDOW_SECS_def nanos_def)
    with True lt e r show ?thesis by simp
  next
    case False
    then have "last_flap_signal reg' rid = Some l"
      using sig(1,2) Cons.prems by (cases b) auto
    from Cons.IH [OF this] False e r show ?thesis by auto
  qed
qed simp

subsection \<open>Lemmas: the router\<close>

lemma max_by_key_None [simp]: "max_by_key f xs = None \<longleftrightarrow> xs = []"
  by (cases xs) (auto split: option.splits)

lemma max_by_key_Some:
  "max_by_key f xs = Some y \<Longrightarrow> y \<in> set xs \<and> (\<forall>x \<in> set xs. f x \<le> f y)"
proof (induction xs arbitrary: y)
  case (Cons x xs)
  show ?case
  proof (cases "max_by_key f xs")
    case None
    with Cons.prems show ?thesis by auto
  next
    case (Some z)
    with Cons.prems Cons.IH [OF Some] show ?thesis by (fastforce split: if_splits)
  qed
qed simp

subsection \<open>The interface of a claim ledger\<close>

text \<open>
  What the poll and completion handlers rely on: the executions booked on each runner, with a claim
  that appends one, a release that removes one, and no effect on any other runner.
\<close>

locale claim_ledger =
  fixes load_of :: "'k \<Rightarrow> 's \<Rightarrow> 'e list option"
    and book :: "'k \<Rightarrow> 'e \<Rightarrow> 's \<Rightarrow> bool \<times> 's" and unbook :: "'k \<Rightarrow> 'e \<Rightarrow> 's \<Rightarrow> bool \<times> 's"
  assumes book_known: "load_of k s = Some xs \<Longrightarrow> book k e s = (b, s') \<Longrightarrow>
      b \<and> load_of k s' = Some (xs @ [e])"
    and book_unknown: "load_of k s = None \<Longrightarrow> book k e s = (False, s)"
    and book_frame: "book k e s = (b, s') \<Longrightarrow> k' \<noteq> k \<Longrightarrow> load_of k' s' = load_of k' s"
    and unbook_known: "load_of k s = Some xs \<Longrightarrow> unbook k e s = (b, s') \<Longrightarrow>
      (b \<longleftrightarrow> e \<in> set xs) \<and> load_of k s' = Some (filter (\<lambda>x. x \<noteq> e) xs)"
    and unbook_unknown: "load_of k s = None \<Longrightarrow> unbook k e s = (False, s)"
begin

fun book_all :: "'k \<Rightarrow> ('w \<Rightarrow> 'e) \<Rightarrow> 'w list \<Rightarrow> 's \<Rightarrow> 'w list \<times> 's" where
  "book_all k f [] s = ([], s)"
| "book_all k f (w # ws) s =
     (case book k (f w) s of (b, s1) \<Rightarrow>
        (case book_all k f ws s1 of (kept, s2) \<Rightarrow> (if b then w # kept else kept, s2)))"

lemma book_all_known:
  "load_of k s = Some xs \<Longrightarrow> book_all k f ws s = (kept, s') \<Longrightarrow>
     kept = ws \<and> load_of k s' = Some (xs @ map f ws)"
proof (induction ws arbitrary: s xs kept)
  case (Cons w ws)
  obtain b s1 where b: "book k (f w) s = (b, s1)" by (cases "book k (f w) s")
  obtain kept1 where k1: "book_all k f ws s1 = (kept1, s')"
    using Cons.prems(2) b by (auto split: prod.splits)
  from book_known [OF Cons.prems(1) b] have b1: b "load_of k s1 = Some (xs @ [f w])" by auto
  from Cons.IH [OF b1(2) k1] Cons.prems(2) b k1 b1(1) show ?case by auto
qed simp

lemma book_all_unknown: "load_of k s = None \<Longrightarrow> book_all k f ws s = ([], s)"
  by (induction ws) (simp_all add: book_unknown)

lemma unbook_book:
  assumes "load_of k s = Some xs" and "e \<notin> set xs" and "book k e s = (b, s1)"
    and "unbook k e s1 = (c, s2)"
  shows "c \<and> load_of k s2 = Some xs"
proof -
  from book_known [OF assms(1,3)] have "load_of k s1 = Some (xs @ [e])" by simp
  from unbook_known [OF this assms(4)] assms(2) show ?thesis by (auto simp: filter_id_conv)
qed

end

definition load_of_runner :: "string \<Rightarrow> RunnerRegistry \<Rightarrow> string list option" where
  "load_of_runner rid reg = map_option inflight (get_runner rid reg)"

lemma length_filter_neq: "length (filter (\<lambda>x. x \<noteq> e) xs) < length xs \<longleftrightarrow> e \<in> set xs"
proof
  assume lt: "length (filter (\<lambda>x. x \<noteq> e) xs) < length xs"
  show "e \<in> set xs"
  proof (rule ccontr)
    assume "e \<notin> set xs"
    then have "filter (\<lambda>x. x \<noteq> e) xs = xs" by (auto intro: filter_True)
    with lt show False by simp
  qed
qed (auto intro: length_filter_less)

interpretation ledger: claim_ledger load_of_runner claim release
proof (unfold_locales, goal_cases)
  case (1 k s xs e b s')
  then show ?case by (auto simp: load_of_runner_def claim_def split: option.splits)
next
  case (2 k s e)
  then show ?case by (simp add: load_of_runner_def claim_def)
next
  case (3 k e s b s' k')
  then show ?case by (auto simp: load_of_runner_def claim_def split: option.splits)
next
  case (4 k s xs e b s')
  then show ?case
    by (auto simp: load_of_runner_def release_def Let_def length_filter_neq split: option.splits)
next
  case (5 k s e)
  then show ?case by (simp add: load_of_runner_def release_def)
qed

subsection \<open>Properties\<close>


definition sample_poll :: "string \<Rightarrow> PollRequest" where
  "sample_poll i = \<lparr>pr_runner_id = ''r'', pr_capabilities = [], pr_max_inflight = 1,
     pr_inflight = [], pr_instance_id = Some i, pr_tags = []\<rparr>"


text \<open>C11: In every reachable registry the keys are unique and name their runner, and no runner is held
  by the very instance its entry fences off.\<close>

theorem registry_holder_not_fenced:
  assumes "registry_reachable reg" and "get_runner rid reg = Some r"
  shows "distinct (map fst (runners reg)) \<and> runner_id r = rid \<and>
    (deposed_instance_id r = None \<or>
     (instance_id r \<noteq> None \<and> instance_id r \<noteq> deposed_instance_id r))"
proof -
  note inv = registry_reachable_inv [OF assms(1)]
  from registry_inv_get [OF inv assms(2)] have "runner_ok rid r" .
  with inv show ?thesis by (auto simp: registry_inv_def runner_ok_def split: option.splits)
qed

theorem registry_holder_not_fenced_witness:
  "runner_id (the (get_runner ''r'' (snd (register_or_update 0 ''r'' [] 1 [] (Some ''a'') [] new_registry))))
     = ''r''"
proof -
  let ?reg = "snd (register_or_update 0 ''r'' [] 1 [] (Some ''a'') [] new_registry)"
  have r: "registry_reachable ?reg"
    by (rule reach_reg [OF reach_empty]) (rule step_register [OF prod.collapse [symmetric]])
  obtain r where g: "get_runner ''r'' ?reg = Some r"
    by (simp add: register_or_update_def instance_guard_def get_runner_def new_registry_def Let_def)
  from registry_holder_not_fenced [OF r g] g show ?thesis by simp
qed

text \<open>Flapping is signalled at most once per window: whatever takeovers of whatever runners are
  recorded, any two signals raised for one runner id lie more than ten minutes apart.\<close>

theorem flap_signals_spaced:
  "sorted_wrt (\<lambda>s t. s + seconds FLAP_WINDOW_SECS < t) (flap_signals rid es reg)"
proof (induction es arbitrary: reg)
  case (Cons e es)
  obtain k t where e: "e = (k, t)" by (cases e)
  obtain b reg' where r: "record_takeover k t reg = (b, reg')" by (cases "record_takeover k t reg")
  show ?case
  proof (cases "b \<and> k = rid")
    case True
    then have "last_flap_signal reg' rid = Some t" using record_takeover_signal(1) [OF r] by simp
    from flap_signals_after [OF this] Cons.IH True e r show ?thesis by simp
  qed (use Cons.IH e r in auto)
qed simp

text \<open>Liveness only decays between polls: as time passes a runner that has not polled moves from
  online to stale to dead and never back.\<close>

theorem status_decays:
  assumes "now \<le> later"
  shows "(status_at_with_ttl r later ttl = Online \<longrightarrow> status_at_with_ttl r now ttl = Online) \<and>
         (status_at_with_ttl r now ttl = Dead \<longrightarrow> status_at_with_ttl r later ttl = Dead)"
proof -
  have "num_seconds (now - last_poll_at r) \<le> num_seconds (later - last_poll_at r)"
    using assms by (intro num_seconds_mono) simp
  then show ?thesis by (auto simp: status_at_with_ttl_def Let_def split: if_splits)
qed

theorem status_decays_witness:
  "status_at_with_ttl (new_runner ''r'' [] 1 0) (seconds 500) 120 = Dead"
proof -
  have "status_at_with_ttl (new_runner ''r'' [] 1 0) (seconds 120) 120 = Dead"
    by (simp add: status_at_with_ttl_def new_runner_def)
  then show ?thesis
    using status_decays [of "seconds 120" "seconds 500" "new_runner ''r'' [] 1 0" 120]
    by (simp add: seconds_def nanos_def)
qed



end
