(* ===== verification/Runner_Api.thy ===== *)
theory Runner_Api
  imports Registry
begin

text \<open>
  The shared state of the pull API and its handlers, \<^verbatim>\<open>croniq-runner/src/api.rs\<close>, with the wire types of
  \<^verbatim>\<open>types.rs\<close> they use. Each method of the state locks one field, so each is one atomic step on the
  record; a handler is the composition of its steps. \<^verbatim>\<open>Notify::notify_waiters\<close> wakes sleeping polls and
  stores nothing, so it has no counterpart here. Timestamps are the argument \<open>now\<close>.
\<close>

subsection \<open>Data\<close>

record LeaseRenewal =
  lease_runner_id :: string
  renewed_at :: instant

record EphemeralTally =
  fired :: nat
  dispatched :: nat
  dropped :: nat
  superseded :: nat

record 'j AppState =
  registry :: RunnerRegistry
  queue :: "'j WorkQueue"
  lease_ttl_secs :: nat
  cancel_queues :: "string \<rightharpoonup> string list"
  ephemeral_inflight :: "string \<rightharpoonup> instant"
  lease_renewals :: "string \<rightharpoonup> LeaseRenewal"
  ephemeral_stats :: "string \<rightharpoonup> EphemeralTally"
  started_at :: instant
  restart_reconciled :: "string set"

record 'j WorkAssignment =
  wa_execution_id :: string
  wa_job_key :: string
  wa_fire_at :: instant
  wa_scheduled_for :: "instant option"
  wa_attempt :: u32
  wa_metadata :: 'j
  wa_timeout :: string

record 'j PollResponse =
  work :: "'j WorkAssignment list"
  cancel :: "string list"

datatype CompletionStatus = CS_Success | CS_Failure | CS_Cancelled

record CompleteRequest =
  cr_runner_id :: string
  cr_execution_id :: string
  cr_status :: CompletionStatus
  cr_error :: "string option"
  cr_duration_ms :: nat
  cr_attempt :: u32

record HealthMaintenance =
  active :: bool
  since :: "instant option"

record HealthResponse =
  health_status :: string
  runners_online :: nat
  runners_stale :: nat
  runners_dead :: nat
  queued :: nat
  running :: nat
  maintenance :: HealthMaintenance

definition assignment_of :: "'j WorkItem \<Rightarrow> 'j WorkAssignment" where
  "assignment_of w =
     \<lparr>wa_execution_id = execution_id w, wa_job_key = job_key w, wa_fire_at = fire_at w,
      wa_scheduled_for = Some (scheduled_for w), wa_attempt = wi_attempt w,
      wa_metadata = metadata w, wa_timeout = wi_timeout w\<rparr>"

definition with_lease_ttl :: "instant \<Rightarrow> nat \<Rightarrow> 'j AppState" where
  "with_lease_ttl now ttl =
     \<lparr>registry = new_registry, queue = new_queue, lease_ttl_secs = ttl,
      cancel_queues = Map.empty, ephemeral_inflight = Map.empty, lease_renewals = Map.empty,
      ephemeral_stats = Map.empty, started_at = now, restart_reconciled = {}\<rparr>"

definition new_state :: "instant \<Rightarrow> 'j AppState" where
  "new_state now =
     \<lparr>registry = new_registry, queue = new_queue, lease_ttl_secs = 120,
      cancel_queues = Map.empty, ephemeral_inflight = Map.empty, lease_renewals = Map.empty,
      ephemeral_stats = Map.empty, started_at = now, restart_reconciled = {}\<rparr>"

subsection \<open>Cancels\<close>

definition push_cancel :: "string \<Rightarrow> string \<Rightarrow> 'j AppState \<Rightarrow> 'j AppState" where
  "push_cancel rid eid s =
     (let entry = (case cancel_queues s rid of None \<Rightarrow> [] | Some c \<Rightarrow> c);
          entry' = (if list_ex (\<lambda>i. i = eid) entry then entry else entry @ [eid])
      in s\<lparr>cancel_queues := (cancel_queues s)(rid \<mapsto> entry')\<rparr>)"

definition drain_cancels :: "string \<Rightarrow> 'j AppState \<Rightarrow> string list \<times> 'j AppState" where
  "drain_cancels rid s =
     ((case cancel_queues s rid of None \<Rightarrow> [] | Some c \<Rightarrow> c),
      s\<lparr>cancel_queues := (cancel_queues s)(rid := None)\<rparr>)"

subsection \<open>Ephemeral executions\<close>

definition retain :: "('v \<Rightarrow> bool) \<Rightarrow> ('k \<rightharpoonup> 'v) \<Rightarrow> ('k \<rightharpoonup> 'v)" where
  "retain P m k = (case m k of None \<Rightarrow> None | Some v \<Rightarrow> if P v then Some v else None)"

definition record_ephemeral :: "string \<Rightarrow> instant \<Rightarrow> int \<Rightarrow> 'j AppState \<Rightarrow> 'j AppState" where
  "record_ephemeral eid now max_age s =
     s\<lparr>ephemeral_inflight :=
         (retain (\<lambda>dispatched_at. now - dispatched_at < max_age) (ephemeral_inflight s))(eid \<mapsto> now)\<rparr>"

definition take_ephemeral :: "string \<Rightarrow> 'j AppState \<Rightarrow> bool \<times> 'j AppState" where
  "take_ephemeral eid s =
     (ephemeral_inflight s eid \<noteq> None,
      s\<lparr>ephemeral_inflight := (ephemeral_inflight s)(eid := None)\<rparr>)"

definition forget_ephemeral :: "string list \<Rightarrow> 'j AppState \<Rightarrow> 'j AppState" where
  "forget_ephemeral eids s =
     (if eids = [] then s
      else s\<lparr>ephemeral_inflight := foldl (\<lambda>m i. m(i := None)) (ephemeral_inflight s) eids\<rparr>)"

definition zero_tally :: EphemeralTally where
  "zero_tally = \<lparr>fired = 0, dispatched = 0, dropped = 0, superseded = 0\<rparr>"

definition bump_ephemeral ::
  "string \<Rightarrow> nat \<Rightarrow> (EphemeralTally \<Rightarrow> nat \<Rightarrow> EphemeralTally) \<Rightarrow> 'j AppState \<Rightarrow> 'j AppState" where
  "bump_ephemeral k n add s =
     (if n = 0 then s
      else
        let t = (case ephemeral_stats s k of None \<Rightarrow> zero_tally | Some t \<Rightarrow> t)
        in s\<lparr>ephemeral_stats := (ephemeral_stats s)(k \<mapsto> add t n)\<rparr>)"

definition record_ephemeral_fired :: "string \<Rightarrow> nat \<Rightarrow> 'j AppState \<Rightarrow> 'j AppState" where
  "record_ephemeral_fired k n = bump_ephemeral k n (\<lambda>t n. t\<lparr>fired := fired t + n\<rparr>)"

definition record_ephemeral_dispatched :: "string \<Rightarrow> nat \<Rightarrow> 'j AppState \<Rightarrow> 'j AppState" where
  "record_ephemeral_dispatched k n = bump_ephemeral k n (\<lambda>t n. t\<lparr>dispatched := dispatched t + n\<rparr>)"

definition record_ephemeral_dropped :: "string \<Rightarrow> nat \<Rightarrow> 'j AppState \<Rightarrow> 'j AppState" where
  "record_ephemeral_dropped k n = bump_ephemeral k n (\<lambda>t n. t\<lparr>dropped := dropped t + n\<rparr>)"

definition record_ephemeral_superseded :: "string \<Rightarrow> nat \<Rightarrow> 'j AppState \<Rightarrow> 'j AppState" where
  "record_ephemeral_superseded k n = bump_ephemeral k n (\<lambda>t n. t\<lparr>superseded := superseded t + n\<rparr>)"

definition take_ephemeral_stats :: "'j AppState \<Rightarrow> (string \<rightharpoonup> EphemeralTally) \<times> 'j AppState" where
  "take_ephemeral_stats s = (ephemeral_stats s, s\<lparr>ephemeral_stats := Map.empty\<rparr>)"

subsection \<open>Leases\<close>

definition lease_grace_secs :: "'j AppState \<Rightarrow> nat" where
  "lease_grace_secs s = max (2 * lease_ttl_secs s) 120"

definition touch_leases :: "string \<Rightarrow> string list \<Rightarrow> instant \<Rightarrow> 'j AppState \<Rightarrow> 'j AppState" where
  "touch_leases rid eids now s =
     (if eids = [] then s
      else
        let grace = seconds (int (lease_grace_secs s));
            kept = retain (\<lambda>l. now - renewed_at l < grace) (lease_renewals s)
        in s\<lparr>lease_renewals :=
               foldl (\<lambda>m i. m(i \<mapsto> \<lparr>lease_runner_id = rid, renewed_at = now\<rparr>)) kept eids\<rparr>)"

definition clear_lease :: "string \<Rightarrow> string \<Rightarrow> 'j AppState \<Rightarrow> 'j AppState" where
  "clear_lease rid eid s =
     (if (case lease_renewals s eid of None \<Rightarrow> False | Some l \<Rightarrow> lease_runner_id l = rid)
      then s\<lparr>lease_renewals := (lease_renewals s)(eid := None)\<rparr>
      else s)"

subsection \<open>Handlers\<close>

fun claim_items ::
  "string \<Rightarrow> 'j WorkItem list \<Rightarrow> RunnerRegistry \<Rightarrow> 'j WorkItem list \<times> RunnerRegistry" where
  "claim_items rid [] reg = ([], reg)"
| "claim_items rid (w # ws) reg =
     (case claim rid (execution_id w) reg of (ok, reg1) \<Rightarrow>
        (case claim_items rid ws reg1 of (kept, reg2) \<Rightarrow> (if ok then w # kept else kept, reg2)))"

definition handle_poll ::
  "('j \<Rightarrow> string \<Rightarrow> string option) \<Rightarrow> instant \<Rightarrow> PollRequest \<Rightarrow> 'j AppState \<Rightarrow>
   'j PollResponse \<times> 'j AppState" where
  "handle_poll get_str now req s =
     (let s1 = s\<lparr>registry := snd (register_poll now req (registry s))\<rparr>;
          capacity = pr_max_inflight req - length (pr_inflight req);
          (ws, s2) =
            (if capacity > 0 then
               (case dequeue_many_for get_str now (pr_capabilities req) capacity (queue s1) of
                  (its, q') \<Rightarrow>
                    (case claim_items (pr_runner_id req) its (registry s1) of
                       (kept, reg') \<Rightarrow>
                         (map assignment_of kept, s1\<lparr>queue := q', registry := reg'\<rparr>)))
             else ([], s1));
          (cs, s3) = drain_cancels (pr_runner_id req) s2
      in (\<lparr>work = ws, cancel = cs\<rparr>, s3))"

definition handle_complete :: "CompleteRequest \<Rightarrow> 'j AppState \<Rightarrow> bool \<times> 'j AppState" where
  "handle_complete req s =
     (True, s\<lparr>registry := snd (release (cr_runner_id req) (cr_execution_id req) (registry s))\<rparr>)"

definition handle_health :: "instant \<Rightarrow> 'j AppState \<Rightarrow> HealthResponse" where
  "handle_health now s =
     \<lparr>health_status = ''ok'',
      runners_online = length (by_status_with_ttl Online now (lease_ttl_secs s) (registry s)),
      runners_stale = length (by_status_with_ttl Stale now (lease_ttl_secs s) (registry s)),
      runners_dead = length (by_status_with_ttl Dead now (lease_ttl_secs s) (registry s)),
      queued = queue_len (queue s),
      running = total_inflight (registry s),
      maintenance = \<lparr>active = False, since = None\<rparr>\<rparr>"

subsection \<open>Specification: traces of the cancel queue, the leases and the tallies\<close>

datatype cancel_op = Push_Cancel string string | Drain_Cancels string

fun run_cancel_op :: "cancel_op \<Rightarrow> 'j AppState \<Rightarrow> 'j AppState" where
  "run_cancel_op (Push_Cancel rid eid) s = push_cancel rid eid s"
| "run_cancel_op (Drain_Cancels rid) s = snd (drain_cancels rid s)"

text \<open>The ids pushed for a runner since its queue was last drained, in order.\<close>

fun pushed_since :: "string \<Rightarrow> cancel_op \<Rightarrow> string list \<Rightarrow> string list" where
  "pushed_since rid (Push_Cancel r eid) acc = (if r = rid then acc @ [eid] else acc)"
| "pushed_since rid (Drain_Cancels r) acc = (if r = rid then [] else acc)"

definition keep_first :: "'a list \<Rightarrow> 'a list" where
  "keep_first xs = rev (remdups (rev xs))"

datatype lease_op = Touch string "string list" instant | Clear string string

fun run_lease_op :: "lease_op \<Rightarrow> 'j AppState \<Rightarrow> 'j AppState" where
  "run_lease_op (Touch rid eids now) s = touch_leases rid eids now s"
| "run_lease_op (Clear rid eid) s = clear_lease rid eid s"

datatype tally_op =
    Fired string nat | Dispatched string nat | Dropped_Fires string nat | Superseded string nat
  | Heartbeat

fun run_tally_op ::
  "tally_op \<Rightarrow> (string \<rightharpoonup> EphemeralTally) list \<times> 'j AppState \<Rightarrow>
   (string \<rightharpoonup> EphemeralTally) list \<times> 'j AppState" where
  "run_tally_op (Fired k n) (hs, s) = (hs, record_ephemeral_fired k n s)"
| "run_tally_op (Dispatched k n) (hs, s) = (hs, record_ephemeral_dispatched k n s)"
| "run_tally_op (Dropped_Fires k n) (hs, s) = (hs, record_ephemeral_dropped k n s)"
| "run_tally_op (Superseded k n) (hs, s) = (hs, record_ephemeral_superseded k n s)"
| "run_tally_op Heartbeat (hs, s) =
     (let (h, s') = take_ephemeral_stats s in (hs @ [h], s'))"

definition tally_of :: "(string \<rightharpoonup> EphemeralTally) \<Rightarrow> string \<Rightarrow> EphemeralTally" where
  "tally_of m k = (case m k of None \<Rightarrow> zero_tally | Some t \<Rightarrow> t)"

fun tally_in :: "string \<Rightarrow> tally_op \<Rightarrow> EphemeralTally" where
  "tally_in k (Fired k' n) = (if k = k' then zero_tally\<lparr>fired := n\<rparr> else zero_tally)"
| "tally_in k (Dispatched k' n) = (if k = k' then zero_tally\<lparr>dispatched := n\<rparr> else zero_tally)"
| "tally_in k (Dropped_Fires k' n) = (if k = k' then zero_tally\<lparr>dropped := n\<rparr> else zero_tally)"
| "tally_in k (Superseded k' n) = (if k = k' then zero_tally\<lparr>superseded := n\<rparr> else zero_tally)"
| "tally_in k Heartbeat = zero_tally"

subsection \<open>Lemmas: cancels\<close>

lemma keep_first_Nil [simp]: "keep_first [] = []"
  by (simp add: keep_first_def)

lemma keep_first_snoc:
  "keep_first (xs @ [x]) = (if x \<in> set xs then keep_first xs else keep_first xs @ [x])"
proof -
  have "remdups (x # ys) = (if x \<in> set ys then remdups ys else x # remdups ys)" for ys
    by simp
  then show ?thesis
    by (simp add: keep_first_def)
qed

lemma set_keep_first [simp]: "set (keep_first xs) = set xs"
  by (simp add: keep_first_def)

lemma distinct_keep_first [simp]: "distinct (keep_first xs)"
  by (simp add: keep_first_def)

abbreviation pending :: "string \<Rightarrow> 'j AppState \<Rightarrow> string list" where
  "pending rid s \<equiv> fst (drain_cancels rid s)"

lemma pending_push_cancel:
  "pending r (push_cancel rid eid s) =
     (if r = rid \<and> eid \<notin> set (pending rid s) then pending rid s @ [eid] else pending r s)"
  by (auto simp: push_cancel_def drain_cancels_def Let_def list_ex_iff split: option.splits)

lemma pending_drain:
  "pending r (snd (drain_cancels rid s)) = (if r = rid then [] else pending r s)"
  by (simp add: drain_cancels_def)

lemma pending_step:
  assumes "pending rid s = keep_first acc"
  shows "pending rid (run_cancel_op c s) = keep_first (pushed_since rid c acc)"
  using assms by (cases c) (auto simp: pending_push_cancel pending_drain keep_first_snoc)

lemma pending_run:
  "pending rid s = keep_first acc \<Longrightarrow>
     pending rid (fold run_cancel_op cs s) = keep_first (fold (pushed_since rid) cs acc)"
  by (induction cs arbitrary: s acc) (simp_all add: pending_step)

subsection \<open>Lemmas: leases\<close>

lemma foldl_upd_const:
  "foldl (\<lambda>m i. m(i \<mapsto> v)) m xs k = (if k \<in> set xs then Some v else m k)"
  by (induction xs arbitrary: m) auto

lemma touch_lookup:
  assumes "eids \<noteq> []"
  shows "lease_renewals (touch_leases rid eids now s) e =
    (if e \<in> set eids then Some \<lparr>lease_runner_id = rid, renewed_at = now\<rparr>
     else retain (\<lambda>l. now - renewed_at l < seconds (int (lease_grace_secs s))) (lease_renewals s) e)"
  using assms by (simp add: touch_leases_def Let_def foldl_upd_const)

lemma touch_origin:
  "lease_renewals (touch_leases rid eids now s) e = Some l \<Longrightarrow>
     (e \<in> set eids \<and> l = \<lparr>lease_runner_id = rid, renewed_at = now\<rparr>) \<or> lease_renewals s e = Some l"
  by (cases "eids = []") (auto simp: touch_leases_def foldl_upd_const retain_def split: if_splits option.splits)

text \<open>Operations after which the lease of \<open>e\<close> held by \<open>rid\<close> can still stand.\<close>

fun leaves_lease :: "string \<Rightarrow> string \<Rightarrow> lease_op \<Rightarrow> bool" where
  "leaves_lease rid e (Touch r eids now) \<longleftrightarrow> e \<notin> set eids"
| "leaves_lease rid e (Clear r x) \<longleftrightarrow> \<not> (r = rid \<and> x = e)"

lemma clear_lookup:
  "lease_renewals (clear_lease rid eid s) e = Some l \<longleftrightarrow>
     lease_renewals s e = Some l \<and> \<not> (rid = lease_runner_id l \<and> eid = e)"
  by (auto simp: clear_lease_def split: option.splits)

lemma lease_step:
  assumes "lease_renewals (run_lease_op c s) e = Some l"
  shows "(lease_renewals s e = Some l \<and> leaves_lease (lease_runner_id l) e c) \<or>
    (\<exists>eids. c = Touch (lease_runner_id l) eids (renewed_at l) \<and> e \<in> set eids)"
proof (cases c)
  case (Touch r eids now)
  then show ?thesis
    using assms touch_origin [of r eids now s e l] by (cases "eids = []") (auto simp: touch_lookup)
qed (use assms in \<open>auto simp: clear_lookup\<close>)

lemma lease_last_touch:
  assumes "lease_renewals s e = None"
  shows "lease_renewals (fold run_lease_op cs s) e = Some l \<Longrightarrow>
    \<exists>pre eids post. cs = pre @ Touch (lease_runner_id l) eids (renewed_at l) # post \<and>
      e \<in> set eids \<and> list_all (leaves_lease (lease_runner_id l) e) post"
proof (induction cs rule: rev_induct)
  case Nil
  then show ?case using assms by simp
next
  case (snoc c cs)
  from snoc.prems have "lease_renewals (run_lease_op c (fold run_lease_op cs s)) e = Some l" by simp
  from lease_step [OF this] show ?case
  proof (elim disjE conjE exE)
    assume l: "lease_renewals (fold run_lease_op cs s) e = Some l"
      and c: "leaves_lease (lease_runner_id l) e c"
    from snoc.IH [OF l] obtain pre eids post where
      "cs = pre @ Touch (lease_runner_id l) eids (renewed_at l) # post" "e \<in> set eids"
      "list_all (leaves_lease (lease_runner_id l) e) post" by blast
    with c show ?thesis by (intro exI [of _ pre] exI [of _ eids] exI [of _ "post @ [c]"]) simp
  next
    fix eids
    assume "c = Touch (lease_runner_id l) eids (renewed_at l)" "e \<in> set eids"
    then show ?thesis by (intro exI [of _ cs] exI [of _ eids] exI [of _ "[]"]) simp
  qed
qed

subsection \<open>Lemmas: tallies\<close>

lemma tally_bump:
  "tally_of (ephemeral_stats (bump_ephemeral k n add s)) k' =
     (if n \<noteq> 0 \<and> k' = k then add (tally_of (ephemeral_stats s) k) n
      else tally_of (ephemeral_stats s) k')"
  by (simp add: bump_ephemeral_def tally_of_def Let_def)

lemmas tally_defs = record_ephemeral_fired_def record_ephemeral_dispatched_def
  record_ephemeral_dropped_def record_ephemeral_superseded_def tally_bump

text \<open>What the heartbeats have reported and what is still counted, together.\<close>

definition tally_plus :: "EphemeralTally \<Rightarrow> EphemeralTally \<Rightarrow> EphemeralTally" where
  "tally_plus a b = \<lparr>fired = fired a + fired b, dispatched = dispatched a + dispatched b,
     dropped = dropped a + dropped b, superseded = superseded a + superseded b\<rparr>"

definition counted :: "string \<Rightarrow> (string \<rightharpoonup> EphemeralTally) list \<times> 'j AppState \<Rightarrow> EphemeralTally" where
  "counted k hs =
     foldr (\<lambda>h. tally_plus (tally_of h k)) (fst hs) (tally_of (ephemeral_stats (snd hs)) k)"

lemma tally_plus_zero [simp]: "tally_plus t zero_tally = t" "tally_plus zero_tally t = t"
  by (simp_all add: tally_plus_def zero_tally_def)

lemma tally_plus_assoc: "tally_plus (tally_plus a b) c = tally_plus a (tally_plus b c)"
  by (simp add: tally_plus_def)

lemma foldr_tally_plus:
  "foldr (\<lambda>h. tally_plus (f h)) hs (tally_plus a b) = tally_plus (foldr (\<lambda>h. tally_plus (f h)) hs a) b"
  by (induction hs) (simp_all add: tally_plus_assoc)

lemma tally_add_simps:
  "t\<lparr>fired := fired t + n\<rparr> = tally_plus t (zero_tally\<lparr>fired := n\<rparr>)"
  "t\<lparr>dispatched := dispatched t + n\<rparr> = tally_plus t (zero_tally\<lparr>dispatched := n\<rparr>)"
  "t\<lparr>dropped := dropped t + n\<rparr> = tally_plus t (zero_tally\<lparr>dropped := n\<rparr>)"
  "t\<lparr>superseded := superseded t + n\<rparr> = tally_plus t (zero_tally\<lparr>superseded := n\<rparr>)"
  by (simp_all add: tally_plus_def zero_tally_def)

lemma zero_tally_upd [simp]:
  "zero_tally\<lparr>fired := 0\<rparr> = zero_tally" "zero_tally\<lparr>dispatched := 0\<rparr> = zero_tally"
  "zero_tally\<lparr>dropped := 0\<rparr> = zero_tally" "zero_tally\<lparr>superseded := 0\<rparr> = zero_tally"
  by (simp_all add: zero_tally_def)

lemma tally_record:
  "tally_of (ephemeral_stats (record_ephemeral_fired k' n s)) k =
     tally_plus (tally_of (ephemeral_stats s) k) (tally_in k (Fired k' n))"
  "tally_of (ephemeral_stats (record_ephemeral_dispatched k' n s)) k =
     tally_plus (tally_of (ephemeral_stats s) k) (tally_in k (Dispatched k' n))"
  "tally_of (ephemeral_stats (record_ephemeral_dropped k' n s)) k =
     tally_plus (tally_of (ephemeral_stats s) k) (tally_in k (Dropped_Fires k' n))"
  "tally_of (ephemeral_stats (record_ephemeral_superseded k' n s)) k =
     tally_plus (tally_of (ephemeral_stats s) k) (tally_in k (Superseded k' n))"
  by (simp_all add: tally_defs tally_add_simps)

lemma counted_step: "counted k (run_tally_op c hs) = tally_plus (counted k hs) (tally_in k c)"
proof (cases hs)
  case (Pair h s)
  have "tally_of Map.empty k = zero_tally" by (simp add: tally_of_def)
  then show ?thesis
    unfolding Pair by (cases c)
      (simp_all add: counted_def tally_record foldr_tally_plus take_ephemeral_stats_def del: tally_in.simps(1-4))
qed

lemma counted_run:
  "counted k (fold run_tally_op cs hs) = foldl tally_plus (counted k hs) (map (tally_in k) cs)"
  by (induction cs arbitrary: hs) (simp_all add: counted_step)

subsection \<open>Lemmas: handlers\<close>

lemma claim_items_book: "claim_items rid ws reg = ledger.book_all rid execution_id ws reg"
  by (induction ws arbitrary: reg) (auto split: prod.splits)

lemma register_poll_load:
  "load_of_runner (pr_runner_id req) (snd (register_poll now req reg)) =
     (case fst (register_poll now req reg) of
        Inr _ \<Rightarrow> Some (pr_inflight req)
      | Inl _ \<Rightarrow> load_of_runner (pr_runner_id req) reg)"
  by (simp add: register_poll_def register_or_update_def load_of_runner_def Let_def split: sum.splits)

lemma fenced_known:
  "fst (register_poll now req reg) = Inl old \<Longrightarrow> \<exists>xs. load_of_runner (pr_runner_id req) reg = Some xs"
  by (auto simp: register_poll_def register_or_update_def instance_guard_def load_of_runner_def Let_def
      split: sum.splits option.splits if_splits)

lemma register_poll_known:
  "\<exists>xs. load_of_runner (pr_runner_id req) (snd (register_poll now req reg)) = Some xs"
proof (cases "fst (register_poll now req reg)")
  case (Inl old)
  with fenced_known [OF Inl] show ?thesis by (simp add: register_poll_load)
qed (simp add: register_poll_load)

lemma handle_poll_effect:
  assumes "handle_poll get_str now req s = (resp, s')"
  shows "\<exists>ws q' xs.
    dequeue_many_for get_str now (pr_capabilities req)
      (pr_max_inflight req - length (pr_inflight req)) (queue s) = (ws, q') \<and>
    work resp = map assignment_of ws \<and> queue s' = q' \<and>
    load_of_runner (pr_runner_id req) (snd (register_poll now req (registry s))) = Some xs \<and>
    load_of_runner (pr_runner_id req) (registry s') = Some (xs @ map execution_id ws) \<and>
    cancel resp = pending (pr_runner_id req) s \<and> pending (pr_runner_id req) s' = []"
proof -
  let ?cap = "pr_max_inflight req - length (pr_inflight req)"
  let ?reg = "snd (register_poll now req (registry s))"
  obtain ws q' where d: "dequeue_many_for get_str now (pr_capabilities req) ?cap (queue s) = (ws, q')"
    by fastforce
  obtain kept reg' where c: "claim_items (pr_runner_id req) ws ?reg = (kept, reg')" by fastforce
  obtain xs where xs: "load_of_runner (pr_runner_id req) ?reg = Some xs"
    using register_poll_known by blast
  have k: "kept = ws" "load_of_runner (pr_runner_id req) reg' = Some (xs @ map execution_id ws)"
    using ledger.book_all_known [OF xs c [unfolded claim_items_book]] by auto
  show ?thesis
  proof (cases "?cap > 0")
    case True
    then show ?thesis
      using assms d c k xs by (auto simp: handle_poll_def drain_cancels_def Let_def)
  next
    case False
    then have "ws = []" "q' = queue s" using d by auto
    then show ?thesis
      using False assms d xs by (auto simp: handle_poll_def drain_cancels_def Let_def)
  qed
qed

lemma status_partition:
  "length (filter (\<lambda>r. f r = Online) xs) + length (filter (\<lambda>r. f r = Stale) xs)
     + length (filter (\<lambda>r. f r = Dead) xs) = length xs"
proof (induction xs)
  case (Cons x xs)
  then show ?case by (cases "f x") auto
qed simp

lemma dequeue_many_facts:
  assumes "queue_inv q" and "dequeue_many_for get_str now caps n q = (ws, q')"
  shows "length ws \<le> n" "\<forall>w \<in> set ws. can_run caps w" "mset (items q) = mset ws + mset (items q')"
    "queue_inv q'" "distinct (map execution_id ws)"
proof -
  from assms(2) have d: "wq.deq_upto get_str (now, caps, \<lambda>_. True) n q = (ws, q')"
    by (simp only: dequeue_many_for_upto)
  from wq.deq_upto_spec [OF assms(1) d] wq.deq_upto_disjoint [OF assms(1) d]
  show "length ws \<le> n" "\<forall>w \<in> set ws. can_run caps w" "mset (items q) = mset ws + mset (items q')"
    "distinct (map execution_id ws)" by simp_all
  from assms show "queue_inv q'" by (rule queue_inv_dequeue_many)
qed

fun complete_all :: "string \<Rightarrow> string list \<Rightarrow> RunnerRegistry \<Rightarrow> RunnerRegistry" where
  "complete_all rid [] reg = reg"
| "complete_all rid (e # es) reg = complete_all rid es (snd (release rid e reg))"

lemma complete_all_load:
  "load_of_runner rid reg = Some xs \<Longrightarrow>
     load_of_runner rid (complete_all rid es reg) = Some (filter (\<lambda>x. x \<notin> set es) xs)"
proof (induction es arbitrary: reg xs)
  case (Cons e es)
  from ledger.unbook_known [OF Cons.prems prod.collapse [symmetric]]
  have "load_of_runner rid (snd (release rid e reg)) = Some (filter (\<lambda>x. x \<noteq> e) xs)" by simp
  from Cons.IH [OF this] show ?case by (simp add: conj_commute)
qed simp

subsection \<open>Properties\<close>


definition sample_state :: "string AppState" where
  "sample_state = (new_state 0)\<lparr>queue := snd (enqueue (sample_item ''e'' '''' 0) new_queue)\<rparr>"

lemma sample_state_inv: "queue_inv (queue sample_state)"
  using queue_inv_enqueue [OF queue_inv_new prod.collapse [symmetric]]
  by (simp add: sample_state_def)


text \<open>Completing what a poll handed out gives the capacity back: after the acknowledgements of all
  its executions, in the order handed out, the runner's ledger is the one the poll reported.\<close>

theorem poll_complete_roundtrip:
  assumes "handle_poll get_str now req s = (resp, s')"
    and "fst (register_poll now req (registry s)) = Inr outcome"
    and "set (map wa_execution_id (work resp)) \<inter> set (pr_inflight req) = {}"
  shows "load_of_runner (pr_runner_id req)
      (registry (foldl (\<lambda>t w. snd (handle_complete \<lparr>cr_runner_id = pr_runner_id req,
         cr_execution_id = wa_execution_id w, cr_status = st w, cr_error = er w,
         cr_duration_ms = ms w, cr_attempt = wa_attempt w\<rparr> t)) s' (work resp)))
    = Some (pr_inflight req)"
proof -
  have fold_complete: "registry (foldl (\<lambda>t w. snd (handle_complete \<lparr>cr_runner_id = rid,
         cr_execution_id = wa_execution_id w, cr_status = st w, cr_error = er w,
         cr_duration_ms = ms w, cr_attempt = wa_attempt w\<rparr> t)) t ws)
      = complete_all rid (map wa_execution_id ws) (registry t)"
    for rid and t :: "'a AppState" and ws
    by (induction ws arbitrary: t) (simp_all add: handle_complete_def)
  from handle_poll_effect [OF assms(1)] obtain ws xs where w: "work resp = map assignment_of ws" and
    l: "load_of_runner (pr_runner_id req) (snd (register_poll now req (registry s))) = Some xs" and
    l': "load_of_runner (pr_runner_id req) (registry s') = Some (xs @ map execution_id ws)"
    by blast
  have ids: "map wa_execution_id (work resp) = map execution_id ws"
    by (simp add: w assignment_of_def)
  have "xs = pr_inflight req" using l assms(2) by (simp add: register_poll_load)
  moreover have "filter (\<lambda>x. x \<notin> set (map execution_id ws)) (pr_inflight req) = pr_inflight req"
    using assms(3) unfolding ids by (auto simp: filter_id_conv)
  moreover have "filter (\<lambda>x. x \<notin> set (map execution_id ws)) (map execution_id ws) = []"
    by (simp add: filter_empty_conv)
  ultimately show ?thesis
    by (simp only: fold_complete ids complete_all_load [OF l'] filter_append append_Nil2)
qed

theorem poll_complete_roundtrip_witness:
  "load_of_runner ''r'' (registry (foldl (\<lambda>t w. snd (handle_complete \<lparr>cr_runner_id = ''r'',
      cr_execution_id = wa_execution_id w, cr_status = CS_Success, cr_error = None,
      cr_duration_ms = 7, cr_attempt = wa_attempt w\<rparr> t))
     (snd (handle_poll (\<lambda>_ _. None) 5 (sample_poll ''i'') sample_state))
     (work (fst (handle_poll (\<lambda>_ _. None) 5 (sample_poll ''i'') sample_state))))) = Some []"
proof -
  have "fst (register_poll 5 (sample_poll ''i'') (registry sample_state)) = Inr New"
    by (simp add: sample_poll_def register_poll_def register_or_update_def instance_guard_def
        sample_state_def new_state_def new_registry_def get_runner_def Let_def)
  from poll_complete_roundtrip [OF prod.collapse [symmetric] this,
      of "\<lambda>_ _. None" "\<lambda>_. CS_Success" "\<lambda>_. None" "\<lambda>_. 7"]
  show ?thesis by (simp add: sample_poll_def)
qed

text \<open>C14: Cancels are delivered once: whatever sequence of cancel requests and polls has happened since
  the process started, the next drain of a runner's queue returns the ids requested for it since its
  previous drain, each once, in the order first requested, and leaves nothing behind.\<close>

theorem cancels_delivered_once:
  "fst (drain_cancels rid (fold run_cancel_op cs (with_lease_ttl t ttl)))
     = keep_first (fold (pushed_since rid) cs []) \<and>
   fst (drain_cancels rid (snd (drain_cancels rid (fold run_cancel_op cs (with_lease_ttl t ttl))))) = []"
proof -
  have "pending rid (with_lease_ttl t ttl) = keep_first []"
    by (simp add: drain_cancels_def with_lease_ttl_def)
  from pending_run [OF this] show ?thesis by (simp add: pending_drain)
qed




text \<open>The three runner counts of the health answer partition the registry.\<close>

theorem health_counts_partition:
  "runners_online (handle_health now s) + runners_stale (handle_health now s)
     + runners_dead (handle_health now s) = registry_len (registry s)"
proof -
  have "length (all_runners (registry s)) = registry_len (registry s)"
    by (simp add: all_runners_def registry_len_def)
  with status_partition [of "\<lambda>r. status_at_with_ttl r now (lease_ttl_secs s)" "all_runners (registry s)"]
  show ?thesis by (simp only: handle_health_def by_status_with_ttl_def HealthResponse.simps)
qed

text \<open>The poll handler of the runner crate discards the registry's verdict: a poll that the registry
  rejects as coming from a deposed instance still takes work from the queue, and the executions are
  booked on the entry of the instance that holds the identity.\<close>

theorem fenced_poll_still_takes_work:
  assumes "fst (register_poll now req (registry s)) = Inl holder"
    and "handle_poll get_str now req s = (resp, s')"
    and "load_of_runner (pr_runner_id req) (registry s) = Some xs"
  shows "load_of_runner (pr_runner_id req) (registry s') =
      Some (xs @ map wa_execution_id (work resp)) \<and>
    length (work resp) = length (fst (dequeue_many_for get_str now (pr_capabilities req)
      (pr_max_inflight req - length (pr_inflight req)) (queue s)))"
proof -
  from handle_poll_effect [OF assms(2)] obtain ws q' ys where
    d: "dequeue_many_for get_str now (pr_capabilities req)
          (pr_max_inflight req - length (pr_inflight req)) (queue s) = (ws, q')" and
    w: "work resp = map assignment_of ws" and
    l: "load_of_runner (pr_runner_id req) (snd (register_poll now req (registry s))) = Some ys" and
    l': "load_of_runner (pr_runner_id req) (registry s') = Some (ys @ map execution_id ws)"
    by blast
  have "ys = xs" using l assms(1,3) by (simp add: register_poll_load)
  moreover have "map wa_execution_id (work resp) = map execution_id ws"
    by (simp add: w assignment_of_def)
  ultimately show ?thesis using d l' w by simp
qed

definition deposed_state :: "string AppState" where
  "deposed_state = sample_state\<lparr>registry :=
     snd (register_poll 1 (sample_poll ''b'') (snd (register_poll 0 (sample_poll ''a'') new_registry)))\<rparr>"

lemmas deposed_simps = deposed_state_def sample_state_def new_state_def sample_poll_def enqueue_def
  new_queue_def new_registry_def register_poll_def register_or_update_def instance_guard_def
  get_runner_def load_of_runner_def

theorem fenced_poll_still_takes_work_witness:
  "fst (register_poll 2 (sample_poll ''a'') (registry deposed_state)) = Inl ''b'' \<and>
   length (work (fst (handle_poll (\<lambda>_ _. None) 2 (sample_poll ''a'') deposed_state))) = 1"
proof
  show fenced: "fst (register_poll 2 (sample_poll ''a'') (registry deposed_state)) = Inl ''b''"
    by (simp add: deposed_simps Let_def)
  have "load_of_runner (pr_runner_id (sample_poll ''a'')) (registry deposed_state) = Some []"
    by (simp add: deposed_simps Let_def)
  moreover have "length (fst (dequeue_many_for (\<lambda>_ _. None) 2 (pr_capabilities (sample_poll ''a''))
      (pr_max_inflight (sample_poll ''a'') - length (pr_inflight (sample_poll ''a'')))
      (queue deposed_state))) = 1"
    by (simp add: deposed_simps sample_simps)
  ultimately show "length (work (fst (handle_poll (\<lambda>_ _. None) 2 (sample_poll ''a'') deposed_state))) = 1"
    using fenced_poll_still_takes_work [OF fenced prod.collapse [symmetric], of "[]" "\<lambda>_ _. None"] by simp
qed

end
