(* ===== verification/Lexer.thy ===== *)
theory Lexer
  imports Prelude "HOL-Library.Char_ord"
begin

text \<open>
  The tokenizer of Croniqfile sources, \<^verbatim>\<open>croniq-config/src/lexer.rs\<close>. A source is the list of its
  UTF-8 bytes, one character per byte. A lexer state keeps the byte position and the bytes not yet read, which
  stand for the pair of the source slice and the position in the code. \<open>next_token\<close> returns the token or the
  error together with the new state; \<open>tokenize\<close> iterates it up to the end-of-input token.
\<close>

subsection \<open>Tokens\<close>

record Span =
  offset :: nat
  len :: nat

definition span_new :: "nat \<Rightarrow> nat \<Rightarrow> Span" where
  "span_new ofs n = \<lparr>offset = ofs, len = n\<rparr>"

definition span_empty :: "nat \<Rightarrow> Span" where
  "span_empty ofs = \<lparr>offset = ofs, len = 0\<rparr>"

definition span_merge :: "Span \<Rightarrow> Span \<Rightarrow> Span" where
  "span_merge a b =
     (let start = min (offset a) (offset b);
          fin = max (offset a + len a) (offset b + len b)
      in span_new start (fin - start))"

datatype TokenKind =
    Ident string
  | QuotedString string
  | Comment string
  | Placeholder string
  | LBrace
  | RBrace
  | Semicolon
  | DotDot
  | Newline
  | Eof

fun show_kind :: "TokenKind \<Rightarrow> string" where
  "show_kind (Ident s) = s"
| "show_kind (QuotedString s) = CHR 0x22 # s @ [CHR 0x22]"
| "show_kind (Comment s) = ''# '' @ s"
| "show_kind (Placeholder s) = ''{'' @ s @ ''}''"
| "show_kind LBrace = ''{''"
| "show_kind RBrace = ''}''"
| "show_kind Semicolon = '';''"
| "show_kind DotDot = ''..''"
| "show_kind Newline = ''<newline>''"
| "show_kind Eof = ''<eof>''"

record Token =
  kind :: TokenKind
  tspan :: Span

definition token_new :: "TokenKind \<Rightarrow> Span \<Rightarrow> Token" where
  "token_new k sp = \<lparr>kind = k, tspan = sp\<rparr>"

definition tok_text :: "Token \<Rightarrow> string" where
  "tok_text t =
     (case kind t of Ident s \<Rightarrow> s | QuotedString s \<Rightarrow> s | Placeholder s \<Rightarrow> s | _ \<Rightarrow> [])"

definition is_ident :: "string \<Rightarrow> Token \<Rightarrow> bool" where
  "is_ident name t = (case kind t of Ident s \<Rightarrow> s = name | _ \<Rightarrow> False)"

datatype LexError =
    UnterminatedString Span
  | UnterminatedPlaceholder Span
  | InvalidEscape char Span
  | UnexpectedChar string Span

subsection \<open>The lexer\<close>

record Lexer =
  lpos :: nat
  rest :: string

definition lexer_new :: "string \<Rightarrow> Lexer" where
  "lexer_new source = \<lparr>lpos = 0, rest = source\<rparr>"

definition lex_peek :: "Lexer \<Rightarrow> char option" where
  "lex_peek lx = (case rest lx of [] \<Rightarrow> None | b # _ \<Rightarrow> Some b)"

definition lex_peek_at :: "nat \<Rightarrow> Lexer \<Rightarrow> char option" where
  "lex_peek_at n lx = (if n < length (rest lx) then Some (rest lx ! n) else None)"

definition bump :: "nat \<Rightarrow> Lexer \<Rightarrow> Lexer" where
  "bump n lx = \<lparr>lpos = lpos lx + n, rest = drop n (rest lx)\<rparr>"

definition skip_while :: "(char \<Rightarrow> bool) \<Rightarrow> Lexer \<Rightarrow> Lexer" where
  "skip_while P lx = bump (length (takeWhile P (rest lx))) lx"

abbreviation NL :: char where
  "NL \<equiv> CHR 0x0A"

definition skip_spaces :: "Lexer \<Rightarrow> Lexer" where
  "skip_spaces = skip_while (\<lambda>b. b = CHR '' '' \<or> b = CHR 0x09 \<or> b = CHR 0x0D)"

definition is_ident_char :: "char \<Rightarrow> bool" where
  "is_ident_char b \<longleftrightarrow>
     (CHR ''a'' \<le> b \<and> b \<le> CHR ''z'') \<or> (CHR ''A'' \<le> b \<and> b \<le> CHR ''Z'') \<or> (CHR ''0'' \<le> b \<and> b \<le> CHR ''9'') \<or>
     b \<in> set '':/*?-._+@''"

text \<open>
  \<^verbatim>\<open>str::trim_end\<close> on the bytes of a string: the characters of the Unicode property White_Space, by
  their encodings, are removed from the end.
\<close>

fun drop_space_rev :: "string \<Rightarrow> string" where
  "drop_space_rev [] = []"
| "drop_space_rev (c # cs) =
     (let ws1 = c \<in> {CHR 0x09, CHR 0x0A, CHR 0x0B, CHR 0x0C, CHR 0x0D, CHR '' ''};
          ws2 = (case cs of
              b # _ \<Rightarrow> b = CHR 0xC2 \<and> c \<in> {CHR 0x85, CHR 0xA0}
            | [] \<Rightarrow> False);
          ws3 = (case cs of
              b # a # _ \<Rightarrow>
                (a = CHR 0xE1 \<and> b = CHR 0x9A \<and> c = CHR 0x80) \<or>
                (a = CHR 0xE2 \<and> b = CHR 0x80 \<and>
                   ((CHR 0x80 \<le> c \<and> c \<le> CHR 0x8A) \<or> c \<in> {CHR 0xA8, CHR 0xA9, CHR 0xAF})) \<or>
                (a = CHR 0xE2 \<and> b = CHR 0x81 \<and> c = CHR 0x9F) \<or>
                (a = CHR 0xE3 \<and> b = CHR 0x80 \<and> c = CHR 0x80)
            | _ \<Rightarrow> False)
      in if ws1 then drop_space_rev cs
         else if ws2 then drop_space_rev (drop 1 cs)
         else if ws3 then drop_space_rev (drop 2 cs)
         else c # cs)"

definition trim_end_utf8 :: "string \<Rightarrow> string" where
  "trim_end_utf8 s = rev (drop_space_rev (rev s))"

text \<open>The number of bytes of the character that starts with a byte of a valid UTF-8 string.\<close>

definition utf8_len :: "char \<Rightarrow> nat" where
  "utf8_len b = (if b < CHR 0x80 then 1 else if b < CHR 0xE0 then 2 else if b < CHR 0xF0 then 3 else 4)"

definition is_placeholder_start :: "Lexer \<Rightarrow> bool" where
  "is_placeholder_start lx =
     (case lex_peek_at 1 lx of
        None \<Rightarrow> False
      | Some next \<Rightarrow>
          next = CHR ''$'' \<or>
          (let r = drop 1 (rest lx)
           in strip_prefix r ''env.'' \<noteq> None \<or> strip_prefix r ''file.'' \<noteq> None \<or>
              strip_prefix r ''vars.'' \<noteq> None))"

definition lex_comment :: "nat \<Rightarrow> Lexer \<Rightarrow> (LexError + Token) \<times> Lexer" where
  "lex_comment start lx =
     (let lx1 = bump 1 lx;
          lx2 = (if lex_peek lx1 = Some (CHR '' '') then bump 1 lx1 else lx1);
          content = takeWhile (\<lambda>b. b \<noteq> NL) (rest lx2);
          lx3 = bump (length content) lx2
      in (Inr (token_new (Comment (trim_end_utf8 content)) (span_new start (lpos lx3 - start))), lx3))"

definition unescape :: "char \<Rightarrow> char option" where
  "unescape e =
     (if e = CHR ''n'' then Some NL
      else if e = CHR ''t'' then Some (CHR 0x09)
      else if e = CHR ''r'' then Some (CHR 0x0D)
      else if e = CHR 0x5C then Some (CHR 0x5C)
      else if e = CHR 0x22 then Some (CHR 0x22)
      else None)"

fun string_body :: "nat \<Rightarrow> nat \<Rightarrow> string \<Rightarrow> string \<Rightarrow> (LexError + string) \<times> Lexer" where
  "string_body start p [] value =
     (Inl (UnterminatedString (span_new start 1)), \<lparr>lpos = p, rest = []\<rparr>)"
| "string_body start p (b # bs) value =
     (if b = CHR 0x22 then (Inr value, \<lparr>lpos = p + 1, rest = bs\<rparr>)
      else if b = CHR 0x5C then
        (case bs of
           [] \<Rightarrow> (Inl (UnterminatedString (span_new start 1)), \<lparr>lpos = p + 1, rest = []\<rparr>)
         | e # es \<Rightarrow>
             (case unescape e of
                Some c \<Rightarrow> string_body start (p + 2) es (value @ [c])
              | None \<Rightarrow> (Inl (InvalidEscape e (span_new p 2)), \<lparr>lpos = p + 2, rest = es\<rparr>)))
      else if b = NL then (Inl (UnterminatedString (span_new start 1)), \<lparr>lpos = p + 1, rest = bs\<rparr>)
      else string_body start (p + 1) bs (value @ [b]))"

definition lex_string :: "nat \<Rightarrow> Lexer \<Rightarrow> (LexError + Token) \<times> Lexer" where
  "lex_string start lx =
     (let lx1 = bump 1 lx
      in case string_body start (lpos lx1) (rest lx1) [] of
           (Inl e, lx2) \<Rightarrow> (Inl e, lx2)
         | (Inr value, lx2) \<Rightarrow>
             (Inr (token_new (QuotedString value) (span_new start (lpos lx2 - start))), lx2))"

fun placeholder_body :: "nat \<Rightarrow> nat \<Rightarrow> nat \<Rightarrow> string \<Rightarrow> string \<Rightarrow> (LexError + string) \<times> Lexer" where
  "placeholder_body start depth p [] content =
     (Inl (UnterminatedPlaceholder (span_new start 1)), \<lparr>lpos = p, rest = []\<rparr>)"
| "placeholder_body start depth p (b # bs) content =
     (if b = CHR ''{'' then placeholder_body start (depth + 1) (p + 1) bs (content @ [b])
      else if b = CHR ''}'' then
        (if depth - 1 = 0 then (Inr content, \<lparr>lpos = p + 1, rest = bs\<rparr>)
         else placeholder_body start (depth - 1) (p + 1) bs (content @ [b]))
      else if b = NL then
        (Inl (UnterminatedPlaceholder (span_new start 1)), \<lparr>lpos = p, rest = b # bs\<rparr>)
      else placeholder_body start depth (p + 1) bs (content @ [b]))"

definition lex_placeholder :: "nat \<Rightarrow> Lexer \<Rightarrow> (LexError + Token) \<times> Lexer" where
  "lex_placeholder start lx =
     (let lx1 = bump 1 lx
      in case placeholder_body start 1 (lpos lx1) (rest lx1) [] of
           (Inl e, lx2) \<Rightarrow> (Inl e, lx2)
         | (Inr content, lx2) \<Rightarrow>
             (Inr (token_new (Placeholder content) (span_new start (lpos lx2 - start))), lx2))"

fun ident_prefix :: "string \<Rightarrow> string" where
  "ident_prefix [] = []"
| "ident_prefix (b # bs) =
     (if is_ident_char b then
        (if b = CHR ''.'' \<and> bs \<noteq> [] \<and> hd bs = CHR ''.'' then [] else b # ident_prefix bs)
      else [])"

definition lex_ident :: "nat \<Rightarrow> Lexer \<Rightarrow> (LexError + Token) \<times> Lexer" where
  "lex_ident start lx =
     (let text = ident_prefix (rest lx); lx1 = bump (length text) lx
      in if lpos lx1 = start then
           (let n = (case rest lx1 of b # _ \<Rightarrow> utf8_len b | [] \<Rightarrow> 3);
                ch = (case rest lx1 of b # _ \<Rightarrow> take n (rest lx1) | [] \<Rightarrow> [CHR 0xEF, CHR 0xBF, CHR 0xBD])
            in (Inl (UnexpectedChar ch (span_new start n)), bump n lx1))
         else (Inr (token_new (Ident text) (span_new start (lpos lx1 - start))), lx1))"

definition next_token :: "Lexer \<Rightarrow> (LexError + Token) \<times> Lexer" where
  "next_token lx0 =
     (let lx = skip_spaces lx0; start = lpos lx
      in case lex_peek lx of
           None \<Rightarrow> (Inr (token_new Eof (span_empty start)), lx)
         | Some b \<Rightarrow>
             if b = NL then
               (Inr (token_new Newline (span_new start 1)),
                skip_while (\<lambda>c. c = NL \<or> c = CHR 0x0D \<or> c = CHR '' '' \<or> c = CHR 0x09) (bump 1 lx))
             else if b = CHR ''#'' then lex_comment start lx
             else if b = CHR 0x22 then lex_string start lx
             else if b = CHR ''{'' then
               (if is_placeholder_start lx then lex_placeholder start lx
                else (Inr (token_new LBrace (span_new start 1)), bump 1 lx))
             else if b = CHR ''}'' then (Inr (token_new RBrace (span_new start 1)), bump 1 lx)
             else if b = CHR '';'' then (Inr (token_new Semicolon (span_new start 1)), bump 1 lx)
             else if b = CHR ''.'' \<and> lex_peek_at 1 lx = Some (CHR ''.'') then
               (Inr (token_new DotDot (span_new start 2)), bump 2 lx)
             else lex_ident start lx)"

subsection \<open>Lemmas: what a token consumes\<close>

lemma bump_bump: "bump m (bump n lx) = bump (n + m) lx"
  by (simp add: bump_def add.commute)

lemma bump_sel [simp]: "lpos (bump n lx) = lpos lx + n" "rest (bump n lx) = drop n (rest lx)"
  by (simp_all add: bump_def)

lemma bump_0 [simp]: "bump 0 lx = lx"
  by (simp add: bump_def)

lemma string_body_reads:
  "string_body start p bs v = (Inr w, lx') \<Longrightarrow>
     \<exists>n. 0 < n \<and> n \<le> length bs \<and> lx' = \<lparr>lpos = p + n, rest = drop n bs\<rparr>"
proof (induction start p bs v rule: string_body.induct)
  case (2 start p b bs v)
  consider "b = CHR 0x22" | "b = CHR 0x5C" | "b \<noteq> CHR 0x22" "b \<noteq> CHR 0x5C" by blast
  then show ?case
  proof cases
    case 1
    with 2 show ?thesis by (intro exI [of _ 1]) auto
  next
    case 2
    with "2.prems" obtain e es c where e: "bs = e # es" "unescape e = Some c"
      and r: "string_body start (p + 2) es (v @ [c]) = (Inr w, lx')"
      by (auto split: list.splits option.splits)
    from "2.IH"(1) [OF _ 2 e r] 2 obtain n where
      "0 < n" "n \<le> length es" "lx' = \<lparr>lpos = p + 2 + n, rest = drop n es\<rparr>" by auto
    with e show ?thesis by (intro exI [of _ "n + 2"]) simp
  next
    case 3
    with "2.prems" have nl: "b \<noteq> NL" and r: "string_body start (p + 1) bs (v @ [b]) = (Inr w, lx')"
      by (auto split: if_splits)
    from "2.IH"(2) [OF 3 nl r] obtain n where
      "0 < n" "n \<le> length bs" "lx' = \<lparr>lpos = p + 1 + n, rest = drop n bs\<rparr>" by auto
    then show ?thesis by (intro exI [of _ "n + 1"]) simp
  qed
qed simp

lemma placeholder_body_reads:
  "placeholder_body start d p bs v = (Inr w, lx') \<Longrightarrow>
     \<exists>n. 0 < n \<and> n \<le> length bs \<and> lx' = \<lparr>lpos = p + n, rest = drop n bs\<rparr>"
proof (induction start d p bs v rule: placeholder_body.induct)
  case (2 start d p b bs v)
  have step: ?case if ex: "\<exists>n. 0 < n \<and> n \<le> length bs \<and> lx' = \<lparr>lpos = p + 1 + n, rest = drop n bs\<rparr>"
  proof -
    from ex obtain n where "0 < n" "n \<le> length bs" "lx' = \<lparr>lpos = p + 1 + n, rest = drop n bs\<rparr>" by blast
    then show ?thesis by (intro exI [of _ "n + 1"]) simp
  qed
  show ?case
  proof (cases "b = CHR ''}'' \<and> d - 1 = 0")
    case True
    with "2.prems" show ?thesis by (intro exI [of _ 1]) auto
  next
    case False
    with 2 show ?thesis by (intro step) (auto split: if_splits)
  qed
qed simp

lemma length_ident_prefix: "length (ident_prefix bs) \<le> length bs"
  by (induction bs) auto

lemma ident_prefix_take: "ident_prefix bs = take (length (ident_prefix bs)) bs"
  by (induction bs) auto

text \<open>
  A token starts after the skipped blanks, its span lies in what was read, and only the end-of-input
  token reads nothing.
\<close>

definition token_reads :: "Lexer \<Rightarrow> Token \<Rightarrow> Lexer \<Rightarrow> bool" where
  "token_reads lx t lx' \<longleftrightarrow>
     (\<exists>k n. lx' = bump (k + n) lx \<and> k + n \<le> length (rest lx) \<and>
        offset (tspan t) = lpos lx + k \<and> len (tspan t) \<le> n \<and>
        (kind t = Eof \<longrightarrow> n = 0 \<and> k = length (rest lx)) \<and> (kind t \<noteq> Eof \<longrightarrow> 0 < len (tspan t)))"

lemma takeWhile_length_le: "length (takeWhile P xs) \<le> length xs"
  by (rule length_takeWhile_le)

lemma lex_comment_reads:
  assumes "lex_comment (lpos lx) lx = (Inr t, lx')" and "rest lx = b # bs"
  shows "token_reads lx t lx'"
proof -
  define s :: nat where "s = (if lex_peek (bump 1 lx) = Some (CHR '' '') then 1 else 0)"
  define content where "content = takeWhile (\<lambda>b. b \<noteq> NL) (drop s bs)"
  have "lx' = bump (0 + (1 + s + length content)) lx"
    "t = token_new (Comment (trim_end_utf8 content)) (span_new (lpos lx) (1 + s + length content))"
    using assms by (auto simp: lex_comment_def Let_def s_def content_def bump_bump)
  moreover have "s \<le> length bs"
    using assms(2) by (auto simp: s_def lex_peek_def split: list.splits)
  moreover have "length content \<le> length (drop s bs)"
    unfolding content_def by (rule takeWhile_length_le)
  ultimately show ?thesis
    unfolding token_reads_def using assms(2)
    by (intro exI [of _ 0] exI [of _ "1 + s + length content"]) (simp add: token_new_def span_new_def)
qed

lemma bump_intro: "lx' = \<lparr>lpos = lpos lx + n, rest = drop n (rest lx)\<rparr> \<Longrightarrow> lx' = bump n lx"
  by (simp add: bump_def)

lemma lex_string_reads:
  assumes "lex_string (lpos lx) lx = (Inr t, lx')" and "rest lx = b # bs"
  shows "token_reads lx t lx'"
proof -
  from assms obtain v where v: "string_body (lpos lx) (lpos lx + 1) bs [] = (Inr v, lx')"
    and t: "t = token_new (QuotedString v) (span_new (lpos lx) (lpos lx' - lpos lx))"
    by (auto simp: lex_string_def Let_def split: prod.splits sum.splits)
  from string_body_reads [OF v] obtain n where
    n: "0 < n" "n \<le> length bs" "lx' = \<lparr>lpos = lpos lx + 1 + n, rest = drop n bs\<rparr>" by blast
  show ?thesis
    unfolding token_reads_def
    by (intro exI [of _ 0] exI [of _ "1 + n"]) (use n t assms(2) in \<open>simp add: bump_def token_new_def span_new_def\<close>)
qed

lemma lex_placeholder_reads:
  assumes "lex_placeholder (lpos lx) lx = (Inr t, lx')" and "rest lx = b # bs"
  shows "token_reads lx t lx'"
proof -
  from assms obtain v where v: "placeholder_body (lpos lx) 1 (lpos lx + 1) bs [] = (Inr v, lx')"
    and t: "t = token_new (Placeholder v) (span_new (lpos lx) (lpos lx' - lpos lx))"
    by (auto simp: lex_placeholder_def Let_def split: prod.splits sum.splits)
  from placeholder_body_reads [OF v] obtain n where
    n: "0 < n" "n \<le> length bs" "lx' = \<lparr>lpos = lpos lx + 1 + n, rest = drop n bs\<rparr>" by blast
  show ?thesis
    unfolding token_reads_def
    by (intro exI [of _ 0] exI [of _ "1 + n"]) (use n t assms(2) in \<open>simp add: bump_def token_new_def span_new_def\<close>)
qed

lemma lex_ident_reads:
  assumes "lex_ident (lpos lx) lx = (Inr t, lx')"
  shows "token_reads lx t lx'"
proof -
  let ?n = "length (ident_prefix (rest lx))"
  from assms have "0 < ?n" "lx' = bump ?n lx" "t = token_new (Ident (ident_prefix (rest lx))) (span_new (lpos lx) ?n)"
    by (auto simp: lex_ident_def Let_def split: if_splits list.splits)
  with length_ident_prefix [of "rest lx"] show ?thesis
    unfolding token_reads_def
    by (intro exI [of _ 0] exI [of _ ?n]) (simp add: token_new_def span_new_def)
qed

lemma token_reads_one:
  "rest lx = b # bs \<Longrightarrow> k \<noteq> Eof \<Longrightarrow> 0 < m \<Longrightarrow> m \<le> n \<Longrightarrow> n \<le> length (rest lx) \<Longrightarrow>
     token_reads lx (token_new k (span_new (lpos lx) m)) (bump n lx)"
  unfolding token_reads_def
  by (intro exI [of _ 0] exI [of _ n]) (simp add: token_new_def span_new_def)

lemma token_reads_skip:
  assumes "token_reads (bump n lx) t lx'" and "n \<le> length (rest lx)"
  shows "token_reads lx t lx'"
proof -
  from assms(1) obtain k m where
    "lx' = bump (k + m) (bump n lx)" "k + m \<le> length (rest lx) - n"
    "offset (tspan t) = lpos lx + n + k" "len (tspan t) \<le> m"
    "kind t = Eof \<longrightarrow> m = 0 \<and> k = length (rest lx) - n" "kind t \<noteq> Eof \<longrightarrow> 0 < len (tspan t)"
    by (auto simp: token_reads_def)
  with assms(2) show ?thesis
    unfolding token_reads_def
    by - (rule exI [of _ "n + k"], rule exI [of _ m], auto simp: bump_bump add.assoc)
qed

lemma next_token_head:
  assumes "next_token lx0 = (Inr t, lx')" and "lx = skip_spaces lx0" and "rest lx = b # bs"
  shows "token_reads lx t lx'"
proof -
  let ?nl = "\<lambda>c. c = NL \<or> c = CHR 0x0D \<or> c = CHR '' '' \<or> c = CHR 0x09"
  have pk: "lex_peek lx = Some b" using assms(3) by (simp add: lex_peek_def)
  note nt = assms(1) [unfolded next_token_def, folded assms(2), unfolded Let_def pk option.case]
  consider (nl) "b = NL" | (hash) "b = CHR ''#''" | (quote) "b = CHR 0x22" | (lb) "b = CHR ''{''"
    | (rb) "b = CHR ''}''" | (semi) "b = CHR '';''"
    | (dots) "b = CHR ''.''" "lex_peek_at 1 lx = Some (CHR ''.'')"
    | (other) "b \<notin> {NL, CHR ''#'', CHR 0x22, CHR ''{'', CHR ''}'', CHR '';''}"
        "\<not> (b = CHR ''.'' \<and> lex_peek_at 1 lx = Some (CHR ''.''))"
    by blast
  then show ?thesis
  proof cases
    case nl
    let ?m = "length (takeWhile ?nl bs)"
    have "lx' = bump (1 + ?m) lx" "t = token_new Newline (span_new (lpos lx) 1)"
      using nt nl assms(3) by (auto simp: skip_while_def bump_bump)
    moreover have "?m \<le> length bs" by (rule takeWhile_length_le)
    ultimately show ?thesis using assms(3) token_reads_one [OF assms(3), of Newline 1 "1 + ?m"] by simp
  next
    case hash
    with nt have "lex_comment (lpos lx) lx = (Inr t, lx')" by simp
    then show ?thesis using assms(3) by (rule lex_comment_reads)
  next
    case quote
    with nt have "lex_string (lpos lx) lx = (Inr t, lx')" by simp
    then show ?thesis using assms(3) by (rule lex_string_reads)
  next
    case lb
    show ?thesis
    proof (cases "is_placeholder_start lx")
      case True
      with nt lb have "lex_placeholder (lpos lx) lx = (Inr t, lx')" by simp
      then show ?thesis using assms(3) by (rule lex_placeholder_reads)
    next
      case False
      with nt lb assms(3) show ?thesis using token_reads_one [OF assms(3), of LBrace 1 1] by auto
    qed
  next
    case rb
    with nt assms(3) show ?thesis using token_reads_one [OF assms(3), of RBrace 1 1] by auto
  next
    case semi
    with nt assms(3) show ?thesis using token_reads_one [OF assms(3), of Semicolon 1 1] by auto
  next
    case dots
    moreover have "2 \<le> length (rest lx)" using dots(2) by (auto simp: lex_peek_at_def split: if_splits)
    ultimately show ?thesis using nt token_reads_one [OF assms(3), of DotDot 2 2] by auto
  next
    case other
    with nt have "lex_ident (lpos lx) lx = (Inr t, lx')" by auto
    then show ?thesis by (rule lex_ident_reads)
  qed
qed

lemma next_token_reads:
  assumes "next_token lx0 = (Inr t, lx')"
  shows "token_reads lx0 t lx'"
proof -
  define n where "n = length (takeWhile (\<lambda>b. b = CHR '' '' \<or> b = CHR 0x09 \<or> b = CHR 0x0D) (rest lx0))"
  have sk: "skip_spaces lx0 = bump n lx0" by (simp add: skip_spaces_def skip_while_def n_def)
  have n: "n \<le> length (rest lx0)" unfolding n_def by (rule takeWhile_length_le)
  show ?thesis
  proof (cases "rest (skip_spaces lx0)")
    case Nil
    with assms n have "lx' = bump n lx0" "t = token_new Eof (span_empty (lpos lx0 + n))" "n = length (rest lx0)"
      by (simp_all add: next_token_def sk lex_peek_def)
    then show ?thesis
      unfolding token_reads_def
      by (intro exI [of _ n] exI [of _ 0]) (simp add: token_new_def span_empty_def)
  next
    case (Cons b bs)
    from next_token_head [OF assms refl Cons] n show ?thesis
      unfolding sk by (rule token_reads_skip)
  qed
qed

lemma next_token_shorter:
  "next_token lx = (Inr t, lx') \<Longrightarrow> kind t \<noteq> Eof \<Longrightarrow> length (rest lx') < length (rest lx)"
  by (drule next_token_reads) (auto simp: token_reads_def)

subsection \<open>The whole source\<close>

function tokenize_from :: "Lexer \<Rightarrow> Token list \<Rightarrow> LexError + Token list" where
  "tokenize_from lx tokens =
     (case next_token lx of
        (Inl e, _) \<Rightarrow> Inl e
      | (Inr tok, lx') \<Rightarrow>
          (let tokens' = tokens @ [tok]
           in if kind tok = Eof then Inr tokens' else tokenize_from lx' tokens'))"
  by pat_completeness auto
termination
  by (relation "measure (\<lambda>(lx, _). length (rest lx))")
    (auto dest: next_token_shorter [OF sym])

declare tokenize_from.simps [simp del]

definition tokenize :: "string \<Rightarrow> LexError + Token list" where
  "tokenize source = tokenize_from (lexer_new source) []"

text \<open>The quoting of \<^verbatim>\<open>croniq-config/src/format.rs\<close>, the inverse of the lexer's string literals.\<close>

fun quote_char :: "char \<Rightarrow> string" where
  "quote_char c =
     (if c = CHR 0x5C then [CHR 0x5C, CHR 0x5C]
      else if c = CHR 0x22 then [CHR 0x5C, CHR 0x22]
      else if c = NL then [CHR 0x5C, CHR ''n'']
      else if c = CHR 0x0D then [CHR 0x5C, CHR ''r'']
      else if c = CHR 0x09 then [CHR 0x5C, CHR ''t'']
      else [c])"

definition quote_string :: "string \<Rightarrow> string" where
  "quote_string value = CHR 0x22 # concat (map quote_char value) @ [CHR 0x22]"

definition format_job_key :: "string \<Rightarrow> string" where
  "format_job_key raw = (if list_all is_ident_char raw then raw else quote_string raw)"

subsection \<open>Lemmas: spans of a token sequence\<close>

definition span_stop :: "Token \<Rightarrow> nat" where
  "span_stop t = offset (tspan t) + len (tspan t)"

definition in_order :: "Token list \<Rightarrow> bool" where
  "in_order = sorted_wrt (\<lambda>a b. span_stop a \<le> offset (tspan b))"

lemma tokenize_from_spans:
  "tokenize_from lx acc = Inr toks \<Longrightarrow>
     \<exists>ts e. toks = acc @ ts @ [e] \<and> kind e = Eof \<and> offset (tspan e) = lpos lx + length (rest lx) \<and>
       (\<forall>t \<in> set ts. kind t \<noteq> Eof \<and> 0 < len (tspan t) \<and> lpos lx \<le> offset (tspan t) \<and>
          span_stop t \<le> lpos lx + length (rest lx)) \<and> in_order (ts @ [e])"
proof (induction lx acc rule: tokenize_from.induct)
  case (1 lx acc)
  from "1.prems" obtain t lx' where nt: "next_token lx = (Inr t, lx')"
    and r: "(if kind t = Eof then Inr (acc @ [t]) else tokenize_from lx' (acc @ [t])) = Inr toks"
    by (auto simp: tokenize_from.simps [of lx acc] Let_def split: prod.splits sum.splits)
  from next_token_reads [OF nt] obtain k n where
    k: "lx' = bump (k + n) lx" "k + n \<le> length (rest lx)" "offset (tspan t) = lpos lx + k"
      "len (tspan t) \<le> n" "kind t = Eof \<longrightarrow> n = 0 \<and> k = length (rest lx)"
      "kind t \<noteq> Eof \<longrightarrow> 0 < len (tspan t)"
    by (auto simp: token_reads_def)
  show ?case
  proof (cases "kind t = Eof")
    case True
    with r k show ?thesis by (intro exI [of _ "[]"] exI [of _ t]) (simp add: in_order_def)
  next
    case False
    with r have "tokenize_from lx' (acc @ [t]) = Inr toks" by simp
    from "1.IH" [OF nt [symmetric] refl refl False this] obtain ts e where
      ih: "toks = acc @ (t # ts) @ [e]" "kind e = Eof"
        "offset (tspan e) = lpos lx' + length (rest lx')"
        "\<forall>t \<in> set ts. kind t \<noteq> Eof \<and> 0 < len (tspan t) \<and> lpos lx' \<le> offset (tspan t) \<and>
           span_stop t \<le> lpos lx' + length (rest lx')" "in_order (ts @ [e])"
      by auto
    have len: "lpos lx' + length (rest lx') = lpos lx + length (rest lx)" using k by simp
    have "span_stop t \<le> lpos lx'" using k by (simp add: span_stop_def)
    moreover have "\<forall>u \<in> set (ts @ [e]). lpos lx' \<le> offset (tspan u)" using ih by auto
    ultimately have "in_order ((t # ts) @ [e])"
      using ih(5) by (force simp: in_order_def)
    moreover have "span_stop t \<le> lpos lx + length (rest lx)" using k by (simp add: span_stop_def)
    ultimately show ?thesis
      using ih k False len by (intro exI [of _ "t # ts"] exI [of _ e]) auto
  qed
qed

subsection \<open>Lemmas: literals and identifiers are read back\<close>

lemma string_body_quote:
  "string_body start p (concat (map quote_char v) @ CHR 0x22 # tail) acc =
     (Inr (acc @ v), \<lparr>lpos = p + length (concat (map quote_char v)) + 1, rest = tail\<rparr>)"
proof (induction v arbitrary: p acc)
  case (Cons c v)
  have "string_body start p (quote_char c @ xs) acc =
      string_body start (p + length (quote_char c)) xs (acc @ [c])" for xs
    by (simp add: unescape_def)
  with Cons show ?case by (simp add: add.assoc del: quote_char.simps)
qed simp

lemma skip_spaces_id: "bs \<noteq> [] \<Longrightarrow> hd bs \<notin> {CHR '' '', CHR 0x09, CHR 0x0D} \<Longrightarrow>
    skip_spaces \<lparr>lpos = p, rest = bs\<rparr> = \<lparr>lpos = p, rest = bs\<rparr>"
  by (cases bs) (simp_all add: skip_spaces_def skip_while_def)

lemma next_token_quote:
  "next_token \<lparr>lpos = p, rest = quote_string v @ tail\<rparr> =
     (Inr (token_new (QuotedString v) (span_new p (length (quote_string v)))),
      \<lparr>lpos = p + length (quote_string v), rest = tail\<rparr>)"
proof -
  have "skip_spaces \<lparr>lpos = p, rest = quote_string v @ tail\<rparr> = \<lparr>lpos = p, rest = quote_string v @ tail\<rparr>"
    by (rule skip_spaces_id) (simp_all add: quote_string_def)
  then show ?thesis
    by (simp add: next_token_def lex_peek_def quote_string_def lex_string_def bump_def string_body_quote)
qed

text \<open>An identifier word: identifier characters with no range operator inside.\<close>

fun word_ok :: "string \<Rightarrow> bool" where
  "word_ok [] \<longleftrightarrow> True"
| "word_ok (b # bs) \<longleftrightarrow> is_ident_char b \<and> \<not> (b = CHR ''.'' \<and> bs \<noteq> [] \<and> hd bs = CHR ''.'') \<and> word_ok bs"

lemma ident_prefix_word:
  "word_ok w \<Longrightarrow> tail = [] \<or> \<not> is_ident_char (hd tail) \<or> (hd tail = CHR ''.'' \<and> tl tail \<noteq> [] \<and>
     hd (tl tail) = CHR ''.'' \<and> (w = [] \<or> last w \<noteq> CHR ''.'')) \<Longrightarrow> ident_prefix (w @ tail) = w"
proof (induction w)
  case Nil
  then show ?case by (cases tail) auto
next
  case (Cons b bs)
  then have "ident_prefix (bs @ tail) = bs" by (auto split: if_splits)
  with Cons.prems show ?case
    by (cases bs; cases tail) (auto simp: is_ident_char_def split: if_splits)
qed

lemma ident_char_not_special:
  "is_ident_char b \<Longrightarrow> b \<notin> {NL, CHR '' '', CHR 0x09, CHR 0x0D, CHR ''#'', CHR 0x22, CHR ''{'', CHR ''}'', CHR '';''}"
  by (auto simp: is_ident_char_def less_eq_char_def of_char_def)

lemma next_token_ident:
  assumes "word_ok w" and "w \<noteq> []" and "tail = [] \<or> \<not> is_ident_char (hd tail)"
  shows "next_token \<lparr>lpos = p, rest = w @ tail\<rparr> =
    (Inr (token_new (Ident w) (span_new p (length w))), \<lparr>lpos = p + length w, rest = tail\<rparr>)"
proof -
  obtain b bs where w: "w = b # bs" using assms(2) by (cases w) auto
  have b: "is_ident_char b" and dots: "\<not> (b = CHR ''.'' \<and> bs \<noteq> [] \<and> hd bs = CHR ''.'')"
    using assms(1) w by auto
  note sp = ident_char_not_special [OF b]
  have "skip_spaces \<lparr>lpos = p, rest = w @ tail\<rparr> = \<lparr>lpos = p, rest = w @ tail\<rparr>"
    by (rule skip_spaces_id) (use w sp in auto)
  moreover have "\<not> (b = CHR ''.'' \<and> lex_peek_at 1 \<lparr>lpos = p, rest = w @ tail\<rparr> = Some (CHR ''.''))"
    using dots assms(3) unfolding w
    by (cases bs; cases tail) (auto simp: lex_peek_at_def is_ident_char_def)
  moreover have "ident_prefix (w @ tail) = w"
    using assms by (intro ident_prefix_word) auto
  ultimately show ?thesis
    using sp w by (auto simp: next_token_def lex_peek_def lex_ident_def bump_def Let_def)
qed

lemma next_token_end: "next_token \<lparr>lpos = p, rest = []\<rparr> = (Inr (token_new Eof (span_empty p)), \<lparr>lpos = p, rest = []\<rparr>)"
  by (simp add: next_token_def skip_spaces_def skip_while_def lex_peek_def bump_def)

lemma tokenize_from_end: "tokenize_from \<lparr>lpos = p, rest = []\<rparr> acc = Inr (acc @ [token_new Eof (span_empty p)])"
  by (simp add: tokenize_from.simps next_token_end token_new_def)

lemma tokenize_from_step:
  "next_token lx = (Inr t, lx') \<Longrightarrow> kind t \<noteq> Eof \<Longrightarrow> tokenize_from lx acc = tokenize_from lx' (acc @ [t])"
  by (subst tokenize_from.simps) simp

subsection \<open>Properties\<close>

text \<open>C21: The tokens of a source tile it: a successful run ends with exactly one end-of-input token, at
  the length of the source; every other token has a non-empty span inside the source; and spans
  follow each other without overlap. So no byte is tokenized twice and the lexer always stops.\<close>

theorem token_spans_in_order:
  assumes "tokenize source = Inr toks"
  shows "\<exists>ts e. toks = ts @ [e] \<and> kind e = Eof \<and> offset (tspan e) = length source \<and>
    (\<forall>t \<in> set ts. kind t \<noteq> Eof \<and> 0 < len (tspan t) \<and> span_stop t \<le> length source) \<and> in_order toks"
proof -
  from tokenize_from_spans [OF assms [unfolded tokenize_def]] show ?thesis
    by (auto simp: lexer_new_def)
qed

theorem token_spans_in_order_witness:
  "\<exists>ts e. [token_new Newline (span_new 0 1), token_new RBrace (span_new 1 1), token_new Eof (span_empty 2)]
       = ts @ [e] \<and> kind e = Eof \<and> offset (tspan e) = length [NL, CHR ''}'']"
proof -
  have "tokenize [NL, CHR ''}''] =
      Inr [token_new Newline (span_new 0 1), token_new RBrace (span_new 1 1), token_new Eof (span_empty 2)]"
    by (simp add: tokenize_def lexer_new_def tokenize_from.simps next_token_def skip_spaces_def
        skip_while_def bump_def lex_peek_def token_new_def numeral_2_eq_2)
  from token_spans_in_order [OF this] show ?thesis by blast
qed

text \<open>C22: Quoting is the inverse of lexing a string literal: every text, quotes, backslashes, tabs and line
  breaks included, written by the formatter's quoting lexes back to one string token of exactly
  that text.\<close>

theorem quote_string_roundtrip:
  "tokenize (quote_string v) =
     Inr [token_new (QuotedString v) (span_new 0 (length (quote_string v))),
          token_new Eof (span_empty (length (quote_string v)))]"
proof -
  have "next_token \<lparr>lpos = 0, rest = quote_string v\<rparr> =
      (Inr (token_new (QuotedString v) (span_new 0 (length (quote_string v)))),
       \<lparr>lpos = length (quote_string v), rest = []\<rparr>)"
    using next_token_quote [of 0 v "[]"] by simp
  from tokenize_from_step [OF this] show ?thesis
    by (simp add: tokenize_def lexer_new_def tokenize_from_end token_new_def)
qed

text \<open>A job key written by the formatter is read back as one token of that text, provided a key made
  of identifier characters only does not contain the range operator.\<close>

theorem job_key_roundtrip:
  assumes "raw \<noteq> []" and "list_all is_ident_char raw \<longrightarrow> word_ok raw"
  shows "\<exists>t e. tokenize (format_job_key raw) = Inr [t, e] \<and> tok_text t = raw \<and> kind e = Eof"
proof (cases "list_all is_ident_char raw")
  case True
  with assms(2) have w: "word_ok raw" by simp
  have "next_token \<lparr>lpos = 0, rest = raw\<rparr> =
      (Inr (token_new (Ident raw) (span_new 0 (length raw))), \<lparr>lpos = length raw, rest = []\<rparr>)"
    using next_token_ident [OF w assms(1), of "[]" 0] by simp
  from tokenize_from_step [OF this, of "[]"] True show ?thesis
    by (simp add: tokenize_def lexer_new_def format_job_key_def tokenize_from_end token_new_def tok_text_def)
next
  case False
  have "next_token \<lparr>lpos = 0, rest = quote_string raw\<rparr> =
      (Inr (token_new (QuotedString raw) (span_new 0 (length (quote_string raw)))),
       \<lparr>lpos = length (quote_string raw), rest = []\<rparr>)"
    using next_token_quote [of 0 raw "[]"] by simp
  from tokenize_from_step [OF this, of "[]"] False show ?thesis
    by (simp add: tokenize_def lexer_new_def format_job_key_def tokenize_from_end token_new_def tok_text_def)
qed

theorem job_key_roundtrip_witness:
  "\<exists>t e. tokenize (format_job_key ''a b:c'') = Inr [t, e] \<and> tok_text t = ''a b:c'' \<and> kind e = Eof"
  by (rule job_key_roundtrip) (simp_all add: is_ident_char_def less_eq_char_def of_char_def)

text \<open>The formatter's test for a bare key is too weak: a key such as \<^verbatim>\<open>a..b:c\<close> consists of identifier
  characters, so it is written bare, but the lexer stops an identifier before a range operator, and
  the first token read back is only the part before it.\<close>

theorem bare_job_key_with_range_splits:
  assumes "word_ok x" and "x \<noteq> []" and "last x \<noteq> CHR ''.''" and "list_all is_ident_char y"
    and "tokenize (format_job_key (x @ ''..'' @ y)) = Inr toks"
  shows "kind (hd toks) = Ident x"
proof -
  have all: "list_all is_ident_char w" if "word_ok w" for w
    using that by (induction w) auto
  have key: "format_job_key (x @ ''..'' @ y) = x @ ''..'' @ y"
    using all [OF assms(1)] assms(4) by (simp add: format_job_key_def is_ident_char_def)
  obtain b bs where x: "x = b # bs" using assms(2) by (cases x) auto
  have b: "is_ident_char b" and dots: "\<not> (b = CHR ''.'' \<and> bs \<noteq> [] \<and> hd bs = CHR ''.'')"
    using assms(1) x by auto
  note sp = ident_char_not_special [OF b]
  let ?lx = "\<lparr>lpos = 0, rest = x @ ''..'' @ y\<rparr>"
  have "skip_spaces ?lx = ?lx"
    by (rule skip_spaces_id) (use x sp in auto)
  moreover have "\<not> (b = CHR ''.'' \<and> lex_peek_at 1 ?lx = Some (CHR ''.''))"
    using dots assms(3) unfolding x by (cases bs) (auto simp: lex_peek_at_def)
  moreover have "ident_prefix (x @ ''..'' @ y) = x"
    using assms(1-3) by (intro ident_prefix_word) auto
  ultimately have "next_token ?lx =
      (Inr (token_new (Ident x) (span_new 0 (length x))), \<lparr>lpos = length x, rest = ''..'' @ y\<rparr>)"
    using sp x by (auto simp: next_token_def lex_peek_def lex_ident_def bump_def Let_def)
  from tokenize_from_step [OF this, of "[]"] assms(5) key
  have "tokenize_from \<lparr>lpos = length x, rest = ''..'' @ y\<rparr> [token_new (Ident x) (span_new 0 (length x))] = Inr toks"
    by (simp add: tokenize_def lexer_new_def token_new_def)
  from tokenize_from_spans [OF this] show ?thesis by (auto simp: token_new_def)
qed

theorem bare_job_key_with_range_splits_witness:
  "\<exists>toks. tokenize (format_job_key ''a..b:c'') = Inr toks \<and> kind (hd toks) = Ident ''a''"
proof -
  have c: "is_ident_char (CHR ''a'')" "is_ident_char (CHR ''b'')" "is_ident_char (CHR ''c'')"
    "is_ident_char (CHR '':'')" "is_ident_char (CHR ''.'')"
    by (simp_all add: is_ident_char_def less_eq_char_def of_char_def)
  have t: "tokenize (format_job_key ''a..b:c'') = Inr [token_new (Ident ''a'') (span_new 0 1),
      token_new DotDot (span_new 1 2), token_new (Ident ''b:c'') (span_new 3 3), token_new Eof (span_empty 6)]"
    using c by (simp add: format_job_key_def tokenize_def lexer_new_def tokenize_from.simps next_token_def skip_spaces_def
        skip_while_def bump_def lex_peek_def lex_peek_at_def lex_ident_def token_new_def eval_nat_numeral)
  from bare_job_key_with_range_splits [of "''a''" "''b:c''", simplified, OF c(1) _ t] c t show ?thesis
    by simp
qed

end
