(* ===== verification/Config_Ast.thy ===== *)
theory Config_Ast
  imports Lexer
begin

text \<open>
  The syntax tree of a Croniqfile, \<^verbatim>\<open>croniq-config/src/ast.rs\<close>: one record or datatype per struct or
  enum of the source, the weekday names, and the grammatical number of \<^verbatim>\<open>plural.rs\<close>.
\<close>

subsection \<open>Shared types\<close>

record StringValue =
  sv_value :: string
  sv_quoted :: bool
  sv_placeholder :: bool
  sv_span :: Span

record Directive =
  d_key :: StringValue
  d_args :: "StringValue list"
  d_span :: Span

record CommentNode =
  c_text :: string
  c_span :: Span

datatype DirectiveOrBlock =
    DDirective Directive
  | DBlock NamedBlock
  | DComment CommentNode
and NamedBlock =
  NamedBlock (nb_name: StringValue) (nb_qualifier: "StringValue option")
    (nb_directives: "DirectiveOrBlock list") (nb_span: Span)

subsection \<open>Schedules\<close>

datatype ScheduleMode = Queued | Ephemeral

datatype IntervalUnit = Seconds | Minutes | Hours

record TimeValue =
  tv_hour :: nat
  tv_minute :: nat
  tv_raw :: string
  tv_span :: Span

datatype Weekday = Monday | Tuesday | Wednesday | Thursday | Friday | Saturday | Sunday

datatype MonthOrdinal = MO_Day nat | MO_Last

datatype ScheduleKind =
    K_Interval nat IntervalUnit
  | K_Daily TimeValue
  | K_Weekdays "Weekday list" TimeValue
  | K_Monthly "MonthOrdinal list" TimeValue
  | K_Once StringValue
  | K_Disabled

record ScheduleNode =
  sn_kind :: ScheduleKind
  sn_mode :: "ScheduleMode option"
  sn_options :: "Directive list"
  sn_span :: Span

subsection \<open>Blocks\<close>

record Import =
  im_path :: StringValue
  im_span :: Span

text \<open>The blocks that hold plain directives, or named sub-blocks, have the same shape in the source.\<close>

record DirectivesBlock =
  db_directives :: "Directive list"
  db_span :: Span

record SubBlocksBlock =
  sb_blocks :: "NamedBlock list"
  sb_span :: Span

type_synonym ServerBlock = DirectivesBlock
type_synonym SmtpBlock = DirectivesBlock
type_synonym PullApiBlock = DirectivesBlock
type_synonym McpBlock = DirectivesBlock
type_synonym OidcBlock = DirectivesBlock
type_synonym PolicyBlock = DirectivesBlock
type_synonym VarsBlock = DirectivesBlock
type_synonym ObservabilityBlock = SubBlocksBlock
type_synonym AuthBlock = SubBlocksBlock
type_synonym AlertsBlock = SubBlocksBlock

record DefaultsBlock =
  df_directives :: "DirectiveOrBlock list"
  df_span :: Span

datatype CalendarRuleKind = Include | Exclude

record AstCalendarRule =
  cr_kind :: CalendarRuleKind
  cr_type :: StringValue
  cr_args :: "StringValue list"
  cr_span :: Span

record CalendarBlock =
  cb_name :: StringValue
  cb_rules :: "AstCalendarRule list"
  cb_span :: Span

record ConcurrencyGroupBlock =
  cg_name :: StringValue
  cg_directives :: "Directive list"
  cg_span :: Span

record JobKey =
  jk_raw :: string
  jk_namespace :: string
  jk_name :: string
  jk_variant :: "string option"
  jk_span :: Span

record JobBlock =
  jb_key :: JobKey
  jb_schedule :: "ScheduleNode option"
  jb_directives :: "DirectiveOrBlock list"
  jb_span :: Span

datatype Item =
    I_Import Import
  | I_Server ServerBlock
  | I_Smtp SmtpBlock
  | I_PullApi PullApiBlock
  | I_Observability ObservabilityBlock
  | I_Mcp McpBlock
  | I_Oidc OidcBlock
  | I_Auth AuthBlock
  | I_Policy PolicyBlock
  | I_Alerts AlertsBlock
  | I_Vars VarsBlock
  | I_Defaults DefaultsBlock
  | I_Calendar CalendarBlock
  | I_ConcurrencyGroup ConcurrencyGroupBlock
  | I_Job JobBlock
  | I_Comment CommentNode

record Croniqfile =
  cf_items :: "Item list"
  cf_span :: Span

subsection \<open>Weekday names\<close>

definition to_ascii_lower :: "char \<Rightarrow> char" where
  "to_ascii_lower c =
     (if CHR ''A'' \<le> c \<and> c \<le> CHR ''Z'' then char_of (of_char c + 32 :: nat) else c)"

definition to_ascii_lowercase :: "string \<Rightarrow> string" where
  "to_ascii_lowercase = map to_ascii_lower"

definition WEEK_ALL :: "Weekday list" where
  "WEEK_ALL = [Monday, Tuesday, Wednesday, Thursday, Friday, Saturday, Sunday]"

fun weekday_idx :: "Weekday \<Rightarrow> nat" where
  "weekday_idx Monday = 0" | "weekday_idx Tuesday = 1" | "weekday_idx Wednesday = 2"
| "weekday_idx Thursday = 3" | "weekday_idx Friday = 4" | "weekday_idx Saturday = 5"
| "weekday_idx Sunday = 6"

definition weekday_parse :: "string \<Rightarrow> Weekday option" where
  "weekday_parse s =
     (let l = to_ascii_lowercase s
      in if l = ''monday'' \<or> l = ''mon'' then Some Monday
         else if l = ''tuesday'' \<or> l = ''tue'' then Some Tuesday
         else if l = ''wednesday'' \<or> l = ''wed'' then Some Wednesday
         else if l = ''thursday'' \<or> l = ''thu'' then Some Thursday
         else if l = ''friday'' \<or> l = ''fri'' then Some Friday
         else if l = ''saturday'' \<or> l = ''sat'' then Some Saturday
         else if l = ''sunday'' \<or> l = ''sun'' then Some Sunday
         else None)"

definition parse_group :: "string \<Rightarrow> Weekday list option" where
  "parse_group s =
     (let l = to_ascii_lowercase s
      in if l = ''weekday'' then Some (take 5 WEEK_ALL)
         else if l = ''weekend'' then Some (take 2 (drop 5 WEEK_ALL))
         else None)"

definition parse_token :: "string \<Rightarrow> Weekday list option" where
  "parse_token s =
     (case parse_group s of
        Some g \<Rightarrow> Some g
      | None \<Rightarrow> map_option (\<lambda>d. take 1 (drop (weekday_idx d) WEEK_ALL)) (weekday_parse s))"

fun weekday_as_str :: "Weekday \<Rightarrow> string" where
  "weekday_as_str Monday = ''monday''"
| "weekday_as_str Tuesday = ''tuesday''"
| "weekday_as_str Wednesday = ''wednesday''"
| "weekday_as_str Thursday = ''thursday''"
| "weekday_as_str Friday = ''friday''"
| "weekday_as_str Saturday = ''saturday''"
| "weekday_as_str Sunday = ''sunday''"

definition interval_phrase :: "nat \<Rightarrow> string \<Rightarrow> string" where
  "interval_phrase count singular_unit =
     (let plural = (if count = 1 then [] else ''s'')
      in show_nat count @ '' '' @ singular_unit @ plural)"

lemma weekday_nth: "WEEK_ALL ! weekday_idx d = d" "weekday_idx d < 7"
  by (cases d; simp add: WEEK_ALL_def)+

end
