(* ===== verification/Chrono.thy ===== *)
theory Chrono
  imports Prelude "HOL-Library.Product_Lexorder"
begin

text \<open>
  The part of the crates \<^verbatim>\<open>chrono\<close> and \<^verbatim>\<open>chrono_tz\<close> that the scheduler relies on. An instant and
  a local date-time are nanosecond counts, a date is a day count, a time of day the nanoseconds since
  midnight; what is plain arithmetic on these counts is written out. What depends on a calendar or on
  the time zone database is a parameter: a record \<open>Civil\<close> of the civil calendar and a record \<open>Tz\<close> of a
  time zone, with the laws the proofs rely on as the predicates \<open>civil_ok\<close> and \<open>zone_ok\<close> and
  a few named properties of zones. The proleptic Gregorian calendar and zones with a fixed offset, one
  gap or one fold satisfy them.
\<close>

subsection \<open>Dates, times and durations\<close>

definition DAY_NS :: int where
  "DAY_NS = 86400000000000"

definition MIN_NS :: int where
  "MIN_NS = 60000000000"

definition SEC_NS :: int where
  "SEC_NS = 1000000000"

definition date_of :: "int \<Rightarrow> int" where
  "date_of l = l div DAY_NS"

definition time_of :: "int \<Rightarrow> int" where
  "time_of l = l mod DAY_NS"

definition and_time :: "int \<Rightarrow> int \<Rightarrow> int" where
  "and_time d t = d * DAY_NS + t"

definition from_hms_opt :: "nat \<Rightarrow> nat \<Rightarrow> nat \<Rightarrow> int option" where
  "from_hms_opt h m s =
     (if h < 24 \<and> m < 60 \<and> s < 60 then Some (int (h * 3600 + m * 60 + s) * SEC_NS) else None)"

definition num_seconds_from_midnight :: "int \<Rightarrow> int" where
  "num_seconds_from_midnight t = t div SEC_NS"

definition nanosecond :: "int \<Rightarrow> int" where
  "nanosecond t = t mod SEC_NS"

definition from_num_seconds_from_midnight_opt :: "int \<Rightarrow> int option" where
  "from_num_seconds_from_midnight_opt s = (if 0 \<le> s \<and> s < 86400 then Some (s * SEC_NS) else None)"

definition valid_time :: "int \<Rightarrow> bool" where
  "valid_time t \<longleftrightarrow> 0 \<le> t \<and> t < DAY_NS"

lemmas ns_defs = DAY_NS_def MIN_NS_def SEC_NS_def

lemma date_of_and_time [simp]: "valid_time t \<Longrightarrow> date_of (and_time d t) = d"
  by (simp add: date_of_def and_time_def valid_time_def)

lemma time_of_and_time [simp]: "valid_time t \<Longrightarrow> time_of (and_time d t) = t"
  by (simp add: time_of_def and_time_def valid_time_def)

lemma and_time_date_time [simp]: "and_time (date_of l) (time_of l) = l"
  by (simp add: date_of_def time_of_def and_time_def)

lemma valid_time_of [simp]: "valid_time (time_of l)"
  by (simp add: time_of_def valid_time_def DAY_NS_def)

lemma and_time_mono:
  "valid_time t \<Longrightarrow> valid_time t' \<Longrightarrow> d < d' \<Longrightarrow> and_time d t < and_time d' t'"
  using mult_right_mono [of "d + 1" d' DAY_NS]
  by (simp add: and_time_def valid_time_def DAY_NS_def)

lemma date_of_mono: "l \<le> l' \<Longrightarrow> date_of l \<le> date_of l'"
  by (simp add: date_of_def DAY_NS_def zdiv_mono1)

lemma date_of_less: "date_of l < date_of l' \<Longrightarrow> l < l'"
  using date_of_mono [of l' l] by linarith

lemma from_hms_valid: "from_hms_opt h m s = Some t \<Longrightarrow> valid_time t"
  by (auto simp: from_hms_opt_def valid_time_def ns_defs split: if_splits)

lemma from_hms_minute: "from_hms_opt h m 0 = Some t \<Longrightarrow> t mod MIN_NS = 0"
proof -
  assume "from_hms_opt h m 0 = Some t"
  then have "t = (int h * 60 + int m) * MIN_NS"
    by (auto simp: from_hms_opt_def ns_defs algebra_simps split: if_splits)
  then show ?thesis by simp
qed

subsection \<open>Time zones\<close>

datatype MappedLocalTime = MNone | Single instant | Ambiguous instant instant

record Tz =
  to_local :: "instant \<Rightarrow> int"
  from_local :: "int \<Rightarrow> MappedLocalTime"

text \<open>
  What \<^verbatim>\<open>TimeZone::from_local_datetime\<close> documents: a local time that the clock shows once is
  \<open>Single\<close>, one it shows twice is \<open>Ambiguous\<close> with the earlier instant first, one it skips is \<open>MNone\<close>.
  In each case the local time splits the time line: before its first occurrence the clock shows
  less, after its last one more.
\<close>

definition maps_to :: "Tz \<Rightarrow> int \<Rightarrow> MappedLocalTime \<Rightarrow> bool" where
  "maps_to z l m =
     (case m of
        MNone \<Rightarrow> \<exists>t. \<forall>w. (w < t \<longrightarrow> to_local z w < l) \<and> (t \<le> w \<longrightarrow> l < to_local z w)
      | Single u \<Rightarrow> to_local z u = l \<and> (\<forall>w. (w < u \<longrightarrow> to_local z w < l) \<and> (u < w \<longrightarrow> l < to_local z w))
      | Ambiguous e f \<Rightarrow> e < f \<and> to_local z e = l \<and> to_local z f = l \<and>
          (\<forall>w. (w < e \<longrightarrow> to_local z w < l) \<and> (f < w \<longrightarrow> l < to_local z w) \<and>
             (to_local z w = l \<longrightarrow> w = e \<or> w = f)))"

definition zone_ok :: "Tz \<Rightarrow> bool" where
  "zone_ok z \<longleftrightarrow> (\<forall>l. maps_to z l (from_local z l))"

text \<open>Offsets are whole seconds.\<close>

definition whole_second_offsets :: "Tz \<Rightarrow> bool" where
  "whole_second_offsets z \<longleftrightarrow> (\<forall>t. nanosecond (to_local z t) = nanosecond t)"

text \<open>A gap is at most three hours long and consists of whole minutes.\<close>

definition gaps_bounded :: "Tz \<Rightarrow> bool" where
  "gaps_bounded z \<longleftrightarrow>
     (\<forall>l. from_local z l = MNone \<longrightarrow> (\<exists>k \<in> {1..180}. from_local z (l + k * MIN_NS) \<noteq> MNone))"

definition gaps_on_minutes :: "Tz \<Rightarrow> bool" where
  "gaps_on_minutes z \<longleftrightarrow>
     (\<forall>l x. from_local z l = MNone \<longrightarrow> x div MIN_NS = l div MIN_NS \<longrightarrow> from_local z x = MNone)"

text \<open>A repeated hour does not reach over midnight.\<close>

definition folds_within_day :: "Tz \<Rightarrow> bool" where
  "folds_within_day z \<longleftrightarrow>
     (\<forall>l e f w. from_local z l = Ambiguous e f \<longrightarrow> e \<le> w \<longrightarrow> w \<le> f \<longrightarrow> date_of (to_local z w) = date_of l)"

definition first_at :: "Tz \<Rightarrow> int \<Rightarrow> instant option" where
  "first_at z l = (case from_local z l of MNone \<Rightarrow> None | Single u \<Rightarrow> Some u | Ambiguous u _ \<Rightarrow> Some u)"

lemma zone_maps: "zone_ok z \<Longrightarrow> from_local z l = m \<Longrightarrow> maps_to z l m"
  by (auto simp: zone_ok_def)

lemma first_at_Some:
  assumes "zone_ok z" and "first_at z l = Some u"
  shows "to_local z u = l" "w < u \<Longrightarrow> to_local z w < l"
  using assms(2) zone_maps [OF assms(1) refl, of l]
  by (auto simp: first_at_def maps_to_def split: MappedLocalTime.splits)

lemma first_at_None: "first_at z l = None \<longleftrightarrow> from_local z l = MNone"
  by (auto simp: first_at_def split: MappedLocalTime.splits)

lemma first_at_mono:
  assumes "zone_ok z" and "first_at z l = Some u" and "first_at z l' = Some u'" and "l < l'"
  shows "u < u'"
proof (rule ccontr)
  assume "\<not> u < u'"
  with first_at_Some [OF assms(1,2)] first_at_Some [OF assms(1,3)] assms(4) show False
    by (metis less_asym less_irrefl linorder_neqE)
qed

lemma gap_separates:
  assumes "zone_ok z" and "from_local z l = MNone" and "to_local z w < l" and "l < to_local z w'"
  shows "w < w'"
  using zone_maps [OF assms(1,2)] assms(3,4)
  by (auto simp: maps_to_def) (metis leI less_asym less_le_trans)

lemma gap_unreached: "zone_ok z \<Longrightarrow> from_local z l = MNone \<Longrightarrow> to_local z w \<noteq> l"
  using zone_maps [of z l MNone] by (auto simp: maps_to_def)

subsection \<open>Zones that satisfy the laws\<close>

definition fixed_zone :: "int \<Rightarrow> Tz" where
  "fixed_zone off = \<lparr>to_local = (\<lambda>t. t + off * SEC_NS), from_local = (\<lambda>l. Single (l - off * SEC_NS))\<rparr>"

text \<open>The clock jumps forward by \<open>g\<close> seconds when it would show \<open>at\<close>.\<close>

definition gap_zone :: "int \<Rightarrow> int \<Rightarrow> Tz" where
  "gap_zone at g = \<lparr>to_local = (\<lambda>t. if t < at * SEC_NS then t else t + g * SEC_NS),
     from_local = (\<lambda>l. if l < at * SEC_NS then Single l
       else if l < (at + g) * SEC_NS then MNone else Single (l - g * SEC_NS))\<rparr>"

text \<open>The clock is set back by \<open>g\<close> seconds to \<open>at\<close>.\<close>

definition fold_zone :: "int \<Rightarrow> int \<Rightarrow> Tz" where
  "fold_zone at g = \<lparr>to_local = (\<lambda>t. if t < at * SEC_NS then t + g * SEC_NS else t),
     from_local = (\<lambda>l. if l < at * SEC_NS then Single (l - g * SEC_NS)
       else if l < (at + g) * SEC_NS then Ambiguous (l - g * SEC_NS) l else Single l)\<rparr>"

lemma fixed_zone_ok: "zone_ok (fixed_zone off)"
  by (simp add: zone_ok_def maps_to_def fixed_zone_def)

lemma gap_zone_ok:
  assumes "0 < g"
  shows "zone_ok (gap_zone at g)"
proof -
  have "maps_to (gap_zone at g) l (from_local (gap_zone at g) l)" for l
  proof (cases "l < at * SEC_NS \<or> (at + g) * SEC_NS \<le> l")
    case True
    with assms show ?thesis by (auto simp: maps_to_def gap_zone_def SEC_NS_def)
  next
    case False
    with assms show ?thesis
      by (auto simp: maps_to_def gap_zone_def SEC_NS_def intro!: exI [of _ "at * SEC_NS"])
  qed
  then show ?thesis by (simp add: zone_ok_def)
qed

lemma fold_zone_ok: "0 < g \<Longrightarrow> zone_ok (fold_zone at g)"
  by (auto simp: zone_ok_def maps_to_def fold_zone_def SEC_NS_def)

lemma fixed_zone_props:
  "whole_second_offsets (fixed_zone off)" "gaps_bounded (fixed_zone off)"
  "gaps_on_minutes (fixed_zone off)" "folds_within_day (fixed_zone off)"
  by (simp_all add: whole_second_offsets_def gaps_bounded_def gaps_on_minutes_def folds_within_day_def
      fixed_zone_def nanosecond_def)

lemma gap_zone_props:
  assumes "0 < g" and "g \<le> 10800" and "at mod 60 = 0" and "g mod 60 = 0"
  shows "whole_second_offsets (gap_zone at g)" "gaps_bounded (gap_zone at g)"
    "gaps_on_minutes (gap_zone at g)" "folds_within_day (gap_zone at g)"
proof -
  show "whole_second_offsets (gap_zone at g)"
    by (simp add: whole_second_offsets_def gap_zone_def nanosecond_def)
  show "folds_within_day (gap_zone at g)"
    by (simp add: folds_within_day_def gap_zone_def)
  show "gaps_bounded (gap_zone at g)"
    using assms by (auto simp: gaps_bounded_def gap_zone_def ns_defs intro!: bexI [of _ 180])
  from assms obtain a b where ab: "at = 60 * a" "g = 60 * b" by (metis mod_0_imp_dvd dvdE)
  have gap: "from_local (gap_zone at g) l = MNone \<longleftrightarrow> a \<le> l div MIN_NS \<and> l div MIN_NS < a + b" for l
    using assms(1) unfolding ab by (auto simp: gap_zone_def ns_defs)
  show "gaps_on_minutes (gap_zone at g)" by (simp add: gaps_on_minutes_def gap)
qed

subsection \<open>The civil calendar\<close>

datatype ChronoWeekday = Mon | Tue | Wed | Thu | Fri | Sat | Sun

fun weekday_succ :: "ChronoWeekday \<Rightarrow> ChronoWeekday" where
  "weekday_succ Mon = Tue" | "weekday_succ Tue = Wed" | "weekday_succ Wed = Thu"
| "weekday_succ Thu = Fri" | "weekday_succ Fri = Sat" | "weekday_succ Sat = Sun"
| "weekday_succ Sun = Mon"

record Civil =
  weekday_of :: "int \<Rightarrow> ChronoWeekday"
  ymd :: "int \<Rightarrow> int \<times> nat \<times> nat"
  from_ymd_opt :: "int \<Rightarrow> nat \<Rightarrow> nat \<Rightarrow> int option"
  max_date :: int

definition checked_add_days :: "Civil \<Rightarrow> int \<Rightarrow> nat \<Rightarrow> int option" where
  "checked_add_days c d n = (if d + int n \<le> max_date c then Some (d + int n) else None)"

definition year :: "Civil \<Rightarrow> int \<Rightarrow> int" where
  "year c d = fst (ymd c d)"

definition month :: "Civil \<Rightarrow> int \<Rightarrow> nat" where
  "month c d = fst (snd (ymd c d))"

definition day :: "Civil \<Rightarrow> int \<Rightarrow> nat" where
  "day c d = snd (snd (ymd c d))"

text \<open>
  The laws: a date built from year, month and day has these components, the components order dates
  lexicographically, months run from 1 to 12, and the weekday advances with the date.
\<close>

definition civil_ok :: "Civil \<Rightarrow> bool" where
  "civil_ok c \<longleftrightarrow>
     (\<forall>y m d k. from_ymd_opt c y m d = Some k \<longrightarrow> ymd c k = (y, m, d)) \<and>
     (\<forall>k k'. k < k' \<longrightarrow> ymd c k < ymd c k') \<and>
     (\<forall>k. 1 \<le> month c k \<and> month c k \<le> 12) \<and>
     (\<forall>k. weekday_of c (k + 1) = weekday_succ (weekday_of c k))"

lemma civil_less_iff: "civil_ok c \<Longrightarrow> ymd c k < ymd c k' \<longleftrightarrow> k < k'"
  unfolding civil_ok_def by (metis less_asym less_irrefl linorder_neqE)

lemma every_weekday_within_week:
  assumes "civil_ok c"
  shows "\<exists>i \<in> {1..7}. weekday_of c (k + i) = w"
proof -
  have s: "weekday_of c (x + 1) = weekday_succ (weekday_of c x)" for x
    using assms by (simp add: civil_ok_def)
  have "weekday_of c (k + 1) = weekday_succ (weekday_of c k)"
    "weekday_of c (k + 2) = weekday_succ (weekday_of c (k + 1))"
    "weekday_of c (k + 3) = weekday_succ (weekday_of c (k + 2))"
    "weekday_of c (k + 4) = weekday_succ (weekday_of c (k + 3))"
    "weekday_of c (k + 5) = weekday_succ (weekday_of c (k + 4))"
    "weekday_of c (k + 6) = weekday_succ (weekday_of c (k + 5))"
    "weekday_of c (k + 7) = weekday_succ (weekday_of c (k + 6))"
    using s [of k] s [of "k + 1"] s [of "k + 2"] s [of "k + 3"] s [of "k + 4"] s [of "k + 5"]
      s [of "k + 6"] by (simp_all add: add.assoc)
  moreover have "{1..7::int} = {1, 2, 3, 4, 5, 6, 7}" by auto
  ultimately show ?thesis by (cases "weekday_of c k"; cases w) simp_all
qed

subsection \<open>The proleptic Gregorian calendar satisfies the laws\<close>

definition leap :: "int \<Rightarrow> bool" where
  "leap y \<longleftrightarrow> y mod 4 = 0 \<and> (y mod 100 \<noteq> 0 \<or> y mod 400 = 0)"

definition month_len :: "int \<Rightarrow> nat \<Rightarrow> nat" where
  "month_len y m = (if m = 2 then (if leap y then 29 else 28) else if m \<in> {4, 6, 9, 11} then 30 else 31)"

text \<open>Days from 1 January of the year 0 to the start of a year, and to the start of a month of a year.\<close>

definition days_to_year :: "int \<Rightarrow> int" where
  "days_to_year y = 365 * y + (y + 3) div 4 - (y + 99) div 100 + (y + 399) div 400"

fun days_to_month :: "int \<Rightarrow> nat \<Rightarrow> int" where
  "days_to_month y 0 = 0"
| "days_to_month y (Suc m) = days_to_month y m + int (month_len y (Suc m))"

text \<open>The last step of a staircase that is not above \<open>r\<close>.\<close>

definition stair :: "(nat \<Rightarrow> int) \<Rightarrow> nat \<Rightarrow> int \<Rightarrow> nat" where
  "stair f n r = length (takeWhile (\<lambda>k. f (Suc k) \<le> r) [0..<n])"

definition greg_year :: "int \<Rightarrow> int" where
  "greg_year n = 400 * (n div 146097) + int (stair (\<lambda>k. days_to_year (int k)) 400 (n mod 146097))"

definition greg_ymd :: "int \<Rightarrow> int \<times> nat \<times> nat" where
  "greg_ymd n =
     (let y = greg_year n; r = n - days_to_year y; m = stair (days_to_month y) 12 r
      in (y, Suc m, nat (r - days_to_month y m) + 1))"

definition greg_day :: "int \<Rightarrow> nat \<Rightarrow> nat \<Rightarrow> int" where
  "greg_day y m d = days_to_year y + days_to_month y (m - 1) + int d - 1"

definition EPOCH_DAY :: int where
  "EPOCH_DAY = 719528"

fun weekday_num :: "int \<Rightarrow> ChronoWeekday" where
  "weekday_num i = (if i = 0 then Mon else if i = 1 then Tue else if i = 2 then Wed
     else if i = 3 then Thu else if i = 4 then Fri else if i = 5 then Sat else Sun)"

definition gregorian :: Civil where
  "gregorian = \<lparr>weekday_of = (\<lambda>d. weekday_num ((d + 3) mod 7)),
     ymd = (\<lambda>d. greg_ymd (d + EPOCH_DAY)),
     from_ymd_opt = (\<lambda>y m d. if 1 \<le> m \<and> m \<le> 12 \<and> 1 \<le> d \<and> d \<le> month_len y m
        then Some (greg_day y m d - EPOCH_DAY) else None),
     max_date = 95026601\<rparr>"

lemma stair_bounds:
  assumes "f 0 \<le> r" and "r < f n"
  shows "stair f n r < n" "f (stair f n r) \<le> r" "r < f (Suc (stair f n r))"
proof -
  let ?P = "\<lambda>k. f (Suc k) \<le> r" and ?k = "stair f n r"
  have n: "0 < n" using assms by (cases n) auto
  show lt: "?k < n"
  proof (rule ccontr)
    assume "\<not> ?k < n"
    then have "length [0..<n] \<le> length (takeWhile ?P [0..<n])" by (simp add: stair_def)
    then have "takeWhile ?P [0..<n] = [0..<n]" by (metis take_all takeWhile_eq_take)
    then have "\<forall>k \<in> set [0..<n]. ?P k" by (simp only: takeWhile_eq_all_conv)
    then have "?P (n - 1)" by (rule bspec) (use n in simp)
    with n assms(2) show False by simp
  qed
  show "r < f (Suc ?k)"
    using nth_length_takeWhile [of ?P "[0..<n]"] lt by (simp add: stair_def)
  show "f ?k \<le> r"
  proof (cases ?k)
    case 0
    with assms(1) show ?thesis by simp
  next
    case (Suc j)
    then have "j < length (takeWhile ?P [0..<n])" by (simp add: stair_def)
    then have "?P (takeWhile ?P [0..<n] ! j)" by (metis nth_mem set_takeWhileD)
    moreover have "takeWhile ?P [0..<n] ! j = j" using Suc lt
      by (simp add: stair_def takeWhile_nth)
    ultimately show ?thesis using Suc by simp
  qed
qed

lemma div_ceil_step:
  fixes y k :: int
  assumes "0 < k" and "j = k - 1"
  shows "(y + k) div k = (y + j) div k + (if y mod k = 0 then 1 else 0)"
proof -
  have y: "y = k * (y div k) + y mod k" by simp
  have r: "0 \<le> y mod k" "y mod k < k" using assms by simp_all
  have "(y + (k - 1)) div k = y div k + (if y mod k = 0 then 0 else 1)"
  proof (cases "y mod k = 0")
    case True
    have e: "y + (k - 1) = k - 1 + k * (y div k)" using y True by linarith
    have "(k - 1 + k * (y div k)) div k = y div k" using assms by simp
    then show ?thesis unfolding e using True by (simp only: if_True add_0_right simp_thms)
  next
    case False
    have "k * (y div k + 1) = k * (y div k) + k" by (simp add: distrib_left)
    then have e: "y + (k - 1) = y mod k - 1 + k * (y div k + 1)" using y by linarith
    have "0 \<le> y mod k - 1" "y mod k - 1 < k" using r False by linarith+
    then have "(y mod k - 1 + k * (y div k + 1)) div k = y div k + 1"
      using assms by (simp only: div_mult_self2 div_pos_pos_trivial add_0)
    then show ?thesis unfolding e using False by (simp only: if_False simp_thms)
  qed
  moreover have "(y + k) div k = y div k + 1" using assms(1) by (simp add: div_add_self2)
  ultimately show ?thesis unfolding assms(2) by simp
qed

lemma days_to_year_step: "days_to_year (y + 1) = days_to_year y + (if leap y then 366 else 365)"
proof -
  have m: "y mod 400 = 0 \<Longrightarrow> y mod 100 = 0" "y mod 100 = 0 \<Longrightarrow> y mod 4 = 0"
    using mod_mod_cancel [of 100 400 y] mod_mod_cancel [of 4 100 y] by simp_all
  have s: "(y + 4) div 4 = (y + 3) div 4 + (if y mod 4 = 0 then 1 else 0)"
    "(y + 100) div 100 = (y + 99) div 100 + (if y mod 100 = 0 then 1 else 0)"
    "(y + 400) div 400 = (y + 399) div 400 + (if y mod 400 = 0 then 1 else 0)"
    by (rule div_ceil_step; simp)+
  have e: "y + 1 + 3 = y + 4" "y + 1 + 99 = y + 100" "y + 1 + 399 = y + 400" by simp_all
  have sum: "365 * (y + 1) + (a + (if p then 1 else 0)) - (b + (if q then 1 else 0))
        + (c + (if r then 1 else 0)) = 365 * y + a - b + c + (if p \<and> (\<not> q \<or> r) then 366 else 365)"
    if "r \<Longrightarrow> q" "q \<Longrightarrow> p" for a b c :: int and p q r
    using that by auto
  show ?thesis
    unfolding days_to_year_def e s leap_def by (rule sum) (fact m)+
qed

lemma days_to_year_mono: "y < y' \<Longrightarrow> days_to_year (y + 1) \<le> days_to_year y'"
proof (induction y' rule: int_gr_induct)
  case (step i)
  with days_to_year_step [of i] show ?case by (simp split: if_splits)
qed simp

lemma days_to_year_400: "days_to_year (400 * q + y) = 146097 * q + days_to_year y"
proof -
  have "(400 * q + y + 3) div 4 = 100 * q + (y + 3) div 4"
    "(400 * q + y + 99) div 100 = 4 * q + (y + 99) div 100"
    "(400 * q + y + 399) div 400 = q + (y + 399) div 400"
    using div_mult_self2 [of 4 "y + 3" "100 * q"] div_mult_self2 [of 100 "y + 99" "4 * q"]
      div_mult_self2 [of 400 "y + 399" q] by (simp_all only: add.commute add.left_commute mult.assoc [symmetric])
  then show ?thesis by (simp only: days_to_year_def) simp
qed

lemma greg_year_bounds: "days_to_year (greg_year n) \<le> n" "n < days_to_year (greg_year n + 1)"
proof -
  let ?q = "n div 146097" and ?r = "n mod 146097"
  let ?f = "\<lambda>k. days_to_year (int k)"
  have "?f 0 \<le> ?r" "?r < ?f 400" by (simp_all add: days_to_year_def)
  from stair_bounds [of ?f ?r 400, OF this]
  have "?f (stair ?f 400 ?r) \<le> ?r" "?r < days_to_year (int (stair ?f 400 ?r) + 1)"
    by (simp_all add: add.commute)
  moreover have "n = 146097 * ?q + ?r" by simp
  ultimately show "days_to_year (greg_year n) \<le> n" "n < days_to_year (greg_year n + 1)"
    unfolding greg_year_def add.assoc days_to_year_400 by linarith+
qed

lemma month_len_pos: "0 < month_len y m"
  by (simp add: month_len_def)

lemma days_to_month_mono: "m < m' \<Longrightarrow> days_to_month y (Suc m) \<le> days_to_month y m'"
proof (induction m')
  case (Suc m')
  then show ?case by (cases "m = m'") auto
qed simp

lemma year_len: "days_to_year y + days_to_month y 12 = days_to_year (y + 1)"
proof -
  have "days_to_month y 12 = (if leap y then 366 else 365)"
    by (simp add: eval_nat_numeral month_len_def)
  then show ?thesis by (simp add: days_to_year_step)
qed

definition valid_ymd :: "int \<times> nat \<times> nat \<Rightarrow> bool" where
  "valid_ymd = (\<lambda>(y, m, d). 1 \<le> m \<and> m \<le> 12 \<and> 1 \<le> d \<and> d \<le> month_len y m)"

lemma greg_ymd_valid: "valid_ymd (greg_ymd n) \<and> (case greg_ymd n of (y, m, d) \<Rightarrow> greg_day y m d = n)"
proof -
  let ?y = "greg_year n"
  let ?r = "n - days_to_year ?y"
  let ?m = "stair (days_to_month ?y) 12 ?r"
  have r: "days_to_month ?y 0 \<le> ?r" "?r < days_to_month ?y 12"
    using greg_year_bounds [of n] year_len [of ?y] by simp_all
  have b: "?m < 12" "days_to_month ?y ?m \<le> ?r" "?r < days_to_month ?y (Suc ?m)"
    using stair_bounds [of "days_to_month ?y" ?r 12, OF r] by simp_all
  have e: "greg_ymd n = (?y, Suc ?m, nat (?r - days_to_month ?y ?m) + 1)"
    by (simp add: greg_ymd_def Let_def)
  show ?thesis
    unfolding e using b by (auto simp: valid_ymd_def greg_day_def)
qed

lemma greg_day_mono:
  assumes "valid_ymd (y, m, d)" and "valid_ymd (y', m', d')" and "(y, m, d) < (y', m', d')"
  shows "greg_day y m d < greg_day y' m' d'"
proof -
  have up: "greg_day y m d < days_to_year y + days_to_month y m"
    using assms(1) by (cases m) (auto simp: greg_day_def valid_ymd_def)
  have lo: "days_to_year y' + days_to_month y' (m' - 1) \<le> greg_day y' m' d'"
    using assms(2) by (auto simp: greg_day_def valid_ymd_def)
  consider "y < y'" | "y = y'" "m < m'" | "y = y'" "m = m'" "d < d'"
    using assms(3) by (auto simp: less_prod_def')
  then show ?thesis
  proof cases
    case 1
    have "days_to_month y m \<le> days_to_month y 12"
      using assms(1) days_to_month_mono [of "m - 1" 12 y] by (cases m) (auto simp: valid_ymd_def)
    moreover have "0 \<le> days_to_month y' k" for k
      by (induction k) simp_all
    from this [of "m' - 1"] have "0 \<le> days_to_month y' (m' - 1)" .
    ultimately show ?thesis using up lo days_to_year_mono [OF 1] year_len [of y] by linarith
  next
    case 2
    then have "days_to_month y m \<le> days_to_month y (m' - 1)"
      using assms(1) days_to_month_mono [of "m - 1" "m' - 1" y] by (cases m) (auto simp: valid_ymd_def)
    then show ?thesis using up lo 2 by simp
  qed (simp add: greg_day_def)
qed

lemma greg_ymd_greg_day:
  assumes "valid_ymd (y, m, d)"
  shows "greg_ymd (greg_day y m d) = (y, m, d)"
proof -
  obtain y' m' d' where e: "greg_ymd (greg_day y m d) = (y', m', d')" by (metis prod_cases3)
  with greg_ymd_valid [of "greg_day y m d"]
  have v: "valid_ymd (y', m', d')" "greg_day y' m' d' = greg_day y m d" by simp_all
  show ?thesis
    using greg_day_mono [OF assms v(1)] greg_day_mono [OF v(1) assms] v(2) e
    by (metis less_irrefl linorder_neqE)
qed

lemma greg_ymd_mono:
  assumes "k < k'"
  shows "greg_ymd k < greg_ymd k'"
proof -
  obtain y m d y' m' d' where e: "greg_ymd k = (y, m, d)" "greg_ymd k' = (y', m', d')"
    by (metis prod_cases3)
  with greg_ymd_valid [of k] greg_ymd_valid [of k'] have
    v: "valid_ymd (y, m, d)" "greg_day y m d = k" "valid_ymd (y', m', d')" "greg_day y' m' d' = k'"
    by simp_all
  show ?thesis
  proof (rule ccontr)
    assume "\<not> greg_ymd k < greg_ymd k'"
    then consider "greg_ymd k = greg_ymd k'" | "(y', m', d') < (y, m, d)"
      unfolding e by (meson linorder_neqE)
    then show False
      using greg_day_mono [OF v(3,1)] v e assms by cases auto
  qed
qed

lemma weekday_num_step: "weekday_num ((k + 1) mod 7) = weekday_succ (weekday_num (k mod 7))"
proof -
  have "(k + 1) mod 7 = (k mod 7 + 1) mod 7" by (simp add: mod_simps)
  moreover have "k mod 7 \<in> {0, 1, 2, 3, 4, 5, 6}" by auto
  ultimately show ?thesis by auto
qed

lemma gregorian_ok: "civil_ok gregorian"
  unfolding civil_ok_def
proof (intro conjI allI impI)
  fix y m d k
  assume "from_ymd_opt gregorian y m d = Some k"
  then have "valid_ymd (y, m, d)" "k = greg_day y m d - EPOCH_DAY"
    by (auto simp: gregorian_def valid_ymd_def split: if_splits)
  then show "ymd gregorian k = (y, m, d)" by (simp add: gregorian_def greg_ymd_greg_day)
next
  fix k k' :: int
  assume "k < k'"
  then show "ymd gregorian k < ymd gregorian k'" by (simp add: gregorian_def greg_ymd_mono)
next
  fix k
  show "1 \<le> month gregorian k" "month gregorian k \<le> 12"
    using greg_ymd_valid [of "k + EPOCH_DAY"]
    by (auto simp: month_def gregorian_def valid_ymd_def split: prod.splits)
next
  fix k
  show "weekday_of gregorian (k + 1) = weekday_succ (weekday_of gregorian k)"
    using weekday_num_step [of "k + 3"]
    by (simp add: gregorian_def add.commute add.left_commute del: weekday_num.simps)
qed

end
