(* ===== verification/Schedule.thy ===== *)
theory Schedule
  imports Config_Ast Chrono
begin

text \<open>
  Schedule evaluation, \<^verbatim>\<open>croniq-scheduler/src/schedule.rs\<close>: the compiled schedules, their construction
  from the syntax tree, the next fire time after an instant in a time zone, and the texts shown to
  the user. The civil calendar \<open>c\<close> and the zone \<open>z\<close> are parameters (theory \<open>Chrono\<close>), as are the date-time
  parsers and the RFC 3339 printer of \<^verbatim>\<open>chrono\<close>.
\<close>

subsection \<open>Data\<close>

datatype MonthDay = MD_Day nat | MD_Last

datatype Schedule =
    Interval nat
  | Daily int
  | Weekdays "ChronoWeekday list" int
  | Monthly "MonthDay list" int
  | Once instant
  | Disabled

datatype ScheduleError = InvalidInterval string | InvalidTime string | InvalidDatetime string

subsection \<open>Helpers\<close>

fun gap_steps :: "Tz \<Rightarrow> int \<Rightarrow> int list \<Rightarrow> instant option" where
  "gap_steps z naive [] = None"
| "gap_steps z naive (k # ks) =
     (case from_local z (naive + k * MIN_NS) of
        Single dt \<Rightarrow> Some dt
      | Ambiguous dt _ \<Rightarrow> Some dt
      | MNone \<Rightarrow> gap_steps z naive ks)"

definition resolve_local :: "Tz \<Rightarrow> int \<Rightarrow> instant option" where
  "resolve_local z naive =
     (case from_local z naive of
        Single dt \<Rightarrow> Some dt
      | Ambiguous earliest _ \<Rightarrow> Some earliest
      | MNone \<Rightarrow> gap_steps z naive [1..180])"

definition resolve_local_at_or_after :: "Tz \<Rightarrow> int \<Rightarrow> instant \<Rightarrow> instant option" where
  "resolve_local_at_or_after z naive floor =
     (case from_local z naive of
        Ambiguous earliest latest \<Rightarrow> Some (if earliest \<ge> floor then earliest else latest)
      | _ \<Rightarrow> resolve_local z naive)"

fun ast_weekday_to_chrono :: "Weekday \<Rightarrow> ChronoWeekday" where
  "ast_weekday_to_chrono Monday = Mon"
| "ast_weekday_to_chrono Tuesday = Tue"
| "ast_weekday_to_chrono Wednesday = Wed"
| "ast_weekday_to_chrono Thursday = Thu"
| "ast_weekday_to_chrono Friday = Fri"
| "ast_weekday_to_chrono Saturday = Sat"
| "ast_weekday_to_chrono Sunday = Sun"

fun weekday_name :: "ChronoWeekday \<Rightarrow> string" where
  "weekday_name Mon = ''monday''"
| "weekday_name Tue = ''tuesday''"
| "weekday_name Wed = ''wednesday''"
| "weekday_name Thu = ''thursday''"
| "weekday_name Fri = ''friday''"
| "weekday_name Sat = ''saturday''"
| "weekday_name Sun = ''sunday''"

definition format_ordinal :: "nat \<Rightarrow> string" where
  "format_ordinal d =
     show_nat d @
     (if d = 1 \<or> d = 21 \<or> d = 31 then ''st''
      else if d = 2 \<or> d = 22 then ''nd''
      else if d = 3 \<or> d = 23 then ''rd''
      else ''th'')"

definition add_months :: "int \<Rightarrow> nat \<Rightarrow> nat \<Rightarrow> int \<times> nat" where
  "add_months y m ofs =
     (let total = (m - 1) + ofs in (y + int (total div 12), total mod 12 + 1))"

text \<open>The day before the first of the next month; the source's \<^verbatim>\<open>unwrap\<close> panics only past the last
  representable year, where this definition returns no day of any month.\<close>

definition last_day_of_month :: "Civil \<Rightarrow> int \<Rightarrow> nat \<Rightarrow> nat" where
  "last_day_of_month c y m =
     (let (next_year, next_month) = (if m = 12 then (y + 1, 1) else (y, m + 1))
      in case from_ymd_opt c next_year next_month 1 of
           Some d \<Rightarrow> day c (d - 1)
         | None \<Rightarrow> 0)"

definition parse_datetime ::
  "(string \<Rightarrow> instant option) \<Rightarrow> (string \<Rightarrow> instant option) \<Rightarrow> string \<Rightarrow> ScheduleError + instant" where
  "parse_datetime rfc3339 naive s =
     (case rfc3339 s of
        Some dt \<Rightarrow> Inr dt
      | None \<Rightarrow> (case naive s of Some dt \<Rightarrow> Inr dt | None \<Rightarrow> Inl (InvalidDatetime s)))"

subsection \<open>Compilation\<close>

definition compile_time :: "TimeValue \<Rightarrow> ScheduleError + int" where
  "compile_time time =
     (case from_hms_opt (tv_hour time) (tv_minute time) 0 of
        Some t \<Rightarrow> Inr t
      | None \<Rightarrow> Inl (InvalidTime (show_nat (tv_hour time) @ '':'' @ show_nat (tv_minute time))))"

fun month_day_of :: "MonthOrdinal \<Rightarrow> MonthDay" where
  "month_day_of (MO_Day d) = MD_Day d"
| "month_day_of MO_Last = MD_Last"

fun interval_seconds :: "nat \<Rightarrow> IntervalUnit \<Rightarrow> nat" where
  "interval_seconds count Seconds = count"
| "interval_seconds count Minutes = count * 60"
| "interval_seconds count Hours = count * 3600"

fun from_ast ::
  "(string \<Rightarrow> instant option) \<Rightarrow> (string \<Rightarrow> instant option) \<Rightarrow> ScheduleKind \<Rightarrow> ScheduleError + Schedule" where
  "from_ast rfc3339 naive (K_Interval count unit) =
     (let secs = interval_seconds count unit
      in if secs = 0 then Inl (InvalidInterval ''interval must be > 0'') else Inr (Interval secs))"
| "from_ast rfc3339 naive (K_Daily time) =
     (case compile_time time of Inl e \<Rightarrow> Inl e | Inr t \<Rightarrow> Inr (Daily t))"
| "from_ast rfc3339 naive (K_Weekdays days time) =
     (case compile_time time of
        Inl e \<Rightarrow> Inl e
      | Inr t \<Rightarrow> Inr (Weekdays (map ast_weekday_to_chrono days) t))"
| "from_ast rfc3339 naive (K_Monthly ordinals time) =
     (case compile_time time of
        Inl e \<Rightarrow> Inl e
      | Inr t \<Rightarrow> Inr (Monthly (map month_day_of ordinals) t))"
| "from_ast rfc3339 naive (K_Once at) =
     (case parse_datetime rfc3339 naive (sv_value at) of Inl e \<Rightarrow> Inl e | Inr dt \<Rightarrow> Inr (Once dt))"
| "from_ast rfc3339 naive K_Disabled = Inr Disabled"

subsection \<open>Next fire times\<close>

fun scan_days ::
  "Civil \<Rightarrow> Tz \<Rightarrow> ChronoWeekday list \<Rightarrow> int \<Rightarrow> instant \<Rightarrow> int \<Rightarrow> int list \<Rightarrow> instant option" where
  "scan_days c z days time after today [] = None"
| "scan_days c z days time after today (ofs # ofss) =
     (let date = today + ofs
      in if weekday_of c date \<in> set days then
           (case resolve_local z (and_time date time) of
              Some candidate \<Rightarrow>
                if candidate > after then Some candidate else scan_days c z days time after today ofss
            | None \<Rightarrow> scan_days c z days time after today ofss)
         else scan_days c z days time after today ofss)"

definition ordinal_fire ::
  "Civil \<Rightarrow> Tz \<Rightarrow> int \<Rightarrow> int \<Rightarrow> nat \<Rightarrow> MonthDay \<Rightarrow> instant option" where
  "ordinal_fire c z time y m ordinal =
     (let d = (case ordinal of MD_Day d \<Rightarrow> d | MD_Last \<Rightarrow> last_day_of_month c y m)
      in case from_ymd_opt c y m d of
           None \<Rightarrow> None
         | Some date \<Rightarrow> resolve_local z (and_time date time))"

fun min_opt :: "int list \<Rightarrow> int option" where
  "min_opt [] = None"
| "min_opt (x # xs) = (case min_opt xs of None \<Rightarrow> Some x | Some y \<Rightarrow> Some (min x y))"

fun scan_months ::
  "Civil \<Rightarrow> Tz \<Rightarrow> MonthDay list \<Rightarrow> int \<Rightarrow> instant \<Rightarrow> int \<Rightarrow> nat list \<Rightarrow> instant option" where
  "scan_months c z ordinals time after today [] = None"
| "scan_months c z ordinals time after today (ofs # ofss) =
     (let (y, m) = add_months (year c today) (month c today) ofs;
          earliest = min_opt (filter (\<lambda>t. t > after) (List.map_filter (ordinal_fire c z time y m) ordinals))
      in case earliest of
           Some t \<Rightarrow> Some t
         | None \<Rightarrow> scan_months c z ordinals time after today ofss)"

fun next_fire_after :: "Civil \<Rightarrow> Tz \<Rightarrow> Schedule \<Rightarrow> instant \<Rightarrow> instant option" where
  "next_fire_after c z Disabled after = None"
| "next_fire_after c z (Interval secs) after = Some (after + int secs * SEC_NS)"
| "next_fire_after c z (Daily time) after =
     (let today = date_of (to_local z after)
      in case resolve_local z (and_time today time) of
           Some candidate \<Rightarrow>
             if candidate > after then Some candidate else resolve_local z (and_time (today + 1) time)
         | None \<Rightarrow> resolve_local z (and_time (today + 1) time))"
| "next_fire_after c z (Weekdays days time) after =
     scan_days c z days time after (date_of (to_local z after)) [0..7]"
| "next_fire_after c z (Monthly ordinals time) after =
     scan_months c z ordinals time after (date_of (to_local z after)) [0, 1, 2]"
| "next_fire_after c z (Once at) after = (if at > after then Some at else None)"

fun next_n_fires :: "Civil \<Rightarrow> Tz \<Rightarrow> Schedule \<Rightarrow> instant \<Rightarrow> nat \<Rightarrow> instant list" where
  "next_n_fires c z s cursor 0 = []"
| "next_n_fires c z s cursor (Suc n) =
     (case next_fire_after c z s cursor of
        Some next \<Rightarrow> next # next_n_fires c z s next n
      | None \<Rightarrow> [])"

subsection \<open>Summaries\<close>

definition format_hm :: "int \<Rightarrow> string" where
  "format_hm t =
     (let s = nat (num_seconds_from_midnight t)
      in two_digits (s div 3600) @ '':'' @ two_digits (s mod 3600 div 60))"

definition plural_unit :: "nat \<Rightarrow> string \<Rightarrow> string" where
  "plural_unit n u = ''every '' @ show_nat n @ '' '' @ u @ (if n = 1 then [] else ''s'')"

fun summary :: "(instant \<Rightarrow> string) \<Rightarrow> Schedule \<Rightarrow> string" where
  "summary rfc3339 (Interval secs) =
     (if secs \<ge> 3600 \<and> secs mod 3600 = 0 then plural_unit (secs div 3600) ''hour''
      else if secs \<ge> 60 \<and> secs mod 60 = 0 then plural_unit (secs div 60) ''minute''
      else plural_unit secs ''second'')"
| "summary rfc3339 (Daily time) = ''every day at '' @ format_hm time"
| "summary rfc3339 (Weekdays days time) =
     ''every '' @ join '', '' (map weekday_name days) @ '' at '' @ format_hm time"
| "summary rfc3339 (Monthly ordinals time) =
     ''every '' @ join '', '' (map (\<lambda>ord. case ord of MD_Day d \<Rightarrow> format_ordinal d | MD_Last \<Rightarrow> ''last'') ordinals)
     @ '' of month at '' @ format_hm time"
| "summary rfc3339 (Once at) = ''once at '' @ rfc3339 at"
| "summary rfc3339 Disabled = ''disabled''"

subsection \<open>Specification\<close>

text \<open>
  The fire times a wall-clock schedule stands for: one per matching date, at the first instant that
  shows the wanted local time, or the first existing minute after it.
\<close>

fun fires_at :: "Civil \<Rightarrow> Tz \<Rightarrow> Schedule \<Rightarrow> instant \<Rightarrow> bool" where
  "fires_at c z (Daily time) u \<longleftrightarrow> (\<exists>d. resolve_local z (and_time d time) = Some u)"
| "fires_at c z (Weekdays days time) u \<longleftrightarrow>
     (\<exists>d. weekday_of c d \<in> set days \<and> resolve_local z (and_time d time) = Some u)"
| "fires_at c z (Monthly ordinals time) u \<longleftrightarrow>
     (\<exists>y m ord. ord \<in> set ordinals \<and> ordinal_fire c z time y m ord = Some u)"
| "fires_at c z (Once at) u \<longleftrightarrow> u = at"
| "fires_at c z (Interval secs) u \<longleftrightarrow> False"
| "fires_at c z Disabled u \<longleftrightarrow> False"

text \<open>What \<open>from_ast\<close> establishes of a schedule: a positive interval, a time of day on a whole minute.\<close>

fun schedule_ok :: "Schedule \<Rightarrow> bool" where
  "schedule_ok (Interval secs) \<longleftrightarrow> 0 < secs"
| "schedule_ok (Daily time) \<longleftrightarrow> valid_time time \<and> time mod MIN_NS = 0"
| "schedule_ok (Weekdays days time) \<longleftrightarrow> valid_time time \<and> time mod MIN_NS = 0"
| "schedule_ok (Monthly ordinals time) \<longleftrightarrow> valid_time time \<and> time mod MIN_NS = 0"
| "schedule_ok _ \<longleftrightarrow> True"

definition zone_regular :: "Tz \<Rightarrow> bool" where
  "zone_regular z \<longleftrightarrow> zone_ok z \<and> gaps_on_minutes z \<and> folds_within_day z"

subsection \<open>Lemmas: resolving local times\<close>

lemma gap_steps_upto:
  "gap_steps z l [i..n] = Some u \<Longrightarrow>
     \<exists>k. i \<le> k \<and> k \<le> n \<and> first_at z (l + k * MIN_NS) = Some u \<and>
       (\<forall>j. i \<le> j \<longrightarrow> j < k \<longrightarrow> from_local z (l + j * MIN_NS) = MNone)"
proof (induction i n rule: upto.induct)
  case (1 i n)
  from "1.prems" have le: "i \<le> n" by (cases "i \<le> n") auto
  then have u: "[i..n] = i # [i + 1..n]" by (simp add: upto_rec1)
  show ?case
  proof (cases "from_local z (l + i * MIN_NS)")
    case MNone
    with "1.prems" u have "gap_steps z l [i + 1..n] = Some u" by simp
    from "1.IH" [OF le this] obtain k where
      k: "i + 1 \<le> k" "k \<le> n" "first_at z (l + k * MIN_NS) = Some u"
        "\<forall>j. i + 1 \<le> j \<longrightarrow> j < k \<longrightarrow> from_local z (l + j * MIN_NS) = MNone" by blast
    have "\<forall>j. i \<le> j \<longrightarrow> j < k \<longrightarrow> from_local z (l + j * MIN_NS) = MNone"
    proof (intro allI impI)
      fix j assume "i \<le> j" "j < k"
      then show "from_local z (l + j * MIN_NS) = MNone" using k(4) MNone by (cases "j = i") auto
    qed
    with k show ?thesis by (intro exI [of _ k]) simp
  qed (use "1.prems" u le in \<open>auto simp: first_at_def intro!: exI [of _ i]\<close>)
qed

lemma resolve_first:
  assumes "resolve_local z l = Some u"
  shows "\<exists>k. 0 \<le> k \<and> k \<le> 180 \<and> first_at z (l + k * MIN_NS) = Some u \<and>
    (\<forall>j. 0 \<le> j \<longrightarrow> j < k \<longrightarrow> from_local z (l + j * MIN_NS) = MNone)"
proof (cases "from_local z l")
  case MNone
  with assms have "gap_steps z l [1..180] = Some u" by (simp add: resolve_local_def)
  from gap_steps_upto [OF this] obtain k where
    k: "1 \<le> k" "k \<le> 180" "first_at z (l + k * MIN_NS) = Some u"
      "\<forall>j. 1 \<le> j \<longrightarrow> j < k \<longrightarrow> from_local z (l + j * MIN_NS) = MNone" by blast
  have "\<forall>j. 0 \<le> j \<longrightarrow> j < k \<longrightarrow> from_local z (l + j * MIN_NS) = MNone"
  proof (intro allI impI)
    fix j assume "0 \<le> j" "j < k"
    then show "from_local z (l + j * MIN_NS) = MNone" using k(4) MNone by (cases "j = 0") auto
  qed
  with k show ?thesis by (intro exI [of _ k]) simp
qed (use assms in \<open>auto simp: resolve_local_def first_at_def intro!: exI [of _ 0]\<close>)

lemma gap_steps_total:
  "k \<in> set ks \<Longrightarrow> from_local z (l + k * MIN_NS) \<noteq> MNone \<Longrightarrow> gap_steps z l ks \<noteq> None"
  by (induction ks) (auto split: MappedLocalTime.splits)

lemma resolve_total: "gaps_bounded z \<Longrightarrow> \<exists>u. resolve_local z l = Some u"
proof (cases "from_local z l")
  case MNone
  assume "gaps_bounded z"
  with MNone obtain k where "k \<in> {1..180}" "from_local z (l + k * MIN_NS) \<noteq> MNone"
    by (auto simp: gaps_bounded_def)
  with gap_steps_total [of k "[1..180]" z l] MNone show ?thesis by (auto simp: resolve_local_def)
qed (simp_all add: resolve_local_def)

lemma resolve_mono:
  assumes "zone_ok z" and "resolve_local z (and_time d t) = Some u"
    and "resolve_local z (and_time d' t) = Some u'" and "d < d'"
  shows "u < u'"
proof -
  from resolve_first [OF assms(2)] obtain k where
    k: "k \<le> 180" "first_at z (and_time d t + k * MIN_NS) = Some u" by blast
  from resolve_first [OF assms(3)] obtain k' where
    k': "0 \<le> k'" "first_at z (and_time d' t + k' * MIN_NS) = Some u'" by blast
  have "d * DAY_NS + k * MIN_NS < d' * DAY_NS + k' * MIN_NS"
    using k(1) k'(1) assms(4) by (simp add: ns_defs)
  then have "and_time d t + k * MIN_NS < and_time d' t + k' * MIN_NS"
    by (simp add: and_time_def)
  from first_at_mono [OF assms(1) k(2) k'(2) this] show ?thesis .
qed

lemma resolve_future:
  assumes "zone_ok z" and "folds_within_day z" and "valid_time t"
    and "date_of (to_local z after) < d" and "resolve_local z (and_time d t) = Some u"
  shows "after < u"
proof (rule ccontr)
  assume nlt: "\<not> after < u"
  from resolve_first [OF assms(5)] obtain k where
    k: "0 \<le> k" "first_at z (and_time d t + k * MIN_NS) = Some u" by blast
  let ?l = "and_time d t + k * MIN_NS"
  have "date_of (and_time d t) \<le> date_of ?l" using k(1) by (intro date_of_mono) (simp add: MIN_NS_def)
  then have dl: "date_of (to_local z after) < date_of ?l" using assms(3,4) by simp
  then have ll: "to_local z after < ?l" by (rule date_of_less)
  have u: "to_local z u = ?l" by (rule first_at_Some(1) [OF assms(1) k(2)])
  with nlt ll have lt: "u < after" by (metis less_irrefl linorder_neqE)
  show False
  proof (cases "from_local z ?l")
    case (Single v)
    with k(2) zone_maps [OF assms(1) Single] lt ll show False by (auto simp: first_at_def maps_to_def)
  next
    case (Ambiguous e f)
    with k(2) have e: "e = u" by (simp add: first_at_def)
    have "after \<le> f"
      using zone_maps [OF assms(1) Ambiguous] ll by (auto simp: maps_to_def) (meson less_asym not_le)
    with Ambiguous e lt assms(2) have "date_of (to_local z after) = date_of ?l"
      by (auto simp: folds_within_day_def)
    with dl show False by simp
  qed (use k(2) in \<open>simp add: first_at_def\<close>)
qed

lemma minute_gap_unreached:
  assumes "zone_ok z" and "gaps_on_minutes z" and "l mod MIN_NS = 0"
    and "\<forall>j. 0 \<le> j \<longrightarrow> j < k \<longrightarrow> from_local z (l + j * MIN_NS) = MNone"
    and "l \<le> to_local z w"
  shows "l + k * MIN_NS \<le> to_local z w"
proof (rule ccontr)
  assume "\<not> l + k * MIN_NS \<le> to_local z w"
  define j where "j = (to_local z w - l) div MIN_NS"
  have m: "0 < MIN_NS" by (simp add: MIN_NS_def)
  have e: "to_local z w - l = j * MIN_NS + (to_local z w - l) mod MIN_NS" by (simp add: j_def)
  have r: "0 \<le> (to_local z w - l) mod MIN_NS" "(to_local z w - l) mod MIN_NS < MIN_NS"
    using m by simp_all
  have j: "l + j * MIN_NS \<le> to_local z w" "to_local z w < l + j * MIN_NS + MIN_NS"
    using e r by linarith+
  have j0: "0 \<le> j" using assms(5) m by (simp add: j_def pos_imp_zdiv_nonneg_iff)
  have "j * MIN_NS < k * MIN_NS" using j \<open>\<not> l + k * MIN_NS \<le> to_local z w\<close> by linarith
  then have "j < k" using m by (simp add: mult_less_cancel_right)
  with assms(4) j0 have "from_local z (l + j * MIN_NS) = MNone" by blast
  moreover have "to_local z w div MIN_NS = (l + j * MIN_NS) div MIN_NS"
  proof -
    from assms(3) obtain q where q: "l = MIN_NS * q" by (metis mod_0_imp_dvd dvdE)
    from j show ?thesis unfolding q by (simp add: MIN_NS_def)
  qed
  ultimately have "from_local z (to_local z w) = MNone" using assms(2) unfolding gaps_on_minutes_def by blast
  with gap_unreached [OF assms(1), of "to_local z w" w] show False by simp
qed

lemma and_time_minute: "t mod MIN_NS = 0 \<Longrightarrow> and_time d t mod MIN_NS = 0"
proof -
  have "DAY_NS = 1440 * MIN_NS" by (simp add: ns_defs)
  then have "d * DAY_NS = MIN_NS * (1440 * d)" by simp
  then show "t mod MIN_NS = 0 \<Longrightarrow> and_time d t mod MIN_NS = 0"
    unfolding and_time_def by (metis mod_mult_self4)
qed

lemma resolve_past:
  assumes "zone_ok z" and "gaps_on_minutes z" and "valid_time t" and "t mod MIN_NS = 0"
    and "d < date_of (to_local z after)" and "resolve_local z (and_time d t) = Some u"
  shows "u \<le> after"
proof (rule ccontr)
  assume "\<not> u \<le> after"
  then have lt: "after < u" by simp
  from resolve_first [OF assms(6)] obtain k where
    k: "first_at z (and_time d t + k * MIN_NS) = Some u"
      "\<forall>j. 0 \<le> j \<longrightarrow> j < k \<longrightarrow> from_local z (and_time d t + j * MIN_NS) = MNone" by blast
  have "date_of (and_time d t) < date_of (to_local z after)" using assms(3,5) by simp
  then have "and_time d t \<le> to_local z after" using date_of_less by force
  from minute_gap_unreached [OF assms(1,2) and_time_minute [OF assms(4)] k(2) this]
  have "and_time d t + k * MIN_NS \<le> to_local z after" .
  moreover have "to_local z after < and_time d t + k * MIN_NS"
    by (rule first_at_Some(2) [OF assms(1) k(1) lt])
  ultimately show False by simp
qed

subsection \<open>Lemmas: the next fire time\<close>

text \<open>The least fire time after an instant.\<close>

definition least_after :: "(instant \<Rightarrow> bool) \<Rightarrow> instant \<Rightarrow> instant \<Rightarrow> bool" where
  "least_after P after u \<longleftrightarrow> after < u \<and> P u \<and> (\<forall>v. P v \<longrightarrow> after < v \<longrightarrow> u \<le> v)"

lemma date_scan_least:
  assumes "zone_regular z" and "valid_time t" and "t mod MIN_NS = 0"
    and "date_of (to_local z after) \<le> d" and "M d" and "resolve_local z (and_time d t) = Some u"
    and "after < u"
    and "\<And>d' v. date_of (to_local z after) \<le> d' \<Longrightarrow> d' < d \<Longrightarrow> M d' \<Longrightarrow>
           resolve_local z (and_time d' t) = Some v \<Longrightarrow> v \<le> after"
  shows "least_after (\<lambda>u. \<exists>d. M d \<and> resolve_local z (and_time d t) = Some u) after u"
  unfolding least_after_def
proof (intro conjI allI impI)
  show "\<exists>d. M d \<and> resolve_local z (and_time d t) = Some u" using assms(5,6) by blast
next
  fix v
  assume "\<exists>d. M d \<and> resolve_local z (and_time d t) = Some v" and v: "after < v"
  then obtain d' where d': "M d'" "resolve_local z (and_time d' t) = Some v" by blast
  have z: "zone_ok z" "gaps_on_minutes z" using assms(1) by (simp_all add: zone_regular_def)
  have "\<not> d' < date_of (to_local z after)" using resolve_past [OF z assms(2,3) _ d'(2)] v by fastforce
  moreover have "\<not> (date_of (to_local z after) \<le> d' \<and> d' < d)" using assms(8) [of d' v] d' v by fastforce
  ultimately consider "d' = d" | "d < d'" by linarith
  then show "u \<le> v"
    using d'(2) assms(6) resolve_mono [OF z(1) assms(6) d'(2)] by cases auto
qed (fact assms(7))

lemma daily_least:
  assumes "zone_regular z" and "valid_time t" and "t mod MIN_NS = 0"
    and "next_fire_after c z (Daily t) after = Some u"
  shows "least_after (fires_at c z (Daily t)) after u"
proof -
  let ?today = "date_of (to_local z after)"
  have z: "zone_ok z" "folds_within_day z" using assms(1) by (simp_all add: zone_regular_def)
  have f: "fires_at c z (Daily t) = (\<lambda>u. \<exists>d. True \<and> resolve_local z (and_time d t) = Some u)"
    by (simp add: fun_eq_iff)
  consider (today) "resolve_local z (and_time ?today t) = Some u" "after < u"
    | (tomorrow) "resolve_local z (and_time (?today + 1) t) = Some u"
        "\<And>v. resolve_local z (and_time ?today t) = Some v \<Longrightarrow> v \<le> after"
    using assms(4) by (auto simp: Let_def not_less split: option.splits if_splits)
  then show ?thesis
  proof cases
    case today
    show ?thesis
      unfolding f by (rule date_scan_least [where M = "\<lambda>_. True", OF assms(1-3) _ _ today]) auto
  next
    case tomorrow
    have "after < u" using resolve_future [OF z assms(2) _ tomorrow(1)] by simp
    then show ?thesis
      unfolding f
    proof (intro date_scan_least [where M = "\<lambda>_. True", OF assms(1-3) _ _ tomorrow(1)])
      fix d v
      assume "?today \<le> d" "d < ?today + 1" "resolve_local z (and_time d t) = Some v"
      moreover from this have "d = ?today" by linarith
      ultimately show "v \<le> after" using tomorrow(2) by simp
    qed simp_all
  qed
qed

lemma scan_days_upto:
  "scan_days c z days t after today [i..n] = Some u \<Longrightarrow>
     \<exists>k. i \<le> k \<and> k \<le> n \<and> weekday_of c (today + k) \<in> set days \<and>
       resolve_local z (and_time (today + k) t) = Some u \<and> after < u \<and>
       (\<forall>j v. i \<le> j \<longrightarrow> j < k \<longrightarrow> weekday_of c (today + j) \<in> set days \<longrightarrow>
          resolve_local z (and_time (today + j) t) = Some v \<longrightarrow> v \<le> after)"
proof (induction i n rule: upto.induct)
  case (1 i n)
  from "1.prems" have le: "i \<le> n" by (cases "i \<le> n") auto
  then have e: "[i..n] = i # [i + 1..n]" by (simp add: upto_rec1)
  show ?case
  proof (cases "weekday_of c (today + i) \<in> set days \<and>
      (\<exists>v. resolve_local z (and_time (today + i) t) = Some v \<and> after < v)")
    case True
    with "1.prems" e le show ?thesis by (intro exI [of _ i]) auto
  next
    case False
    with "1.prems" e have "scan_days c z days t after today [i + 1..n] = Some u"
      by (auto simp: Let_def split: option.splits if_splits)
    from "1.IH" [OF le this] obtain k where
      k: "i + 1 \<le> k" "k \<le> n" "weekday_of c (today + k) \<in> set days"
        "resolve_local z (and_time (today + k) t) = Some u" "after < u"
        "\<forall>j v. i + 1 \<le> j \<longrightarrow> j < k \<longrightarrow> weekday_of c (today + j) \<in> set days \<longrightarrow>
           resolve_local z (and_time (today + j) t) = Some v \<longrightarrow> v \<le> after" by blast
    have "v \<le> after" if "i \<le> j" "j < k" "weekday_of c (today + j) \<in> set days"
      "resolve_local z (and_time (today + j) t) = Some v" for j v
    proof (cases "j = i")
      case False
      with that have "i + 1 \<le> j" by linarith
      with that k(6) show ?thesis by blast
    qed (use that False in auto)
    with k show ?thesis by (intro exI [of _ k]) auto
  qed
qed

lemma weekdays_least:
  assumes "zone_regular z" and "valid_time t" and "t mod MIN_NS = 0"
    and "next_fire_after c z (Weekdays days t) after = Some u"
  shows "least_after (fires_at c z (Weekdays days t)) after u"
proof -
  let ?today = "date_of (to_local z after)"
  have f: "fires_at c z (Weekdays days t) =
      (\<lambda>u. \<exists>d. weekday_of c d \<in> set days \<and> resolve_local z (and_time d t) = Some u)"
    by (simp add: fun_eq_iff)
  from assms(4) have "scan_days c z days t after ?today [0..7] = Some u" by simp
  from scan_days_upto [OF this] obtain k where
    k: "0 \<le> k" "weekday_of c (?today + k) \<in> set days"
      "resolve_local z (and_time (?today + k) t) = Some u" "after < u"
      "\<forall>j v. 0 \<le> j \<longrightarrow> j < k \<longrightarrow> weekday_of c (?today + j) \<in> set days \<longrightarrow>
          resolve_local z (and_time (?today + j) t) = Some v \<longrightarrow> v \<le> after" by blast
  have "v \<le> after" if "?today \<le> d" "d < ?today + k" "weekday_of c d \<in> set days"
    "resolve_local z (and_time d t) = Some v" for d v
    using k(5) [rule_format, of "d - ?today" v] that by simp
  then show ?thesis
    unfolding f using k(1)
    by (intro date_scan_least [where M = "\<lambda>d. weekday_of c d \<in> set days", OF assms(1-3) _ k(2-4)]) auto
qed

definition month_idx :: "int \<Rightarrow> nat \<Rightarrow> int" where
  "month_idx y m = 12 * y + int m - 1"

lemma month_idx_mono:
  assumes "civil_ok c" and "k \<le> k'"
  shows "month_idx (year c k) (month c k) \<le> month_idx (year c k') (month c k')"
proof (cases "k = k'")
  case False
  with assms have "ymd c k < ymd c k'" by (simp add: civil_ok_def)
  moreover have "month c k \<le> 12" "1 \<le> month c k'" using assms(1) by (auto simp: civil_ok_def)
  ultimately show ?thesis
    by (cases "ymd c k"; cases "ymd c k'") (auto simp: month_idx_def year_def month_def less_prod_def')
qed simp

lemma add_months_idx:
  assumes "add_months y m ofs = (y', m')" and "1 \<le> m"
  shows "month_idx y' m' = month_idx y m + int ofs" "1 \<le> m'" "m' \<le> 12"
proof -
  let ?t = "(m - 1) + ofs"
  have y: "y' = y + int (?t div 12)" and m: "m' = ?t mod 12 + 1"
    using assms(1) by (auto simp: add_months_def Let_def)
  have "int ?t = 12 * int (?t div 12) + int (?t mod 12)"
    by (metis mult_div_mod_eq of_nat_add of_nat_mult of_nat_numeral)
  then show "month_idx y' m' = month_idx y m + int ofs"
    using assms(2) by (simp add: month_idx_def y m of_nat_diff)
  show "1 \<le> m'" "m' \<le> 12" by (simp_all add: m)
qed

lemma month_idx_inj:
  "month_idx y m = month_idx y' m' \<Longrightarrow> 1 \<le> m \<Longrightarrow> m \<le> 12 \<Longrightarrow> 1 \<le> m' \<Longrightarrow> m' \<le> 12 \<Longrightarrow> y = y' \<and> m = m'"
  by (simp add: month_idx_def) presburger

lemma ordinal_fire_date:
  assumes "civil_ok c" and "ordinal_fire c z t y m ord = Some u"
  shows "\<exists>d. year c d = y \<and> month c d = m \<and> resolve_local z (and_time d t) = Some u"
proof -
  from assms(2) obtain k d where "from_ymd_opt c y m k = Some d" "resolve_local z (and_time d t) = Some u"
    by (auto simp: ordinal_fire_def Let_def split: option.splits)
  moreover from this(1) assms(1) have "ymd c d = (y, m, k)" by (simp add: civil_ok_def)
  ultimately show ?thesis by (intro exI [of _ d]) (simp add: year_def month_def)
qed

lemma min_opt_None [simp]: "min_opt xs = None \<longleftrightarrow> xs = []"
  by (cases xs) (auto split: option.splits)

lemma min_opt_Some: "min_opt xs = Some x \<Longrightarrow> x \<in> set xs \<and> (\<forall>y \<in> set xs. x \<le> y)"
proof (induction xs arbitrary: x)
  case (Cons a xs)
  then show ?case by (cases "min_opt xs") (auto simp: min_def split: if_splits)
qed simp

text \<open>The months the search visits, from offset \<open>i\<close> on.\<close>

lemma scan_months_from:
  "scan_months c z ords t after today [i..<n] = Some u \<Longrightarrow>
     \<exists>k y m ord. i \<le> k \<and> add_months (year c today) (month c today) k = (y, m) \<and> ord \<in> set ords \<and>
       ordinal_fire c z t y m ord = Some u \<and> after < u \<and>
       (\<forall>ord' v. ord' \<in> set ords \<longrightarrow> ordinal_fire c z t y m ord' = Some v \<longrightarrow> after < v \<longrightarrow> u \<le> v) \<and>
       (\<forall>j y' m' ord' v. i \<le> j \<longrightarrow> j < k \<longrightarrow> add_months (year c today) (month c today) j = (y', m') \<longrightarrow>
          ord' \<in> set ords \<longrightarrow> ordinal_fire c z t y' m' ord' = Some v \<longrightarrow> v \<le> after)"
proof (induction "n - i" arbitrary: i)
  case 0
  then show ?case by simp
next
  case (Suc d)
  then have e: "[i..<n] = i # [Suc i..<n]" by (simp add: upt_conv_Cons)
  obtain y m where ym: "add_months (year c today) (month c today) i = (y, m)" by fastforce
  let ?xs = "filter (\<lambda>t. t > after) (List.map_filter (ordinal_fire c z t y m) ords)"
  have xs: "v \<in> set ?xs \<longleftrightarrow> after < v \<and> (\<exists>ord \<in> set ords. ordinal_fire c z t y m ord = Some v)" for v
    by (force simp: List.map_filter_def image_iff)
  show ?case
  proof (cases "min_opt ?xs")
    case (Some v)
    with Suc.prems e ym have "v = u" by simp
    with min_opt_Some [OF Some] have u: "u \<in> set ?xs" "\<forall>y \<in> set ?xs. u \<le> y" by auto
    then obtain ord where "ord \<in> set ords" "ordinal_fire c z t y m ord = Some u" "after < u"
      unfolding xs by blast
    moreover have "u \<le> v" if "ord' \<in> set ords" "ordinal_fire c z t y m ord' = Some v" "after < v" for ord' v
      using u(2) xs [of v] that by blast
    ultimately show ?thesis
      using ym by - (rule exI [of _ i], rule exI [of _ y], rule exI [of _ m], rule exI [of _ ord], auto)
  next
    case None
    then have none: "v \<le> after" if "ord \<in> set ords" "ordinal_fire c z t y m ord = Some v" for ord v
      using xs [of v] that by (auto simp del: filter_empty_conv)
    from None Suc.prems e ym have "scan_months c z ords t after today [Suc i..<n] = Some u" by simp
    moreover have "d = n - Suc i" using Suc.hyps(2) by simp
    ultimately obtain k y' m' ord where
      k: "Suc i \<le> k" "add_months (year c today) (month c today) k = (y', m')" "ord \<in> set ords"
        "ordinal_fire c z t y' m' ord = Some u" "after < u"
        "\<forall>ord' v. ord' \<in> set ords \<longrightarrow> ordinal_fire c z t y' m' ord' = Some v \<longrightarrow> after < v \<longrightarrow> u \<le> v"
        "\<forall>j y'' m'' ord' v. Suc i \<le> j \<longrightarrow> j < k \<longrightarrow> add_months (year c today) (month c today) j = (y'', m'') \<longrightarrow>
          ord' \<in> set ords \<longrightarrow> ordinal_fire c z t y'' m'' ord' = Some v \<longrightarrow> v \<le> after"
      using Suc.hyps(1) [of "Suc i"] by blast
    have "v \<le> after" if "i \<le> j" "j < k" "add_months (year c today) (month c today) j = (y'', m'')"
      "ord' \<in> set ords" "ordinal_fire c z t y'' m'' ord' = Some v" for j y'' m'' ord' v
    proof (cases "j = i")
      case True
      with that ym none show ?thesis by auto
    next
      case False
      with that have "Suc i \<le> j" by simp
      with that k(7) show ?thesis by blast
    qed
    with k show ?thesis
      by - (rule exI [of _ k], rule exI [of _ y'], rule exI [of _ m'], rule exI [of _ ord], auto)
  qed
qed

lemma monthly_least:
  assumes "civil_ok c" and "zone_regular z" and "valid_time t" and "t mod MIN_NS = 0"
    and "next_fire_after c z (Monthly ords t) after = Some u"
  shows "least_after (fires_at c z (Monthly ords t)) after u"
proof -
  let ?today = "date_of (to_local z after)"
  let ?Y = "year c ?today" and ?M = "month c ?today"
  have z: "zone_ok z" "gaps_on_minutes z" using assms(2) by (simp_all add: zone_regular_def)
  have mr: "1 \<le> month c d" "month c d \<le> 12" for d using assms(1) by (auto simp: civil_ok_def)
  have "[0, 1, 2] = [0..<3]" by (simp add: upt_rec)
  with assms(5) have "scan_months c z ords t after ?today [0..<3] = Some u"
    by (simp only: next_fire_after.simps)
  from scan_months_from [OF this] obtain k y m ord where
    k: "add_months ?Y ?M k = (y, m)" "ord \<in> set ords" "ordinal_fire c z t y m ord = Some u" "after < u"
      "\<And>ord' v. ord' \<in> set ords \<Longrightarrow> ordinal_fire c z t y m ord' = Some v \<Longrightarrow> after < v \<Longrightarrow> u \<le> v"
      "\<And>j y' m' ord' v. j < k \<Longrightarrow> add_months ?Y ?M j = (y', m') \<Longrightarrow> ord' \<in> set ords \<Longrightarrow>
         ordinal_fire c z t y' m' ord' = Some v \<Longrightarrow> v \<le> after" by blast
  note idx = add_months_idx [OF k(1) mr(1)]
  have least: "u \<le> v" if v: "ord' \<in> set ords" "ordinal_fire c z t y' m' ord' = Some v" "after < v" for ord' y' m' v
  proof -
    obtain d where d: "year c d = y'" "month c d = m'" "resolve_local z (and_time d t) = Some v"
      using ordinal_fire_date [OF assms(1) v(2)] by blast
    obtain d0 where d0: "year c d0 = y" "month c d0 = m" "resolve_local z (and_time d0 t) = Some u"
      using ordinal_fire_date [OF assms(1) k(3)] by blast
    have "\<not> d < ?today" using resolve_past [OF z assms(3,4) _ d(3)] v(3) by fastforce
    then have lo: "month_idx ?Y ?M \<le> month_idx y' m'"
      using month_idx_mono [OF assms(1), of ?today d] d by simp
    define j where "j = nat (month_idx y' m' - month_idx ?Y ?M)"
    obtain y'' m'' where am: "add_months ?Y ?M j = (y'', m'')" by fastforce
    note jdx = add_months_idx [OF am mr(1)]
    have same: "y'' = y' \<and> m'' = m'"
      by (rule month_idx_inj) (use jdx lo d mr in \<open>auto simp: j_def\<close>)
    consider "j < k" | "j = k" | "k < j" by linarith
    then show ?thesis
    proof cases
      case 1
      with k(6) [OF 1 am v(1)] v same show ?thesis by auto
    next
      case 2
      with am k(1) same v k(5) show ?thesis by auto
    next
      case 3
      then have "month_idx y m < month_idx y' m'" using idx(1) jdx(1) same by simp
      then have "\<not> d \<le> d0" using month_idx_mono [OF assms(1), of d d0] d d0 by fastforce
      then show ?thesis using resolve_mono [OF z(1) d0(3) d(3)] by simp
    qed
  qed
  show ?thesis
    unfolding least_after_def using k(2-4) least by auto
qed

text \<open>The next fire time of a wall-clock schedule is the least one after the given instant.\<close>

lemma next_fire_least:
  assumes "civil_ok c" and "zone_regular z" and "schedule_ok s" and "\<forall>n. s \<noteq> Interval n"
    and "next_fire_after c z s after = Some u"
  shows "least_after (fires_at c z s) after u"
proof (cases s)
  case (Daily t)
  with assms show ?thesis using daily_least [of z t c after u] by simp
next
  case (Weekdays days t)
  with assms show ?thesis using weekdays_least [of z t c days after u] by simp
next
  case (Monthly ords t)
  with assms show ?thesis using monthly_least [of c z t ords after u] by simp
qed (use assms in \<open>auto simp: least_after_def split: if_splits\<close>)

lemma next_fire_later:
  assumes "civil_ok c" and "zone_regular z" and "schedule_ok s" and "next_fire_after c z s after = Some u"
  shows "after < u"
proof (cases "\<exists>n. s = Interval n")
  case True
  with assms show ?thesis by (auto simp: SEC_NS_def)
next
  case False
  with next_fire_least [OF assms(1-3) _ assms(4)] show ?thesis by (auto simp: least_after_def)
qed

subsection \<open>The interface of a schedule: later and later fire times\<close>

locale ticker =
  fixes ok :: "'s \<Rightarrow> bool" and nxt :: "'s \<Rightarrow> instant \<Rightarrow> instant option"
  assumes nxt_later: "ok s \<Longrightarrow> nxt s t = Some u \<Longrightarrow> t < u"
begin

fun ticks :: "'s \<Rightarrow> instant \<Rightarrow> nat \<Rightarrow> instant list" where
  "ticks s t 0 = []"
| "ticks s t (Suc n) = (case nxt s t of Some u \<Rightarrow> u # ticks s u n | None \<Rightarrow> [])"

lemma ticks_increasing: "ok s \<Longrightarrow> sorted_wrt (<) (t # ticks s t n)"
proof (induction n arbitrary: t)
  case (Suc n)
  show ?case
  proof (cases "nxt s t")
    case (Some u)
    with Suc.IH [OF Suc.prems, of u] nxt_later [OF Suc.prems Some] show ?thesis
      by (auto intro: less_trans)
  qed simp
qed simp

lemma ticks_length: "length (ticks s t n) \<le> n"
  by (induction n arbitrary: t) (auto split: option.splits)

end

locale exact_ticker = ticker ok nxt
  for ok :: "'s \<Rightarrow> bool" and nxt :: "'s \<Rightarrow> instant \<Rightarrow> instant option" +
  fixes at :: "'s \<Rightarrow> instant \<Rightarrow> bool"
  assumes nxt_least: "ok s \<Longrightarrow> nxt s t = Some u \<Longrightarrow> least_after (at s) t u"
begin

lemma ticks_are_fires: "ok s \<Longrightarrow> u \<in> set (ticks s t n) \<Longrightarrow> at s u"
proof (induction n arbitrary: t)
  case (Suc n)
  then show ?case
    using nxt_least [OF Suc.prems(1), of t] by (cases "nxt s t") (auto simp: least_after_def)
qed simp

lemma ticks_skip_nothing:
  "ok s \<Longrightarrow> at s v \<Longrightarrow> t < v \<Longrightarrow> u \<in> set (ticks s t n) \<Longrightarrow> v \<le> u \<Longrightarrow> v \<in> set (ticks s t n)"
proof (induction n arbitrary: t)
  case (Suc n)
  show ?case
  proof (cases "nxt s t")
    case (Some w)
    from nxt_least [OF Suc.prems(1) Some] Suc.prems(2,3) have "w \<le> v" by (simp add: least_after_def)
    then consider "v = w" | "w < v" by linarith
    then show ?thesis
    proof cases
      case 2
      with Suc.prems Some have "u \<in> set (ticks s w n)" by auto
      with Suc.IH [OF Suc.prems(1,2) 2] Suc.prems Some show ?thesis by simp
    qed (use Some in simp)
  qed (use Suc.prems in simp)
qed simp

end

definition ticker_ok :: "Civil \<times> Tz \<times> Schedule \<Rightarrow> bool" where
  "ticker_ok = (\<lambda>(c, z, s). civil_ok c \<and> zone_regular z \<and> schedule_ok s)"

definition wall_clock_ok :: "Civil \<times> Tz \<times> Schedule \<Rightarrow> bool" where
  "wall_clock_ok = (\<lambda>(c, z, s). ticker_ok (c, z, s) \<and> (\<forall>n. s \<noteq> Interval n))"

interpretation tk: ticker ticker_ok "\<lambda>(c, z, s). next_fire_after c z s"
  by unfold_locales (auto simp: ticker_ok_def dest: next_fire_later)

interpretation wc: exact_ticker wall_clock_ok "\<lambda>(c, z, s). next_fire_after c z s" "\<lambda>(c, z, s). fires_at c z s"
  by unfold_locales (auto simp: wall_clock_ok_def ticker_ok_def dest: next_fire_later next_fire_least)

lemma next_n_fires_ticks: "next_n_fires c z s t n = tk.ticks (c, z, s) t n"
  by (induction n arbitrary: t) (auto split: option.splits)

lemma next_n_fires_wc: "next_n_fires c z s t n = wc.ticks (c, z, s) t n"
  by (induction n arbitrary: t) (auto split: option.splits)

lemma scan_days_some:
  "k \<in> set ks \<Longrightarrow> weekday_of c (today + k) \<in> set days \<Longrightarrow>
     resolve_local z (and_time (today + k) t) = Some u \<Longrightarrow> after < u \<Longrightarrow>
     scan_days c z days t after today ks \<noteq> None"
  by (induction ks) (auto simp: Let_def split: option.splits)

lemma fixed_zone_regular: "zone_regular (fixed_zone off)"
  by (simp add: zone_regular_def fixed_zone_ok fixed_zone_props)

subsection \<open>Properties\<close>

text \<open>C17: For every wall-clock schedule the computed next fire time is the right one: it lies strictly after
  the given instant, it is a fire time of the schedule (a matching date at the wanted local time,
  with a skipped time moved to the first existing minute and a repeated one taken at its first
  occurrence), and no fire time lies in between. This holds for every zone whose gaps lie on whole
  minutes and whose repeated hours do not reach over midnight.\<close>

theorem next_fire_is_least:
  assumes "civil_ok c" and "zone_regular z" and "schedule_ok s" and "\<forall>n. s \<noteq> Interval n"
    and "next_fire_after c z s after = Some u"
  shows "after < u \<and> fires_at c z s u \<and> (\<forall>v. fires_at c z s v \<longrightarrow> after < v \<longrightarrow> u \<le> v)"
  using next_fire_least [OF assms] by (simp add: least_after_def)

theorem next_fire_is_least_witness:
  "next_fire_after gregorian (fixed_zone 3600) (Weekdays [Thu, Fri] 0) 0 = Some 82800000000000 \<and>
   fires_at gregorian (fixed_zone 3600) (Weekdays [Thu, Fri] 0) 82800000000000"
proof -
  have "next_fire_after gregorian (fixed_zone 3600) (Weekdays [Thu, Fri] 0) 0 = Some 82800000000000"
    by (simp add: upto_rec1 gregorian_def fixed_zone_def date_of_def and_time_def ns_defs resolve_local_def)
  from next_fire_is_least [OF gregorian_ok fixed_zone_regular _ _ this] this
  show ?thesis by (simp add: valid_time_def ns_defs del: fires_at.simps)
qed



text \<open>C19: A daily schedule, and a weekday schedule with at least one day, never runs out: in a zone whose
  gaps are at most three hours long there is a next fire time after every instant, so a gap on the
  fire date cannot exhaust the trigger.\<close>

theorem wall_clock_never_exhausts:
  assumes "civil_ok c" and "zone_regular z" and "gaps_bounded z" and "schedule_ok s"
    and "(\<exists>t. s = Daily t) \<or> (\<exists>days t. s = Weekdays days t \<and> days \<noteq> [])"
  shows "\<exists>u. next_fire_after c z s after = Some u"
proof -
  let ?today = "date_of (to_local z after)"
  have z: "zone_ok z" "folds_within_day z" using assms(2) by (simp_all add: zone_regular_def)
  from assms(5) show ?thesis
  proof (elim disjE exE conjE)
    fix t
    assume "s = Daily t"
    then show ?thesis
      using resolve_total [OF assms(3), of "and_time ?today t"]
        resolve_total [OF assms(3), of "and_time (?today + 1) t"] by auto
  next
    fix days t
    assume s: "s = Weekdays days t" "days \<noteq> []"
    obtain k where k: "k \<in> {1..7}" "weekday_of c (?today + k) = hd days"
      using every_weekday_within_week [OF assms(1)] by blast
    obtain u where u: "resolve_local z (and_time (?today + k) t) = Some u"
      using resolve_total [OF assms(3)] by blast
    have "valid_time t" using assms(4) s by simp
    from resolve_future [OF z this _ u] k(1) have "after < u" by auto
    with scan_days_some [of k "[0..7]" c ?today days z t u after] k u s show ?thesis by auto
  qed
qed

theorem wall_clock_never_exhausts_witness:
  "\<exists>u. next_fire_after gregorian (gap_zone 7200 3600) (Daily (9000 * SEC_NS)) 0 = Some u"
proof -
  have "zone_regular (gap_zone 7200 3600)"
    by (simp add: zone_regular_def gap_zone_ok gap_zone_props)
  then show ?thesis
    by (rule wall_clock_never_exhausts [OF gregorian_ok _ gap_zone_props(2)])
      (simp_all add: valid_time_def ns_defs)
qed

text \<open>The daily branch does not compare its second candidate with the given instant: when the repeated
  hour of a fall-back transition reaches over midnight, the first occurrence of tomorrow's fire time
  can already be in the past, and the next fire time returned is then not later than the instant.\<close>

theorem daily_repeated_midnight_fires_in_past:
  "zone_ok (fold_zone 84600 3600) \<and>
   next_fire_after c (fold_zone 84600 3600) (Daily (900 * SEC_NS)) (85200 * SEC_NS) = Some (83700 * SEC_NS)"
proof
  show "next_fire_after c (fold_zone 84600 3600) (Daily (900 * SEC_NS)) (85200 * SEC_NS) = Some (83700 * SEC_NS)"
    by (simp add: fold_zone_def date_of_def and_time_def ns_defs resolve_local_def)
qed (simp add: fold_zone_ok)

lemma compile_time_Inr:
  "compile_time tv = Inr t \<Longrightarrow> tv_hour tv < 24 \<and> tv_minute tv < 60 \<and> valid_time t \<and> t mod MIN_NS = 0"
  using from_hms_valid [of "tv_hour tv" "tv_minute tv" 0 t] from_hms_minute [of "tv_hour tv" "tv_minute tv" t]
  by (auto simp: compile_time_def from_hms_opt_def split: option.splits if_splits)

lemma compile_time_Inl: "compile_time tv = Inl e \<Longrightarrow> \<not> (tv_hour tv < 24 \<and> tv_minute tv < 60)"
  by (auto simp: compile_time_def from_hms_opt_def split: if_splits)

fun rejected :: "(string \<Rightarrow> instant option) \<Rightarrow> (string \<Rightarrow> instant option) \<Rightarrow> ScheduleKind \<Rightarrow> bool" where
  "rejected r p (K_Interval n unit) \<longleftrightarrow> n = 0"
| "rejected r p (K_Daily tv) \<longleftrightarrow> \<not> (tv_hour tv < 24 \<and> tv_minute tv < 60)"
| "rejected r p (K_Weekdays days tv) \<longleftrightarrow> \<not> (tv_hour tv < 24 \<and> tv_minute tv < 60)"
| "rejected r p (K_Monthly ords tv) \<longleftrightarrow> \<not> (tv_hour tv < 24 \<and> tv_minute tv < 60)"
| "rejected r p (K_Once at) \<longleftrightarrow> r (sv_value at) = None \<and> p (sv_value at) = None"
| "rejected r p K_Disabled \<longleftrightarrow> False"


end
