(* ===== verification/Calendar.thy ===== *)
theory Calendar
  imports Schedule
begin

text \<open>
  Calendars, \<^verbatim>\<open>croniq-scheduler/src/calendar.rs\<close> with the argument parsers of
  \<^verbatim>\<open>croniq-config/src/calendar_args.rs\<close>: include and exclude rules, the second-of-day interval sets they
  are factored into, and the search for the next open instant. The zone name lookup of \<^verbatim>\<open>chrono_tz\<close> and the date
  parser of \<^verbatim>\<open>chrono\<close> are parameters. A window's bounds are times of day, an interval bound is a number of
  seconds in 0..86400.
\<close>

subsection \<open>Splitting strings\<close>

fun split_once :: "string \<Rightarrow> string \<Rightarrow> (string \<times> string) option" where
  "split_once pat [] = (if pat = [] then Some ([], []) else None)"
| "split_once pat (c # cs) =
     (case strip_prefix (c # cs) pat of
        Some r \<Rightarrow> Some ([], r)
      | None \<Rightarrow> map_option (\<lambda>(a, b). (c # a, b)) (split_once pat cs))"

subsection \<open>Arguments of calendar rules\<close>

definition parse_weekly_arg :: "string \<Rightarrow> string + Weekday list" where
  "parse_weekly_arg s =
     (case parse_token s of Some ds \<Rightarrow> Inr ds | None \<Rightarrow> Inl (''unknown weekday: '' @ s))"

definition args_parse_time :: "string \<Rightarrow> string + int" where
  "args_parse_time s =
     (case split_on (CHR '':'') s of
        [h, m] \<Rightarrow>
          (case (parse_unsigned U32_MAX h, parse_unsigned U32_MAX m) of
             (Some hour, Some minute) \<Rightarrow>
               (case from_hms_opt hour minute 0 of
                  Some t \<Rightarrow> Inr t
                | None \<Rightarrow> Inl (''invalid time: '' @ s))
           | _ \<Rightarrow> Inl (''invalid time: '' @ s))
      | _ \<Rightarrow> Inl (''invalid time: '' @ s))"

definition parse_window_pair :: "string \<Rightarrow> string \<Rightarrow> string + int \<times> int" where
  "parse_window_pair a b =
     (case args_parse_time a of
        Inl e \<Rightarrow> Inl e
      | Inr s \<Rightarrow> (case args_parse_time b of Inl e \<Rightarrow> Inl e | Inr t \<Rightarrow> Inr (s, t)))"

fun parse_window_args :: "string list \<Rightarrow> string + int \<times> int" where
  "parse_window_args [] = Inl ''window requires start..end times''"
| "parse_window_args [a] =
     (case split_once ''..'' a of
        None \<Rightarrow> Inl (''invalid window: '' @ a)
      | Some (s, e) \<Rightarrow> parse_window_pair s e)"
| "parse_window_args [a, b] = parse_window_pair a b"
| "parse_window_args (a # b # c # cs) = Inl ''window expects start..end or start end''"

definition parse_monthly_arg :: "string \<Rightarrow> string + nat" where
  "parse_monthly_arg s =
     (case parse_unsigned U32_MAX s of Some d \<Rightarrow> Inr d | None \<Rightarrow> Inl (''invalid day: '' @ s))"

datatype AnnualArg = AA_MonthDay nat nat | AA_Date int | AA_Ignored

definition parse_annual_arg :: "(string \<Rightarrow> int option) \<Rightarrow> string \<Rightarrow> string + AnnualArg" where
  "parse_annual_arg parse_ymd s =
     (if length s = 5 \<and> CHR ''-'' \<in> set s then
        (case split_on (CHR ''-'') s of
           [m, d] \<Rightarrow>
             (case (parse_unsigned U32_MAX m, parse_unsigned U32_MAX d) of
                (Some mo, Some da) \<Rightarrow> Inr (AA_MonthDay mo da)
              | _ \<Rightarrow> Inl (''invalid date: '' @ s))
         | _ \<Rightarrow> Inr AA_Ignored)
      else if length s = 10 \<and> length (filter (\<lambda>c. c = CHR ''-'') s) = 2 then
        (case parse_ymd s of Some d \<Rightarrow> Inr (AA_Date d) | None \<Rightarrow> Inl (''invalid date: '' @ s))
      else Inl (''invalid annual date format: '' @ s @ '' (expected MM-DD or YYYY-MM-DD)''))"

definition is_ok :: "'e + 'a \<Rightarrow> bool" where
  "is_ok r = (case r of Inl _ \<Rightarrow> False | Inr _ \<Rightarrow> True)"

definition rule_args_valid :: "(string \<Rightarrow> int option) \<Rightarrow> string \<Rightarrow> string list \<Rightarrow> bool" where
  "rule_args_valid parse_ymd rule_type args =
     (if rule_type = ''weekly'' then list_all (\<lambda>a. is_ok (parse_weekly_arg a)) args
      else if rule_type = ''window'' then is_ok (parse_window_args args)
      else if rule_type = ''monthly'' then list_all (\<lambda>a. is_ok (parse_monthly_arg a)) args
      else if rule_type = ''annual'' \<or> rule_type = ''yearly'' then
        list_all (\<lambda>a. is_ok (parse_annual_arg parse_ymd a)) args
      else True)"

subsection \<open>Calendars\<close>

datatype CalendarRule =
    Weekly "ChronoWeekday list"
  | Window int int
  | RMonthly "nat list"
  | Annual "(nat \<times> nat) list"
  | Dates "int list"

record Calendar =
  cal_name :: string
  cal_tz :: Tz
  cal_includes :: "CalendarRule list"
  cal_excludes :: "CalendarRule list"

datatype CalendarError = UnknownRuleKind string | UnknownRuleType string | InvalidRule string

record CalendarRuleConfig =
  rc_kind :: string
  rc_type :: string
  rc_args :: "string list"

record CalendarConfig =
  cc_name :: string
  cc_timezone :: "string option"
  cc_rules :: "CalendarRuleConfig list"

fun weekly_days :: "string list \<Rightarrow> ChronoWeekday list \<Rightarrow> CalendarError + ChronoWeekday list" where
  "weekly_days [] days = Inr days"
| "weekly_days (a # args) days =
     (case parse_weekly_arg a of
        Inl e \<Rightarrow> Inl (InvalidRule e)
      | Inr parsed \<Rightarrow> weekly_days args (days @ map ast_weekday_to_chrono parsed))"

fun monthly_days :: "string list \<Rightarrow> CalendarError + nat list" where
  "monthly_days [] = Inr []"
| "monthly_days (a # args) =
     (case parse_monthly_arg a of
        Inl e \<Rightarrow> Inl (InvalidRule e)
      | Inr d \<Rightarrow> (case monthly_days args of Inl e \<Rightarrow> Inl e | Inr ds \<Rightarrow> Inr (d # ds)))"

fun annual_args ::
  "(string \<Rightarrow> int option) \<Rightarrow> string list \<Rightarrow> (nat \<times> nat) list \<Rightarrow> int list \<Rightarrow>
   CalendarError + (nat \<times> nat) list \<times> int list" where
  "annual_args parse_ymd [] annual specific = Inr (annual, specific)"
| "annual_args parse_ymd (a # args) annual specific =
     (case parse_annual_arg parse_ymd a of
        Inl e \<Rightarrow> Inl (InvalidRule e)
      | Inr (AA_MonthDay m d) \<Rightarrow> annual_args parse_ymd args (annual @ [(m, d)]) specific
      | Inr (AA_Date d) \<Rightarrow> annual_args parse_ymd args annual (specific @ [d])
      | Inr AA_Ignored \<Rightarrow> annual_args parse_ymd args annual specific)"

definition compile_rule ::
  "Civil \<Rightarrow> (string \<Rightarrow> int option) \<Rightarrow> string \<Rightarrow> string list \<Rightarrow> CalendarError + CalendarRule" where
  "compile_rule c parse_ymd rule_type args =
     (if rule_type = ''weekly'' then
        (case weekly_days args [] of Inl e \<Rightarrow> Inl e | Inr days \<Rightarrow> Inr (Weekly days))
      else if rule_type = ''window'' then
        (case parse_window_args args of Inl e \<Rightarrow> Inl (InvalidRule e) | Inr (s, e) \<Rightarrow> Inr (Window s e))
      else if rule_type = ''monthly'' then
        (case monthly_days args of Inl e \<Rightarrow> Inl e | Inr days \<Rightarrow> Inr (RMonthly days))
      else if rule_type = ''annual'' \<or> rule_type = ''yearly'' then
        (case annual_args parse_ymd args [] [] of
           Inl e \<Rightarrow> Inl e
         | Inr (annual, specific) \<Rightarrow>
             if specific = [] then Inr (Annual annual)
             else if annual = [] then Inr (Dates specific)
             else Inr (Annual (annual @ map (\<lambda>d. (month c d, day c d)) specific)))
      else Inl (UnknownRuleType rule_type))"

fun compile_rules ::
  "Civil \<Rightarrow> (string \<Rightarrow> int option) \<Rightarrow> CalendarRuleConfig list \<Rightarrow> CalendarRule list \<Rightarrow> CalendarRule list \<Rightarrow>
   CalendarError + CalendarRule list \<times> CalendarRule list" where
  "compile_rules c parse_ymd [] incl excl = Inr (incl, excl)"
| "compile_rules c parse_ymd (r # rs) incl excl =
     (case compile_rule c parse_ymd (rc_type r) (rc_args r) of
        Inl e \<Rightarrow> Inl e
      | Inr compiled \<Rightarrow>
          if rc_kind r = ''include'' then compile_rules c parse_ymd rs (incl @ [compiled]) excl
          else if rc_kind r = ''exclude'' then compile_rules c parse_ymd rs incl (excl @ [compiled])
          else Inl (UnknownRuleKind (rc_kind r)))"

definition from_config ::
  "Civil \<Rightarrow> (string \<Rightarrow> int option) \<Rightarrow> (string \<Rightarrow> Tz option) \<Rightarrow> Tz \<Rightarrow> CalendarConfig \<Rightarrow>
   CalendarError + Calendar" where
  "from_config c parse_ymd tz_parse utc cfg =
     (case compile_rules c parse_ymd (cc_rules cfg) [] [] of
        Inl e \<Rightarrow> Inl e
      | Inr (incl, excl) \<Rightarrow>
          (let tz = (case cc_timezone cfg of
                 None \<Rightarrow> utc
               | Some t \<Rightarrow> if t = [] then utc else (case tz_parse t of Some z \<Rightarrow> z | None \<Rightarrow> utc))
           in Inr \<lparr>cal_name = cc_name cfg, cal_tz = tz, cal_includes = incl, cal_excludes = excl\<rparr>))"

fun matches :: "Civil \<Rightarrow> CalendarRule \<Rightarrow> int \<Rightarrow> int \<Rightarrow> bool" where
  "matches c (Weekly days) date time \<longleftrightarrow> weekday_of c date \<in> set days"
| "matches c (Window start stop) date time \<longleftrightarrow>
     (if start \<le> stop then time \<ge> start \<and> time < stop else time \<ge> start \<or> time < stop)"
| "matches c (RMonthly days) date time \<longleftrightarrow> day c date \<in> set days"
| "matches c (Annual dates) date time \<longleftrightarrow> list_ex (\<lambda>(m, d). month c date = m \<and> day c date = d) dates"
| "matches c (Dates dates) date time \<longleftrightarrow> date \<in> set dates"

definition is_allowed :: "Civil \<Rightarrow> Calendar \<Rightarrow> int \<Rightarrow> int \<Rightarrow> bool" where
  "is_allowed c cal date time =
     (let includes_pass = (if cal_includes cal = [] then True else list_all (\<lambda>r. matches c r date time) (cal_includes cal));
          excludes_match = list_ex (\<lambda>r. matches c r date time) (cal_excludes cal)
      in includes_pass \<and> \<not> excludes_match)"

subsection \<open>Interval sets\<close>

type_synonym DaySet = "(int \<times> int) list"

definition DAY_SECS :: int where
  "DAY_SECS = 86400"

definition MAX_SCAN_DAYS :: nat where
  "MAX_SCAN_DAYS = 4 * 365 + 2"

definition window_intervals :: "int \<Rightarrow> int \<Rightarrow> DaySet" where
  "window_intervals start stop =
     (let s = num_seconds_from_midnight start; e = num_seconds_from_midnight stop
      in if s < e then [(s, e)]
         else if s = e then []
         else (if e > 0 then [(0, e)] else []) @ [(s, DAY_SECS)])"

fun intersect_intervals :: "DaySet \<Rightarrow> DaySet \<Rightarrow> DaySet" where
  "intersect_intervals ((as, ae) # a) ((bs, be) # b) =
     (let lo = max as bs; hi = min ae be;
          out = (if ae \<le> be then intersect_intervals a ((bs, be) # b)
                 else intersect_intervals ((as, ae) # a) b)
      in if lo < hi then (lo, hi) # out else out)"
| "intersect_intervals _ _ = []"

fun complement_from :: "int \<Rightarrow> DaySet \<Rightarrow> DaySet" where
  "complement_from cursor [] = (if cursor < DAY_SECS then [(cursor, DAY_SECS)] else [])"
| "complement_from cursor ((s, e) # b) =
     (let out = complement_from (max cursor e) b in if s > cursor then (cursor, s) # out else out)"

definition subtract_intervals :: "DaySet \<Rightarrow> DaySet \<Rightarrow> DaySet" where
  "subtract_intervals a b = intersect_intervals a (complement_from 0 b)"

fun include_set :: "Civil \<Rightarrow> int \<Rightarrow> CalendarRule list \<Rightarrow> DaySet \<Rightarrow> DaySet option" where
  "include_set c date [] set0 = Some set0"
| "include_set c date (Window s e # rules) set0 =
     include_set c date rules (intersect_intervals set0 (window_intervals s e))"
| "include_set c date (rule # rules) set0 =
     (if \<not> matches c rule date 0 then None else include_set c date rules set0)"

fun exclude_set :: "Civil \<Rightarrow> int \<Rightarrow> CalendarRule list \<Rightarrow> DaySet \<Rightarrow> DaySet option" where
  "exclude_set c date [] set0 = Some set0"
| "exclude_set c date (Window s e # rules) set0 =
     exclude_set c date rules (subtract_intervals set0 (window_intervals s e))"
| "exclude_set c date (rule # rules) set0 =
     (if matches c rule date 0 then None else exclude_set c date rules set0)"

definition allowed_intervals_on :: "Civil \<Rightarrow> Calendar \<Rightarrow> int \<Rightarrow> DaySet" where
  "allowed_intervals_on c cal date =
     (case include_set c date (cal_includes cal) [(0, DAY_SECS)] of
        None \<Rightarrow> []
      | Some s \<Rightarrow> (case exclude_set c date (cal_excludes cal) s of None \<Rightarrow> [] | Some s' \<Rightarrow> s'))"

subsection \<open>The next open instant\<close>

text \<open>
  The inner loop over one day's intervals: \<open>None\<close> goes on to the next day, \<open>Some r\<close> returns \<open>r\<close>.
\<close>

fun first_open :: "nat \<Rightarrow> int \<Rightarrow> int \<Rightarrow> DaySet \<Rightarrow> int option option" where
  "first_open ofs fsecs date [] = None"
| "first_open ofs fsecs date ((s, e) # ivs) =
     (let lower = (if ofs = 0 then max fsecs s else s)
      in if lower < e then Some (map_option (and_time date) (from_num_seconds_from_midnight_opt lower))
         else first_open ofs fsecs date ivs)"

fun scan_open :: "Civil \<Rightarrow> (int \<Rightarrow> DaySet) \<Rightarrow> int \<Rightarrow> int \<Rightarrow> nat list \<Rightarrow> int option" where
  "scan_open c intervals_on from_date fsecs [] = None"
| "scan_open c intervals_on from_date fsecs (ofs # ofss) =
     (case checked_add_days c from_date ofs of
        None \<Rightarrow> None
      | Some date \<Rightarrow>
          (case first_open ofs fsecs date (intervals_on date) of
             Some r \<Rightarrow> r
           | None \<Rightarrow> scan_open c intervals_on from_date fsecs ofss))"

definition next_instant_in :: "Civil \<Rightarrow> int \<Rightarrow> (int \<Rightarrow> DaySet) \<Rightarrow> int option" where
  "next_instant_in c from intervals_on =
     (let t = time_of from;
          fsecs = num_seconds_from_midnight t + (if nanosecond t > 0 then 1 else 0)
      in scan_open c intervals_on (date_of from) fsecs [0..<Suc MAX_SCAN_DAYS])"

definition next_allowed_after :: "Civil \<Rightarrow> Calendar \<Rightarrow> int \<Rightarrow> int option" where
  "next_allowed_after c cal from = next_instant_in c from (allowed_intervals_on c cal)"

definition is_allowed_at :: "Civil \<Rightarrow> Calendar \<Rightarrow> instant \<Rightarrow> bool" where
  "is_allowed_at c cal at =
     (let local = to_local (cal_tz cal) at in is_allowed c cal (date_of local) (time_of local))"

definition next_open_at_or_after :: "Civil \<Rightarrow> Calendar \<Rightarrow> instant \<Rightarrow> instant option" where
  "next_open_at_or_after c cal from =
     (case next_instant_in c (to_local (cal_tz cal) from) (allowed_intervals_on c cal) of
        None \<Rightarrow> None
      | Some open_local \<Rightarrow> resolve_local_at_or_after (cal_tz cal) open_local from)"

subsection \<open>Specification\<close>

definition covers :: "DaySet \<Rightarrow> int \<Rightarrow> bool" where
  "covers ivs t \<longleftrightarrow> (\<exists>(s, e) \<in> set ivs. s \<le> t \<and> t < e)"

text \<open>Sorted, disjoint, non-empty half-open intervals inside one day, with bounds on whole minutes.\<close>

definition interval_ok :: "int \<times> int \<Rightarrow> bool" where
  "interval_ok = (\<lambda>(s, e). 0 \<le> s \<and> s < e \<and> e \<le> DAY_SECS \<and> s mod 60 = 0 \<and> e mod 60 = 0)"

definition dayset_ok :: "DaySet \<Rightarrow> bool" where
  "dayset_ok ivs \<longleftrightarrow> sorted_wrt (\<lambda>(_, e) (s, _). e \<le> s) ivs \<and> (\<forall>iv \<in> set ivs. interval_ok iv)"

text \<open>Windows on whole minutes, as the argument parsers produce them.\<close>

fun rule_ok :: "CalendarRule \<Rightarrow> bool" where
  "rule_ok (Window s e) \<longleftrightarrow> valid_time s \<and> valid_time e \<and> s mod MIN_NS = 0 \<and> e mod MIN_NS = 0"
| "rule_ok _ \<longleftrightarrow> True"

definition calendar_ok :: "Calendar \<Rightarrow> bool" where
  "calendar_ok cal \<longleftrightarrow> list_all rule_ok (cal_includes cal) \<and> list_all rule_ok (cal_excludes cal)"

subsection \<open>Lemmas: interval sets\<close>

lemma covers_Nil [simp]: "\<not> covers [] t"
  by (simp add: covers_def)

lemma covers_Cons [simp]: "covers ((s, e) # ivs) t \<longleftrightarrow> (s \<le> t \<and> t < e) \<or> covers ivs t"
  by (auto simp: covers_def)

lemma covers_append [simp]: "covers (xs @ ys) t \<longleftrightarrow> covers xs t \<or> covers ys t"
  by (auto simp: covers_def)

lemma dayset_Nil [simp]: "dayset_ok []"
  by (simp add: dayset_ok_def)

lemma dayset_Cons:
  "dayset_ok ((s, e) # ivs) \<longleftrightarrow>
     0 \<le> s \<and> s < e \<and> e \<le> DAY_SECS \<and> s mod 60 = 0 \<and> e mod 60 = 0 \<and>
     (\<forall>(s', _) \<in> set ivs. e \<le> s') \<and> dayset_ok ivs"
  by (auto simp: dayset_ok_def interval_ok_def)

lemma covers_after: "\<forall>(s', _) \<in> set ivs. e \<le> s' \<Longrightarrow> covers ivs t \<Longrightarrow> e \<le> t"
  by (fastforce simp: covers_def)

lemma intersect_starts:
  "p \<in> set (intersect_intervals a b) \<Longrightarrow> \<exists>q \<in> set a. \<exists>r \<in> set b. fst p = max (fst q) (fst r)"
proof (induction a b rule: intersect_intervals.induct)
  case (1 s1 e1 a s2 e2 b)
  from "1.prems" consider "p = (max s1 s2, min e1 e2)"
    | "e1 \<le> e2" "p \<in> set (intersect_intervals a ((s2, e2) # b))"
    | "\<not> e1 \<le> e2" "p \<in> set (intersect_intervals ((s1, e1) # a) b)"
    by (auto simp only: intersect_intervals.simps Let_def list.set insert_iff split: if_splits)
  then show ?case
  proof cases
    case 2
    then show ?thesis using "1.IH"(1) by (metis list.set_intros(2))
  next
    case 3
    then show ?thesis using "1.IH"(2) by (metis list.set_intros(2))
  qed simp
qed simp_all

lemma intersect_lower:
  assumes "(\<forall>(s, _) \<in> set a. x \<le> s) \<or> (\<forall>(s, _) \<in> set b. x \<le> s)"
  shows "\<forall>(s, _) \<in> set (intersect_intervals a b). x \<le> s"
proof clarify
  fix s e assume "(s, e) \<in> set (intersect_intervals a b)"
  then obtain q r where "q \<in> set a" "r \<in> set b" "s = max (fst q) (fst r)" by (metis intersect_starts fst_conv)
  with assms show "x \<le> s" by (auto simp: le_max_iff_disj)
qed

lemma intersect_covers:
  "dayset_ok a \<Longrightarrow> dayset_ok b \<Longrightarrow> covers (intersect_intervals a b) t \<longleftrightarrow> covers a t \<and> covers b t"
proof (induction a b rule: intersect_intervals.induct)
  case (1 s1 e1 a s2 e2 b)
  have d: "\<forall>(s', _) \<in> set a. e1 \<le> s'" "\<forall>(s', _) \<in> set b. e2 \<le> s'" "dayset_ok a" "dayset_ok b"
    using "1.prems" by (auto simp: dayset_Cons)
  show ?case
  proof (cases "e1 \<le> e2")
    case True
    then have "covers (intersect_intervals a ((s2, e2) # b)) t \<longleftrightarrow> covers a t \<and> covers ((s2, e2) # b) t"
      using "1.IH"(1) "1.prems" d by simp
    moreover have "covers b t \<Longrightarrow> e1 \<le> t" using covers_after [OF d(2), of t] True by linarith
    ultimately show ?thesis using True by (cases "max s1 s2 < e1") (auto simp: Let_def min_def)
  next
    case False
    then have "covers (intersect_intervals ((s1, e1) # a) b) t \<longleftrightarrow> covers ((s1, e1) # a) t \<and> covers b t"
      using "1.IH"(2) "1.prems" d by simp
    moreover have "covers a t \<Longrightarrow> e2 \<le> t" using covers_after [OF d(1), of t] False by linarith
    ultimately show ?thesis using False by (cases "max s1 s2 < e2") (auto simp: Let_def min_def)
  qed
qed simp_all

lemma intersect_ok: "dayset_ok a \<Longrightarrow> dayset_ok b \<Longrightarrow> dayset_ok (intersect_intervals a b)"
proof (induction a b rule: intersect_intervals.induct)
  case (1 s1 e1 a s2 e2 b)
  let ?out = "if e1 \<le> e2 then intersect_intervals a ((s2, e2) # b) else intersect_intervals ((s1, e1) # a) b"
  have p: "0 \<le> s1" "e1 \<le> DAY_SECS" "\<forall>(s', _) \<in> set a. e1 \<le> s'" "\<forall>(s', _) \<in> set b. e2 \<le> s'"
    using "1.prems" by (auto simp: dayset_Cons)
  have m: "max s1 s2 mod 60 = 0" "min e1 e2 mod 60 = 0" using "1.prems" by (auto simp: dayset_Cons max_def min_def)
  have ok: "dayset_ok ?out" using 1 by (auto simp: dayset_Cons)
  have low: "\<forall>(s, _) \<in> set ?out. min e1 e2 \<le> s"
    using intersect_lower [of a e1 "(s2, e2) # b"] intersect_lower [of "(s1, e1) # a" e2 b] p
    by (auto simp: min_def)
  show ?case
  proof (cases "max s1 s2 < min e1 e2")
    case True
    then have "intersect_intervals ((s1, e1) # a) ((s2, e2) # b) = (max s1 s2, min e1 e2) # ?out"
      by (simp only: intersect_intervals.simps Let_def if_True)
    with True ok low p m show ?thesis by (simp only: dayset_Cons) (simp add: le_max_iff_disj min_le_iff_disj)
  next
    case False
    then have "intersect_intervals ((s1, e1) # a) ((s2, e2) # b) = ?out"
      by (simp only: intersect_intervals.simps Let_def if_False)
    with ok show ?thesis by simp
  qed
qed simp_all

lemma complement_covers:
  "dayset_ok b \<Longrightarrow> \<forall>(s, _) \<in> set b. cur \<le> s \<Longrightarrow> 0 \<le> cur \<Longrightarrow> cur \<le> t \<Longrightarrow> t < DAY_SECS \<Longrightarrow>
     covers (complement_from cur b) t \<longleftrightarrow> \<not> covers b t"
proof (induction cur b rule: complement_from.induct)
  case (2 cur s e b)
  have p: "cur \<le> s" "s < e" "\<forall>(s', _) \<in> set b. e \<le> s'" "dayset_ok b" "max cur e = e"
    using "2.prems" by (auto simp: dayset_Cons)
  have low: "covers (complement_from e b) t' \<Longrightarrow> e \<le> t'" for t'
  proof -
    have "x \<le> t'" if "covers (complement_from x b') t'" for x b'
      using that by (induction x b' rule: complement_from.induct) (auto simp: Let_def split: if_splits)
    then show "covers (complement_from e b) t' \<Longrightarrow> e \<le> t'" .
  qed
  show ?case
  proof (cases "e \<le> t")
    case True
    have "covers (complement_from (max cur e) b) t \<longleftrightarrow> \<not> covers b t"
      by (rule "2.IH") (use p True "2.prems" in auto)
    with True p show ?thesis by (auto simp: Let_def)
  next
    case False
    with covers_after [OF p(3), of t] low [of t] p "2.prems" show ?thesis by (auto simp: Let_def)
  qed
qed auto

lemma complement_ok:
  "dayset_ok b \<Longrightarrow> \<forall>(s, _) \<in> set b. cur \<le> s \<Longrightarrow> 0 \<le> cur \<Longrightarrow>
     cur mod 60 = 0 \<Longrightarrow>
     dayset_ok (complement_from cur b) \<and> (\<forall>(s, _) \<in> set (complement_from cur b). cur \<le> s)"
proof (induction cur b rule: complement_from.induct)
  case (2 cur s e b)
  have p: "cur \<le> s" "s < e" "e \<le> DAY_SECS" "\<forall>(s', _) \<in> set b. e \<le> s'" "dayset_ok b" "max cur e = e"
      "s mod 60 = 0" "e mod 60 = 0"
    using "2.prems" by (auto simp: dayset_Cons)
  have "dayset_ok (complement_from (max cur e) b) \<and> (\<forall>(s, _) \<in> set (complement_from (max cur e) b). max cur e \<le> s)"
    by (rule "2.IH") (use p "2.prems" in auto)
  then have ih: "dayset_ok (complement_from e b)" "\<forall>(s, _) \<in> set (complement_from e b). e \<le> s"
    unfolding p(6) by blast+
  have low: "\<forall>(s', _) \<in> set (complement_from e b). s \<le> s'" using ih(2) p(2) by fastforce
  show ?case
  proof (cases "s > cur")
    case True
    with ih(1) low p "2.prems"(3,4) show ?thesis by (fastforce simp: Let_def dayset_Cons)
  next
    case False
    with ih(1) low p show ?thesis by (simp add: Let_def)
  qed
qed (auto simp: dayset_Cons DAY_SECS_def)

lemma subtract_ok: "dayset_ok a \<Longrightarrow> dayset_ok b \<Longrightarrow> dayset_ok (subtract_intervals a b)"
  unfolding subtract_intervals_def
  by (rule intersect_ok, assumption, rule conjunct1, rule complement_ok) (auto simp: dayset_ok_def interval_ok_def)

lemma subtract_covers:
  assumes "dayset_ok a" and "dayset_ok b"
  shows "covers (subtract_intervals a b) t \<longleftrightarrow> covers a t \<and> \<not> covers b t"
proof -
  have b: "\<forall>(s, _) \<in> set b. 0 \<le> s" using assms(2) by (auto simp: dayset_ok_def interval_ok_def)
  have a: "covers a t \<Longrightarrow> 0 \<le> t \<and> t < DAY_SECS" using assms(1) by (fastforce simp: dayset_ok_def interval_ok_def covers_def)
  show ?thesis
    unfolding subtract_intervals_def
      intersect_covers [OF assms(1) conjunct1 [OF complement_ok [OF assms(2) b order.refl mod_0]]]
    using complement_covers [OF assms(2) b] a by blast
qed

subsection \<open>Lemmas: the rules of a day\<close>

lemma whole_minute_secs: "t mod MIN_NS = 0 \<Longrightarrow> t div SEC_NS * SEC_NS = t \<and> t div SEC_NS mod 60 = 0"
proof -
  assume "t mod MIN_NS = 0"
  then obtain q where "t = MIN_NS * q" by (metis mod_0_imp_dvd dvdE)
  then have "t div SEC_NS = 60 * q" "t = 60 * q * SEC_NS" by (simp_all add: ns_defs)
  then show ?thesis by simp
qed

lemma secs_of_time: "valid_time t \<Longrightarrow> 0 \<le> t div SEC_NS \<and> t div SEC_NS < DAY_SECS"
  by (auto simp: valid_time_def ns_defs DAY_SECS_def)

lemma window_ok: "rule_ok (Window s e) \<Longrightarrow> dayset_ok (window_intervals s e)"
  using whole_minute_secs [of s] whole_minute_secs [of e] secs_of_time [of s] secs_of_time [of e]
  by (auto simp: window_intervals_def Let_def num_seconds_from_midnight_def dayset_Cons DAY_SECS_def)

lemma window_covers:
  assumes "rule_ok (Window s e)" and "valid_time t"
  shows "covers (window_intervals s e) (t div SEC_NS) \<longleftrightarrow> matches c (Window s e) date t"
proof -
  obtain a b where ab: "s = a * SEC_NS" "e = b * SEC_NS"
    using whole_minute_secs [of s] whole_minute_secs [of e] assms(1) by (metis rule_ok.simps(1))
  have le: "x * SEC_NS \<le> t \<longleftrightarrow> x \<le> t div SEC_NS" for x by (auto simp: SEC_NS_def)
  have cmp: "a * SEC_NS \<le> b * SEC_NS \<longleftrightarrow> a \<le> b" by (simp add: SEC_NS_def)
  have lt: "t < x * SEC_NS \<longleftrightarrow> t div SEC_NS < x" for x using le [of x] by linarith
  have d: "a * SEC_NS div SEC_NS = a" "b * SEC_NS div SEC_NS = b" by (simp_all add: SEC_NS_def)
  show ?thesis
    using secs_of_time [OF assms(2)]
    unfolding ab window_intervals_def num_seconds_from_midnight_def Let_def d matches.simps le lt cmp
    by auto
qed

lemma rule_time_free:
  "(\<forall>s e. r \<noteq> Window s e) \<Longrightarrow> matches c r date t = matches c r date t'"
  by (cases r) auto

lemma include_set_spec:
  "dayset_ok set0 \<Longrightarrow> list_all rule_ok rs \<Longrightarrow> valid_time t \<Longrightarrow>
     case include_set c date rs set0 of
       None \<Rightarrow> \<not> list_all (\<lambda>r. matches c r date t) rs
     | Some out \<Rightarrow> dayset_ok out \<and>
         (covers out (t div SEC_NS) \<longleftrightarrow> covers set0 (t div SEC_NS) \<and> list_all (\<lambda>r. matches c r date t) rs)"
proof (induction rs arbitrary: set0)
  case (Cons r rs)
  show ?case
  proof (cases "\<exists>s e. r = Window s e")
    case True
    then obtain s e where r: "r = Window s e" by blast
    with Cons.prems have ok: "rule_ok (Window s e)" by simp
    with Cons.IH [of "intersect_intervals set0 (window_intervals s e)"] Cons.prems show ?thesis
      unfolding r using window_covers [OF ok, of t c date] intersect_covers [OF Cons.prems(1) window_ok [OF ok]]
      by (auto simp: intersect_ok window_ok split: option.splits)
  next
    case False
    then have "matches c r date 0 = matches c r date t" by (intro rule_time_free) blast
    with False Cons.IH [of set0] Cons.prems show ?thesis by (cases r) (auto split: option.splits)
  qed
qed simp

lemma exclude_set_spec:
  "dayset_ok set0 \<Longrightarrow> list_all rule_ok rs \<Longrightarrow> valid_time t \<Longrightarrow>
     case exclude_set c date rs set0 of
       None \<Rightarrow> list_ex (\<lambda>r. matches c r date t) rs
     | Some out \<Rightarrow> dayset_ok out \<and>
         (covers out (t div SEC_NS) \<longleftrightarrow> covers set0 (t div SEC_NS) \<and> \<not> list_ex (\<lambda>r. matches c r date t) rs)"
proof (induction rs arbitrary: set0)
  case (Cons r rs)
  show ?case
  proof (cases "\<exists>s e. r = Window s e")
    case True
    then obtain s e where r: "r = Window s e" by blast
    with Cons.prems have ok: "rule_ok (Window s e)" by simp
    with Cons.IH [of "subtract_intervals set0 (window_intervals s e)"] Cons.prems show ?thesis
      unfolding r using window_covers [OF ok, of t c date] subtract_covers [OF Cons.prems(1) window_ok [OF ok]]
      by (auto simp: subtract_ok window_ok split: option.splits)
  next
    case False
    then have "matches c r date 0 = matches c r date t" by (intro rule_time_free) blast
    with False Cons.IH [of set0] Cons.prems show ?thesis by (cases r) (auto split: option.splits)
  qed
qed simp

lemma full_day: "dayset_ok [(0, DAY_SECS)]" "valid_time t \<Longrightarrow> covers [(0, DAY_SECS)] (t div SEC_NS)"
  using secs_of_time by (auto simp: dayset_Cons DAY_SECS_def)

lemma allowed_intervals_spec:
  assumes "calendar_ok cal" and "valid_time t"
  shows "dayset_ok (allowed_intervals_on c cal date) \<and>
    (covers (allowed_intervals_on c cal date) (t div SEC_NS) \<longleftrightarrow> is_allowed c cal date t)"
proof -
  have r: "list_all rule_ok (cal_includes cal)" "list_all rule_ok (cal_excludes cal)"
    using assms(1) by (simp_all add: calendar_ok_def)
  note i = include_set_spec [OF full_day(1) r(1) assms(2), of c date]
  show ?thesis
  proof (cases "include_set c date (cal_includes cal) [(0, DAY_SECS)]")
    case None
    with i show ?thesis by (auto simp: allowed_intervals_on_def is_allowed_def Let_def)
  next
    case (Some out)
    with i have out: "dayset_ok out"
      "covers out (t div SEC_NS) \<longleftrightarrow> list_all (\<lambda>r. matches c r date t) (cal_includes cal)"
      using full_day(2) [OF assms(2)] by simp_all
    from exclude_set_spec [OF out(1) r(2) assms(2), of c date] Some out(2) show ?thesis
      by (auto simp: allowed_intervals_on_def is_allowed_def Let_def split: option.splits)
  qed
qed

lemma allowed_intervals_ok: "calendar_ok cal \<Longrightarrow> dayset_ok (allowed_intervals_on c cal date)"
  using allowed_intervals_spec [of cal 0 c date] by (simp add: valid_time_def DAY_NS_def)

subsection \<open>Lemmas: compiled calendars are well-formed\<close>

lemma args_parse_time_ok: "args_parse_time s = Inr t \<Longrightarrow> valid_time t \<and> t mod MIN_NS = 0"
  using from_hms_valid from_hms_minute
  by (fastforce simp: args_parse_time_def split: list.splits option.splits prod.splits)

lemma parse_window_pair_ok: "parse_window_pair a b = Inr (s, e) \<Longrightarrow> rule_ok (Window s e)"
  using args_parse_time_ok [of a s] args_parse_time_ok [of b e]
  by (simp add: parse_window_pair_def split: sum.splits)

lemma parse_window_args_ok:
  assumes "parse_window_args args = Inr (s, e)"
  shows "rule_ok (Window s e)"
proof (cases args rule: parse_window_args.cases)
  case 1
  with assms have False by (simp only: parse_window_args.simps sum.distinct)
  then show ?thesis ..
next
  case (2 a)
  then show ?thesis
  proof (cases "split_once ''..'' a")
    case None
    with assms 2 have False by (simp only: parse_window_args.simps option.case sum.distinct)
    then show ?thesis ..
  next
    case (Some ab)
    with assms 2 have "parse_window_pair (fst ab) (snd ab) = Inr (s, e)"
      by (simp only: parse_window_args.simps option.case split_beta)
    then show ?thesis by (rule parse_window_pair_ok)
  qed
next
  case (3 a b)
  with assms have "parse_window_pair a b = Inr (s, e)" by (simp only: parse_window_args.simps)
  then show ?thesis by (rule parse_window_pair_ok)
next
  case (4 a b d ds)
  with assms have False by (simp only: parse_window_args.simps sum.distinct)
  then show ?thesis ..
qed

lemma compile_rule_window: "compile_rule c p ty args = Inr (Window s e) \<Longrightarrow> parse_window_args args = Inr (s, e)"
  unfolding compile_rule_def
  by (simp only: split: if_split_asm sum.split_asm prod.split_asm) simp_all

lemma compile_rule_ok: "compile_rule c p ty args = Inr r \<Longrightarrow> rule_ok r"
  by (cases r) (auto dest!: compile_rule_window parse_window_args_ok simp del: rule_ok.simps(1))

lemma compile_rules_ok:
  "compile_rules c p rs incl excl = Inr (i, e) \<Longrightarrow> list_all rule_ok incl \<Longrightarrow> list_all rule_ok excl \<Longrightarrow>
     list_all rule_ok i \<and> list_all rule_ok e"
proof (induction rs arbitrary: incl excl)
  case (Cons r rs)
  from Cons.prems(1) obtain x where x: "compile_rule c p (rc_type r) (rc_args r) = Inr x"
    by (simp split: sum.split_asm)
  then have "rule_ok x" by (rule compile_rule_ok)
  with x Cons.prems Cons.IH show ?case by (simp split: if_split_asm)
qed simp

lemma from_config_ok: "from_config c p tzp utc cfg = Inr cal \<Longrightarrow> calendar_ok cal"
  by (auto simp: from_config_def calendar_ok_def Let_def dest!: compile_rules_ok split: sum.split_asm)

subsection \<open>Properties\<close>

definition sample_calendar :: Calendar where
  "sample_calendar = \<lparr>cal_name = ''office'', cal_tz = fixed_zone 0,
     cal_includes = [Window (28800 * SEC_NS) (64800 * SEC_NS)], cal_excludes = [Window (43200 * SEC_NS) (46800 * SEC_NS)]\<rparr>"

definition sample_config :: CalendarConfig where
  "sample_config = \<lparr>cc_name = ''office'', cc_timezone = None, cc_rules =
     [\<lparr>rc_kind = ''include'', rc_type = ''window'', rc_args = [''8:00..18:00'']\<rparr>,
      \<lparr>rc_kind = ''exclude'', rc_type = ''window'', rc_args = [''12:00'', ''13:00'']\<rparr>]\<rparr>"

lemma sample_compiles: "from_config gregorian (\<lambda>_. None) (\<lambda>_. None) (fixed_zone 0) sample_config = Inr sample_calendar"
proof -
  have "compile_rules gregorian (\<lambda>_. None) (cc_rules sample_config) [] [] =
      Inr (cal_includes sample_calendar, cal_excludes sample_calendar)"
    by (simp add: sample_config_def sample_calendar_def compile_rule_def parse_window_pair_def args_parse_time_def
        strip_prefix_def parse_unsigned_def is_ascii_digit_def digits_value_def digit_val_def U32_MAX_def from_hms_opt_def)
  then show ?thesis by (simp add: from_config_def sample_config_def sample_calendar_def)
qed

text \<open>C23: The factored form of a calendar is the calendar: for every calendar built from a configuration and
  every date, the computed interval set is sorted, disjoint and inside the day, and a time of day lies
  in it exactly when the rules (all includes match, no exclude matches) allow that time.\<close>

theorem allowed_intervals_refine:
  assumes "from_config c parse_ymd tz_parse utc cfg = Inr cal" and "valid_time t"
  shows "dayset_ok (allowed_intervals_on c cal date) \<and>
    (covers (allowed_intervals_on c cal date) (t div SEC_NS) \<longleftrightarrow> is_allowed c cal date t)"
  by (rule allowed_intervals_spec [OF from_config_ok [OF assms(1)] assms(2)])

theorem allowed_intervals_refine_witness:
  "from_config gregorian (\<lambda>_. None) (\<lambda>_. None) (fixed_zone 0) sample_config = Inr sample_calendar \<and>
   is_allowed gregorian sample_calendar 0 (30000 * SEC_NS)"
proof -
  have v: "valid_time (30000 * SEC_NS)" by (simp add: valid_time_def ns_defs)
  have "covers (allowed_intervals_on gregorian sample_calendar 0) (30000 * SEC_NS div SEC_NS)" by code_simp
  with allowed_intervals_refine [OF sample_compiles v, of 0] sample_compiles show ?thesis by simp
qed

end
