(* ===== verification/Gate.thy ===== *)
theory Gate
  imports Calendar
begin

text \<open>
  The search for the next opening of a calendar, \<^verbatim>\<open>next_instant_in\<close> and
  \<^verbatim>\<open>next_open_at_or_after\<close> of \<^verbatim>\<open>croniq-scheduler/src/calendar.rs\<close>: the local time found is
  the least open whole second, the instant it is resolved to is the least open one unless the clock is
  set back. The locale \<open>gate\<close> is what a trigger relies on.
\<close>

subsection \<open>Lemmas: the next open local time\<close>

definition open_local :: "(int \<Rightarrow> DaySet) \<Rightarrow> int \<Rightarrow> bool" where
  "open_local iv l \<longleftrightarrow> covers (iv (date_of l)) (time_of l div SEC_NS)"

lemma covers_range: "dayset_ok ivs \<Longrightarrow> covers ivs x \<Longrightarrow> 0 \<le> x \<and> x < DAY_SECS"
  by (fastforce simp: dayset_ok_def interval_ok_def covers_def)

lemma first_open_spec:
  "dayset_ok ivs \<Longrightarrow> 0 \<le> fs \<Longrightarrow>
     case first_open ofs fs date ivs of
       None \<Rightarrow> \<forall>x. covers ivs x \<longrightarrow> ofs = 0 \<and> x < fs
     | Some r \<Rightarrow> \<exists>x. r = Some (and_time date (x * SEC_NS)) \<and> covers ivs x \<and> (ofs = 0 \<longrightarrow> fs \<le> x) \<and>
         (x mod 60 = 0 \<or> ofs = 0 \<and> x = fs) \<and> (\<forall>y. covers ivs y \<longrightarrow> (ofs = 0 \<longrightarrow> fs \<le> y) \<longrightarrow> x \<le> y)"
proof (induction ivs)
  case (Cons iv ivs)
  obtain s e where iv: "iv = (s, e)" by (cases iv)
  let ?x = "if ofs = 0 then max fs s else s"
  have p: "0 \<le> s" "s < e" "e \<le> 86400" "s mod 60 = 0" "dayset_ok ivs" "covers ivs y \<Longrightarrow> e \<le> y" for y
    using Cons.prems covers_after [of ivs e y] by (auto simp: iv dayset_Cons DAY_SECS_def)
  show ?case
  proof (cases "?x < e")
    case True
    then have "first_open ofs fs date (iv # ivs) = Some (Some (and_time date (?x * SEC_NS)))"
      using p(1-3) Cons.prems(2) by (auto simp: iv Let_def from_num_seconds_from_midnight_opt_def)
    moreover have "\<forall>y. covers (iv # ivs) y \<longrightarrow> (ofs = 0 \<longrightarrow> fs \<le> y) \<longrightarrow> ?x \<le> y"
      using True p(6) by (fastforce simp: iv)
    moreover have "?x mod 60 = 0 \<or> ofs = 0 \<and> ?x = fs" using p(4) by (auto simp: max_def)
    ultimately show ?thesis using True by (auto simp: iv)
  next
    case False
    with p(2) have "ofs = 0" "e \<le> fs" by (auto split: if_splits)
    with False Cons.IH [OF p(5) Cons.prems(2)] show ?thesis
      by (auto simp: iv Let_def split: option.splits)
  qed
qed simp

definition opens_at :: "(int \<Rightarrow> DaySet) \<Rightarrow> int \<Rightarrow> int \<Rightarrow> nat \<Rightarrow> int \<Rightarrow> bool" where
  "opens_at iv d fs n x \<longleftrightarrow> covers (iv (d + int n)) x \<and> (n = 0 \<longrightarrow> fs \<le> x)"

lemma scan_open_spec:
  assumes "\<And>d. dayset_ok (iv d)" and "0 \<le> fs"
  shows "case scan_open c iv d fs [a..<b] of
       None \<Rightarrow> \<forall>n x. a \<le> n \<longrightarrow> n < b \<longrightarrow> d + int n \<le> max_date c \<longrightarrow> \<not> opens_at iv d fs n x
     | Some l \<Rightarrow> \<exists>n x. a \<le> n \<and> n < b \<and> l = and_time (d + int n) (x * SEC_NS) \<and> opens_at iv d fs n x \<and>
         (x mod 60 = 0 \<or> n = 0 \<and> x = fs) \<and>
         (\<forall>m y. a \<le> m \<longrightarrow> opens_at iv d fs m y \<longrightarrow> n < m \<or> n = m \<and> x \<le> y)"
proof (induction "b - a" arbitrary: a)
  case (Suc k)
  then have ab: "[a..<b] = a # [Suc a..<b]" by (simp add: upt_conv_Cons)
  note f = first_open_spec [OF assms(1) [of "d + int a"] assms(2), of a "d + int a"]
  consider (far) "\<not> d + int a \<le> max_date c"
    | (here) r where "d + int a \<le> max_date c" "first_open a fs (d + int a) (iv (d + int a)) = Some r"
    | (later) "d + int a \<le> max_date c" "first_open a fs (d + int a) (iv (d + int a)) = None" by fastforce
  then show ?case
  proof cases
    case far
    then show ?thesis by (auto simp: ab checked_add_days_def)
  next
    case here
    with f obtain x where x: "r = Some (and_time (d + int a) (x * SEC_NS))" "opens_at iv d fs a x"
      "x mod 60 = 0 \<or> a = 0 \<and> x = fs" "\<forall>y. opens_at iv d fs a y \<longrightarrow> x \<le> y"
      by (auto simp: opens_at_def)
    have "\<forall>m y. a \<le> m \<longrightarrow> opens_at iv d fs m y \<longrightarrow> a < m \<or> a = m \<and> x \<le> y" using x(4) le_neq_implies_less by blast
    with here x show ?thesis using Suc.hyps(2) by (auto simp: ab checked_add_days_def intro!: exI [of _ a])
  next
    case later
    with f have no: "\<not> opens_at iv d fs a y" for y by (auto simp: opens_at_def)
    have sc: "scan_open c iv d fs [a..<b] = scan_open c iv d fs [Suc a..<b]"
      using later by (simp add: ab checked_add_days_def)
    have split: "a \<le> n \<and> opens_at iv d fs n x \<longleftrightarrow> Suc a \<le> n \<and> opens_at iv d fs n x" for n x
      using no by (metis Suc_leD Suc_leI le_neq_implies_less)
    have "k = b - Suc a" using Suc.hyps(2) by simp
    from Suc.hyps(1) [OF this] show ?thesis
      unfolding sc by (cases "scan_open c iv d fs [Suc a..<b]") (use split in \<open>simp; metis\<close>)+
  qed
qed simp

lemma ceil_secs: "t div SEC_NS + (if nanosecond t > 0 then 1 else 0) \<le> y \<longleftrightarrow> t \<le> y * SEC_NS"
proof -
  have t: "t = t div SEC_NS * 1000000000 + nanosecond t" "0 \<le> nanosecond t" "nanosecond t < 1000000000"
    by (simp_all add: nanosecond_def SEC_NS_def)
  then show ?thesis
    unfolding SEC_NS_def [symmetric] by (cases "nanosecond t > 0") (simp_all add: SEC_NS_def, linarith+)
qed

lemma whole_second_time:
  assumes "u mod SEC_NS = 0"
  shows "time_of u div SEC_NS * SEC_NS = time_of u"
proof -
  have "DAY_NS = SEC_NS * DAY_SECS" by (simp add: ns_defs DAY_SECS_def)
  then have "time_of u mod SEC_NS = u mod SEC_NS" by (metis dvd_triv_left mod_mod_cancel time_of_def)
  with assms show ?thesis by (metis add.right_neutral div_mult_mod_eq)
qed

lemma valid_time_secs: "0 \<le> x \<Longrightarrow> x < DAY_SECS \<Longrightarrow> valid_time (x * SEC_NS)"
  by (simp add: valid_time_def ns_defs DAY_SECS_def)

definition ceil_time :: "int \<Rightarrow> int" where
  "ceil_time l = time_of l div SEC_NS + (if nanosecond (time_of l) > 0 then 1 else 0)"

lemma opens_at_local:
  assumes "from \<le> u" and "u mod SEC_NS = 0" and "open_local iv u"
  shows "opens_at iv (date_of from) (ceil_time from) (nat (date_of u - date_of from)) (time_of u div SEC_NS)"
proof -
  have d: "date_of from \<le> date_of u" by (rule date_of_mono [OF assms(1)])
  have "ceil_time from \<le> time_of u div SEC_NS" if "date_of u = date_of from"
  proof -
    have "time_of from \<le> time_of u" using assms(1) that and_time_date_time
      by (metis add_le_cancel_left and_time_def)
    then show ?thesis unfolding ceil_time_def ceil_secs whole_second_time [OF assms(2)] .
  qed
  with d assms(3) show ?thesis by (auto simp: opens_at_def open_local_def)
qed

lemma local_opens_at:
  assumes "opens_at iv (date_of from) (ceil_time from) n x" and "0 \<le> x" and "x < DAY_SECS"
  shows "from \<le> and_time (date_of from + int n) (x * SEC_NS)"
proof (cases "n = 0")
  case True
  with assms(1) have "ceil_time from \<le> x" by (simp add: opens_at_def)
  then have "time_of from \<le> x * SEC_NS" by (simp add: ceil_time_def ceil_secs)
  with True show ?thesis using and_time_date_time [of "from"] by (simp add: and_time_def)
next
  case False
  then show ?thesis
    using and_time_mono [OF valid_time_of valid_time_secs [OF assms(2,3)], of "date_of from" "date_of from + int n" "from"]
      and_time_date_time [of "from"] by simp
qed

lemma and_time_whole: "and_time d (x * SEC_NS) mod SEC_NS = 0"
proof -
  have "and_time d (x * SEC_NS) = (d * DAY_SECS + x) * SEC_NS"
    by (simp add: and_time_def ns_defs DAY_SECS_def algebra_simps)
  then show ?thesis by simp
qed

lemma and_time_secs_minute: "x mod 60 = 0 \<Longrightarrow> and_time d (x * SEC_NS) mod MIN_NS = 0"
proof -
  assume "x mod 60 = 0"
  then obtain q where "x = 60 * q" by (metis mod_0_imp_dvd dvdE)
  then have "x * SEC_NS mod MIN_NS = 0" by (simp add: ns_defs)
  then show ?thesis by (rule and_time_minute)
qed

lemma ceil_within: "and_time (date_of l) (ceil_time l * SEC_NS) < l + SEC_NS"
proof -
  have "time_of l = time_of l div SEC_NS * SEC_NS + nanosecond (time_of l)" "0 \<le> nanosecond (time_of l)"
    by (simp_all add: nanosecond_def SEC_NS_def)
  then have "ceil_time l * SEC_NS < time_of l + SEC_NS" by (auto simp: ceil_time_def SEC_NS_def)
  then show ?thesis using and_time_date_time [of l] by (simp add: and_time_def)
qed

lemma opens_at_least:
  assumes "from \<le> u" and "u mod SEC_NS = 0" and "0 \<le> x" and "x < DAY_SECS"
    and "n < nat (date_of u - date_of from) \<or> n = nat (date_of u - date_of from) \<and> x \<le> time_of u div SEC_NS"
  shows "and_time (date_of from + int n) (x * SEC_NS) \<le> u"
proof -
  from assms(5) date_of_mono [OF assms(1)]
  consider "date_of from + int n < date_of u" | "date_of from + int n = date_of u" "x \<le> time_of u div SEC_NS"
    by linarith
  then show ?thesis
  proof cases
    case 1
    then show ?thesis
      using and_time_mono [OF valid_time_secs [OF assms(3,4)] valid_time_of, of "date_of from + int n" "date_of u" u]
        and_time_date_time [of u] by simp
  next
    case 2
    then have "x * SEC_NS \<le> time_of u" using whole_second_time [OF assms(2)] by (simp add: SEC_NS_def)
    with 2 show ?thesis using and_time_date_time [of u] by (simp add: and_time_def)
  qed
qed

lemma next_instant_scan:
  "next_instant_in c from iv = scan_open c iv (date_of from) (ceil_time from) [0..<Suc MAX_SCAN_DAYS]"
  by (simp only: next_instant_in_def ceil_time_def Let_def num_seconds_from_midnight_def)

lemma ceil_time_nonneg: "0 \<le> ceil_time l"
  using secs_of_time [of "time_of l"] by (simp add: ceil_time_def)

lemma next_instant_None:
  assumes "\<And>d. dayset_ok (iv d)" and "next_instant_in c from iv = None" and "from \<le> u" and "u mod SEC_NS = 0"
    and "date_of u \<le> date_of from + int MAX_SCAN_DAYS" and "date_of u \<le> max_date c"
  shows "\<not> open_local iv u"
proof
  let ?n = "nat (date_of u - date_of from)"
  assume "open_local iv u"
  from opens_at_local [OF assms(3,4) this]
  have "opens_at iv (date_of from) (ceil_time from) ?n (time_of u div SEC_NS)" .
  moreover have "?n < Suc MAX_SCAN_DAYS" "date_of from + int ?n \<le> max_date c"
    using assms(5,6) date_of_mono [OF assms(3)] by linarith+
  ultimately show False
    using scan_open_spec [where iv = iv, OF assms(1) ceil_time_nonneg [of "from"], where c = c and d = "date_of from" and a = 0 and b = "Suc MAX_SCAN_DAYS"]
      assms(2) [unfolded next_instant_scan] by (auto simp del: upt_Suc)
qed

lemma next_instant_Some:
  assumes "\<And>d. dayset_ok (iv d)" and "next_instant_in c from iv = Some l"
  shows "from \<le> l" "l mod SEC_NS = 0" "open_local iv l" "l mod MIN_NS = 0 \<or> l < from + SEC_NS"
    "date_of l \<le> date_of from + int MAX_SCAN_DAYS"
    "from \<le> u \<Longrightarrow> u mod SEC_NS = 0 \<Longrightarrow> open_local iv u \<Longrightarrow> l \<le> u"
proof -
  let ?o = "opens_at iv (date_of from) (ceil_time from)"
  obtain n x where l: "n < Suc MAX_SCAN_DAYS" "l = and_time (date_of from + int n) (x * SEC_NS)"
      "?o n x" "x mod 60 = 0 \<or> n = 0 \<and> x = ceil_time from"
    and least: "\<And>m y. ?o m y \<Longrightarrow> n < m \<or> n = m \<and> x \<le> y"
    using scan_open_spec [where iv = iv, OF assms(1) ceil_time_nonneg [of "from"], where c = c and d = "date_of from" and a = 0 and b = "Suc MAX_SCAN_DAYS"]
      assms(2) [unfolded next_instant_scan] by (auto simp del: upt_Suc)
  have x: "0 \<le> x" "x < DAY_SECS" using covers_range [OF assms(1)] l(3) by (auto simp: opens_at_def)
  have dl: "date_of l = date_of from + int n" "time_of l = x * SEC_NS" using l(2) valid_time_secs [OF x] by simp_all
  show "from \<le> l" unfolding l(2) by (rule local_opens_at [OF l(3) x])
  show "l mod SEC_NS = 0" unfolding l(2) by (rule and_time_whole)
  show "open_local iv l" using l(3) dl by (simp add: open_local_def opens_at_def SEC_NS_def)
  show "l mod MIN_NS = 0 \<or> l < from + SEC_NS"
    using l(4) ceil_within [of "from"] and_time_secs_minute unfolding l(2) by auto
  show "date_of l \<le> date_of from + int MAX_SCAN_DAYS" using dl(1) l(1) by simp
  show "from \<le> u \<Longrightarrow> u mod SEC_NS = 0 \<Longrightarrow> open_local iv u \<Longrightarrow> l \<le> u"
    unfolding l(2) by (rule opens_at_least [OF _ _ x]) (auto dest: least [OF opens_at_local])
qed

subsection \<open>Lemmas: the next open instant\<close>

text \<open>The clock is not set back between two instants.\<close>

definition steady :: "Tz \<Rightarrow> instant \<Rightarrow> instant \<Rightarrow> bool" where
  "steady z a b \<longleftrightarrow> (\<forall>v w. a \<le> v \<longrightarrow> v \<le> w \<longrightarrow> w \<le> b \<longrightarrow> to_local z v \<le> to_local z w)"

lemma steady_sub: "steady z a b \<Longrightarrow> a \<le> a' \<Longrightarrow> b' \<le> b \<Longrightarrow> steady z a' b'"
  by (auto simp: steady_def)

lemma fixed_zone_steady [simp]: "steady (fixed_zone off) a b"
  by (simp add: steady_def fixed_zone_def)

lemma whole_second_local: "whole_second_offsets z \<Longrightarrow> to_local z v mod SEC_NS = v mod SEC_NS"
  by (simp add: whole_second_offsets_def nanosecond_def)

lemma resolve_shown:
  assumes "zone_ok z" and "from_local z l \<noteq> MNone" and "resolve_local_at_or_after z l floor = Some u"
    and "to_local z floor \<le> l"
  shows "to_local z u = l \<and> floor \<le> u"
proof (cases "from_local z l")
  case (Single x)
  with assms(3) have "u = x" by (simp add: resolve_local_at_or_after_def resolve_local_def)
  with zone_maps [OF assms(1) Single] assms(4) show ?thesis by (auto simp: maps_to_def) (metis not_le)
next
  case (Ambiguous e f)
  with assms(3) have "u = (if floor \<le> e then e else f)" by (simp add: resolve_local_at_or_after_def)
  with zone_maps [OF assms(1) Ambiguous] assms(4) show ?thesis by (auto simp: maps_to_def) (metis not_le)
qed (use assms(2) in simp)

lemma resolve_gap:
  assumes "zone_ok z" and "from_local z l = MNone" and "resolve_local_at_or_after z l floor = Some u"
    and "to_local z floor \<le> l"
  shows "\<exists>k > 0. first_at z (l + k * MIN_NS) = Some u \<and>
      (\<forall>j. 0 \<le> j \<longrightarrow> j < k \<longrightarrow> from_local z (l + j * MIN_NS) = MNone)"
    and "floor < u"
proof -
  from assms(2,3) have "resolve_local z l = Some u" by (simp add: resolve_local_at_or_after_def)
  from resolve_first [OF this] obtain k where k: "0 \<le> k" "first_at z (l + k * MIN_NS) = Some u"
      "\<forall>j. 0 \<le> j \<longrightarrow> j < k \<longrightarrow> from_local z (l + j * MIN_NS) = MNone" by blast
  have "k \<noteq> 0" using k(2) assms(2) first_at_None [of z l] by auto
  with k show "\<exists>k > 0. first_at z (l + k * MIN_NS) = Some u \<and>
      (\<forall>j. 0 \<le> j \<longrightarrow> j < k \<longrightarrow> from_local z (l + j * MIN_NS) = MNone)" by (intro exI [of _ k]) simp
  have "l < to_local z u" using first_at_Some(1) [OF assms(1) k(2)] \<open>k \<noteq> 0\<close> k(1) by (simp add: MIN_NS_def)
  moreover have "to_local z floor < l" using gap_unreached [OF assms(1,2), of floor] assms(4) by simp
  ultimately show "floor < u" by (rule gap_separates [OF assms(1,2), rotated])
qed

text \<open>A gap lies on whole minutes, so the local time searched for is in it only when it is a whole minute.\<close>

lemma gap_at_minute:
  assumes "zone_ok z" and "gaps_on_minutes z" and "from_local z l = MNone"
    and "to_local z t \<le> l" and "l mod SEC_NS = 0" and "l mod MIN_NS = 0 \<or> l < to_local z t + SEC_NS"
  shows "l mod MIN_NS = 0"
proof (rule ccontr)
  assume nm: "l mod MIN_NS \<noteq> 0"
  define q r where "q = l div MIN_NS" and "r = l mod MIN_NS"
  have l: "l = q * MIN_NS + r" "0 \<le> r" "r < MIN_NS" by (simp_all add: q_def r_def MIN_NS_def)
  have "r mod SEC_NS = l mod SEC_NS"
    unfolding r_def by (rule mod_mod_cancel) (simp add: ns_defs)
  with assms(5) have "r mod SEC_NS = 0" by simp
  moreover have "r \<noteq> 0" using nm by (simp add: r_def)
  ultimately have "SEC_NS \<le> r" using l(2) by (metis mod_pos_pos_trivial not_le)
  then have "q * MIN_NS \<le> to_local z t" "to_local z t < q * MIN_NS + MIN_NS" using nm assms(4,6) l by auto
  then have "to_local z t div MIN_NS = l div MIN_NS" unfolding q_def [symmetric] by (simp add: MIN_NS_def)
  with assms(2,3) have "from_local z (to_local z t) = MNone" unfolding gaps_on_minutes_def by blast
  with gap_unreached [OF assms(1)] show False by blast
qed

definition gate_zone :: "Tz \<Rightarrow> bool" where
  "gate_zone z \<longleftrightarrow> zone_ok z \<and> gaps_on_minutes z \<and> whole_second_offsets z"

lemma gate_zoneD: "gate_zone z \<Longrightarrow> zone_ok z" "gate_zone z \<Longrightarrow> gaps_on_minutes z" "gate_zone z \<Longrightarrow> whole_second_offsets z"
  by (simp_all add: gate_zone_def)

lemma next_open_cases:
  assumes "\<And>d. dayset_ok (iv d)" and "gate_zone z" and "next_instant_in c (to_local z t) iv = Some l"
    and "resolve_local_at_or_after z l t = Some u"
  shows "t \<le> u" "u mod SEC_NS = 0" "u = t \<or> from_local z l \<noteq> MNone \<Longrightarrow> open_local iv (to_local z u)"
proof -
  note l = next_instant_Some [where iv = iv, OF assms(1,3)]
  note shown = resolve_shown [OF gate_zoneD(1) [OF assms(2)] _ assms(4) l(1)]
  note gap = resolve_gap [OF gate_zoneD(1) [OF assms(2)] _ assms(4) l(1)]
  show "t \<le> u" using shown gap(2) by (cases "from_local z l = MNone") auto
  show "u = t \<or> from_local z l \<noteq> MNone \<Longrightarrow> open_local iv (to_local z u)"
    using shown gap(2) l(3) by (cases "from_local z l = MNone") auto
  have "to_local z u mod SEC_NS = 0"
  proof (cases "from_local z l = MNone")
    case True
    then obtain k where "first_at z (l + k * MIN_NS) = Some u" using gap(1) by blast
    then have "to_local z u = l + k * MIN_NS" by (rule first_at_Some(1) [OF gate_zoneD(1) [OF assms(2)]])
    moreover have "k * MIN_NS = k * 60 * SEC_NS" by (simp add: ns_defs)
    ultimately show ?thesis using l(2) by simp
  qed (use shown l(2) in simp)
  then show "u mod SEC_NS = 0" by (simp add: whole_second_local [OF gate_zoneD(3) [OF assms(2)]])
qed

lemma next_open_skips:
  assumes "\<And>d. dayset_ok (iv d)" and "gate_zone z" and "next_instant_in c (to_local z t) iv = Some l"
    and "resolve_local_at_or_after z l t = Some u" and "steady z t u"
    and "t \<le> v" and "v < u" and "v mod SEC_NS = 0"
  shows "\<not> open_local iv (to_local z v)"
proof
  note z = gate_zoneD [OF assms(2)]
  note l = next_instant_Some [where iv = iv, OF assms(1,3)]
  assume "open_local iv (to_local z v)"
  moreover have "to_local z t \<le> to_local z v" using assms(5-7) by (simp add: steady_def)
  moreover have "to_local z v mod SEC_NS = 0" using assms(8) by (simp add: whole_second_local [OF z(3)])
  ultimately have lv: "l \<le> to_local z v" by (intro l(6))
  have vu: "to_local z v \<le> to_local z u" using assms(5-7) by (simp add: steady_def)
  show False
  proof (cases "from_local z l")
    case MNone
    note g = resolve_gap(1) [OF z(1) MNone assms(4) l(1)]
    from g obtain k where k: "first_at z (l + k * MIN_NS) = Some u"
      "\<forall>j. 0 \<le> j \<longrightarrow> j < k \<longrightarrow> from_local z (l + j * MIN_NS) = MNone" by blast
    have "l + k * MIN_NS \<le> to_local z v"
      by (rule minute_gap_unreached [OF z(1,2) gap_at_minute [OF z(1,2) MNone l(1,2,4)] k(2) lv])
    with first_at_Some(2) [OF z(1) k(1) assms(7)] show False by simp
  next
    case (Single x)
    have eq: "w = x" if "to_local z w = l" for w
      using zone_maps [OF z(1) Single] that by (auto simp: maps_to_def) (metis less_irrefl linorder_neqE)
    have "to_local z u = l" using resolve_shown [OF z(1) _ assms(4) l(1)] Single by simp
    with eq [of u] eq [of v] lv vu assms(7) show False by simp
  next
    case (Ambiguous e f)
    with resolve_shown [OF z(1) _ assms(4) l(1)] have u: "to_local z u = l" by simp
    with lv vu have "to_local z v = l" by simp
    with zone_maps [OF z(1) Ambiguous] u assms(7) have "v = e" "u = f" by (auto simp: maps_to_def)
    with assms(4,6) Ambiguous assms(7) show False by (simp add: resolve_local_at_or_after_def)
  qed
qed

subsection \<open>The interface of a gate\<close>

text \<open>
  What a trigger relies on of a calendar or a window: the next opening is not before the asked
  instant, an answer equal to the asked instant means the gate is open there, no whole second before
  the answer is open as long as the clock is not set back in between, and asked at a whole second the
  gate answers with one.
\<close>

locale gate =
  fixes ok :: "'g \<Rightarrow> bool" and opn :: "'g \<Rightarrow> instant \<Rightarrow> bool" and nxt :: "'g \<Rightarrow> instant \<Rightarrow> instant option"
    and calm :: "'g \<Rightarrow> instant \<Rightarrow> instant \<Rightarrow> bool"
  assumes nxt_ge: "ok g \<Longrightarrow> nxt g t = Some u \<Longrightarrow> t \<le> u"
    and nxt_same: "ok g \<Longrightarrow> nxt g t = Some t \<Longrightarrow> opn g t"
    and nxt_skips: "ok g \<Longrightarrow> nxt g t = Some u \<Longrightarrow> calm g t u \<Longrightarrow> t \<le> v \<Longrightarrow> v < u \<Longrightarrow> v mod SEC_NS = 0 \<Longrightarrow> \<not> opn g v"
    and nxt_whole: "ok g \<Longrightarrow> nxt g t = Some u \<Longrightarrow> t mod SEC_NS = 0 \<Longrightarrow> u mod SEC_NS = 0"
    and calm_sub: "calm g a b \<Longrightarrow> a \<le> a' \<Longrightarrow> b' \<le> b \<Longrightarrow> calm g a' b'"
begin

lemma open_stays: "ok g \<Longrightarrow> opn g t \<Longrightarrow> t mod SEC_NS = 0 \<Longrightarrow> nxt g t = Some u \<Longrightarrow> calm g t u \<Longrightarrow> u = t"
  using nxt_ge [of g t u] nxt_skips [of g t u t] by force

end

definition calendar_gate_ok :: "Civil \<times> Calendar \<Rightarrow> bool" where
  "calendar_gate_ok = (\<lambda>(c, cal). calendar_ok cal \<and> gate_zone (cal_tz cal))"

lemma is_allowed_open:
  "calendar_ok cal \<Longrightarrow> is_allowed_at c cal t \<longleftrightarrow> open_local (allowed_intervals_on c cal) (to_local (cal_tz cal) t)"
  using allowed_intervals_spec [OF _ valid_time_of] by (simp add: is_allowed_at_def open_local_def Let_def)

interpretation cg: gate calendar_gate_ok "\<lambda>(c, cal). is_allowed_at c cal" "\<lambda>(c, cal). next_open_at_or_after c cal"
  "\<lambda>(c, cal). steady (cal_tz cal)"
proof unfold_locales
  fix g :: "Civil \<times> Calendar" and t u v
  obtain c cal where g: "g = (c, cal)" by (cases g)
  note [simp] = g calendar_gate_ok_def next_open_at_or_after_def
  assume ok: "calendar_gate_ok g" and n: "(case g of (c, cal) \<Rightarrow> next_open_at_or_after c cal) t = Some u"
  then obtain l where l: "next_instant_in c (to_local (cal_tz cal) t) (allowed_intervals_on c cal) = Some l"
      "resolve_local_at_or_after (cal_tz cal) l t = Some u" by (auto split: option.splits)
  have r: "\<And>d. dayset_ok (allowed_intervals_on c cal d)" "gate_zone (cal_tz cal)" "calendar_ok cal"
    using ok by (simp_all add: allowed_intervals_ok)
  show "t \<le> u" by (rule next_open_cases(1) [OF r(1,2) l])
  show "u mod SEC_NS = 0" by (rule next_open_cases(2) [OF r(1,2) l])
  show "(case g of (c, cal) \<Rightarrow> steady (cal_tz cal)) t u \<Longrightarrow> t \<le> v \<Longrightarrow> v < u \<Longrightarrow> v mod SEC_NS = 0 \<Longrightarrow>
    \<not> (case g of (c, cal) \<Rightarrow> is_allowed_at c cal) v"
    using next_open_skips [OF r(1,2) l] by (simp add: is_allowed_open [OF r(3)])
next
  fix g :: "Civil \<times> Calendar" and t
  obtain c cal where g: "g = (c, cal)" by (cases g)
  assume "calendar_gate_ok g" and "(case g of (c, cal) \<Rightarrow> next_open_at_or_after c cal) t = Some t"
  then show "(case g of (c, cal) \<Rightarrow> is_allowed_at c cal) t"
    using next_open_cases(3) [of "allowed_intervals_on c cal" "cal_tz cal" c t _ t]
    by (auto simp: g calendar_gate_ok_def next_open_at_or_after_def is_allowed_open allowed_intervals_ok split: option.splits)
qed (auto intro: steady_sub)

lemma next_open_None:
  assumes "calendar_ok cal" and "next_allowed_after c cal l = None" and "l \<le> u" and "u mod SEC_NS = 0"
    and "date_of u \<le> date_of l + int MAX_SCAN_DAYS" and "date_of u \<le> max_date c"
  shows "\<not> is_allowed c cal (date_of u) (time_of u)"
  using next_instant_None [where iv = "allowed_intervals_on c cal", OF allowed_intervals_ok [OF assms(1)] _ assms(3-6)]
    assms(2) allowed_intervals_spec [OF assms(1) valid_time_of]
  by (simp add: next_allowed_after_def open_local_def)

lemma next_open_Some:
  assumes "calendar_ok cal" and "next_allowed_after c cal l = Some u"
  shows "l \<le> u" "is_allowed c cal (date_of u) (time_of u)" "date_of u \<le> date_of l + int MAX_SCAN_DAYS"
    "l \<le> v \<Longrightarrow> v mod SEC_NS = 0 \<Longrightarrow> is_allowed c cal (date_of v) (time_of v) \<Longrightarrow> u \<le> v"
  using next_instant_Some [where iv = "allowed_intervals_on c cal", OF allowed_intervals_ok [OF assms(1)], of c l u]
    assms(2) allowed_intervals_spec [OF assms(1) valid_time_of]
  by (auto simp: next_allowed_after_def open_local_def)

lemma sample_calendar_ok [simp]: "calendar_ok sample_calendar" "cal_tz sample_calendar = fixed_zone 0"
  by (simp_all add: calendar_ok_def sample_calendar_def valid_time_def ns_defs)

lemma fixed_gate_zone [simp]: "gate_zone (fixed_zone off)"
  by (simp add: gate_zone_def fixed_zone_ok fixed_zone_props)

lemma scan_first_day:
  "next_instant_in c l iv =
     (case checked_add_days c (date_of l) 0 of None \<Rightarrow> None
      | Some date \<Rightarrow> (case first_open 0 (ceil_time l) date (iv date) of Some r \<Rightarrow> r
          | None \<Rightarrow> scan_open c iv (date_of l) (ceil_time l) [1..<Suc MAX_SCAN_DAYS]))"
proof -
  have "[0..<Suc MAX_SCAN_DAYS] = 0 # [1..<Suc MAX_SCAN_DAYS]" by (simp add: upt_conv_Cons del: upt_Suc)
  then show ?thesis unfolding next_instant_scan by (simp only: scan_open.simps)
qed

lemma scan_second_day:
  "scan_open c iv d fs [1..<Suc MAX_SCAN_DAYS] =
     (case checked_add_days c d 1 of None \<Rightarrow> None
      | Some date \<Rightarrow> (case first_open 1 fs date (iv date) of Some r \<Rightarrow> r
          | None \<Rightarrow> scan_open c iv d fs [Suc 1..<Suc MAX_SCAN_DAYS]))"
proof -
  have "[1..<Suc MAX_SCAN_DAYS] = 1 # [Suc 1..<Suc MAX_SCAN_DAYS]"
    by (rule upt_conv_Cons) (simp add: MAX_SCAN_DAYS_def)
  then show ?thesis by (simp only: scan_open.simps)
qed

lemma sample_opening:
  "next_instant_in gregorian 0 (allowed_intervals_on gregorian sample_calendar) = Some (28800 * SEC_NS)"
proof -
  have "allowed_intervals_on gregorian sample_calendar 0 = [(28800, 43200), (46800, 64800)]" by code_simp
  then show ?thesis
    unfolding scan_first_day
    by (simp add: date_of_def time_of_def ceil_time_def nanosecond_def checked_add_days_def gregorian_def
        from_num_seconds_from_midnight_opt_def and_time_def ns_defs)
qed

subsection \<open>Properties\<close>

text \<open>C24: The search over days finds the earliest opening of a calendar's own clock: an answer is not before
  the asked local time, is allowed and no allowed whole second precedes it; no answer means that
  nothing is allowed at any whole second of the next 1462 days.\<close>

theorem next_allowed_earliest:
  assumes "calendar_ok cal"
  shows "case next_allowed_after c cal l of
      None \<Rightarrow> \<forall>u. l \<le> u \<and> u mod SEC_NS = 0 \<and> date_of u \<le> date_of l + 1462 \<and> date_of u \<le> max_date c \<longrightarrow>
        \<not> is_allowed c cal (date_of u) (time_of u)
    | Some u \<Rightarrow> l \<le> u \<and> is_allowed c cal (date_of u) (time_of u) \<and>
        (\<forall>v. l \<le> v \<and> v < u \<and> v mod SEC_NS = 0 \<longrightarrow> \<not> is_allowed c cal (date_of v) (time_of v))"
proof (cases "next_allowed_after c cal l")
  case None
  with next_open_None [OF assms None] show ?thesis by (simp add: MAX_SCAN_DAYS_def)
next
  case (Some u)
  with next_open_Some [OF assms Some] show ?thesis by fastforce
qed

theorem next_allowed_earliest_witness:
  "is_allowed gregorian sample_calendar 0 (28800 * SEC_NS) \<and> \<not> is_allowed gregorian sample_calendar 0 0"
proof -
  have n: "next_allowed_after gregorian sample_calendar 0 = Some (28800 * SEC_NS)"
    using sample_opening by (simp add: next_allowed_after_def)
  from next_allowed_earliest [OF sample_calendar_ok(1), where c = gregorian and l = 0] show ?thesis
    unfolding n by (simp add: date_of_def time_of_def ns_defs)
qed

text \<open>C25: On the time line, for calendars built from a configuration in a zone with whole-second offsets and
  gaps on whole minutes: the next opening is a whole second not before the asked instant; when it is
  the asked instant itself the calendar is open there; and unless the calendar's clock is set back in
  between, no whole second before it is open, skipped hours included.\<close>

theorem next_opening_skips_nothing:
  assumes "from_config c parse_ymd tz_parse utc cfg = Inr cal" and "gate_zone (cal_tz cal)"
    and "next_open_at_or_after c cal t = Some u"
  shows "t \<le> u \<and> u mod SEC_NS = 0 \<and> (u = t \<longrightarrow> is_allowed_at c cal t) \<and>
    (steady (cal_tz cal) t u \<longrightarrow> (\<forall>v. t \<le> v \<and> v < u \<and> v mod SEC_NS = 0 \<longrightarrow> \<not> is_allowed_at c cal v))"
proof -
  have ok: "calendar_gate_ok (c, cal)" using from_config_ok [OF assms(1)] assms(2) by (simp add: calendar_gate_ok_def)
  have iv: "\<And>d. dayset_ok (allowed_intervals_on c cal d)" by (rule allowed_intervals_ok [OF from_config_ok [OF assms(1)]])
  obtain l where l: "next_instant_in c (to_local (cal_tz cal) t) (allowed_intervals_on c cal) = Some l"
    "resolve_local_at_or_after (cal_tz cal) l t = Some u"
    using assms(3) by (auto simp: next_open_at_or_after_def split: option.splits)
  show ?thesis
    using cg.nxt_ge [OF ok, of t u] cg.nxt_same [OF ok, of t] cg.nxt_skips [OF ok, of t u] assms(3)
      next_open_cases(2) [OF iv assms(2) l] by auto
qed

theorem next_opening_skips_nothing_witness:
  "next_open_at_or_after gregorian sample_calendar 0 = Some (28800 * SEC_NS) \<and>
   \<not> is_allowed_at gregorian sample_calendar (20000 * SEC_NS)"
proof -
  have ok: "from_config gregorian (\<lambda>_. None) (\<lambda>_. None) (fixed_zone 0) sample_config = Inr sample_calendar"
    by (rule sample_compiles)
  have n: "next_open_at_or_after gregorian sample_calendar 0 = Some (28800 * SEC_NS)"
    by (simp add: sample_opening sample_calendar_ok(2) next_open_at_or_after_def resolve_local_at_or_after_def resolve_local_def fixed_zone_def)
  from next_opening_skips_nothing [OF ok _ n] have "\<not> is_allowed_at gregorian sample_calendar (20000 * SEC_NS)"
    by (simp add: SEC_NS_def)
  with n show ?thesis by simp
qed

definition night_calendar :: Calendar where
  "night_calendar = \<lparr>cal_name = ''night'', cal_tz = fold_zone 7200 3600,
     cal_includes = [Window (7200 * SEC_NS) (8400 * SEC_NS)], cal_excludes = []\<rparr>"

text \<open>
  When the clock is set back, the search can miss an opening. The clock shows 02:00 to 03:00 twice and the calendar
  is open from 02:00 to 02:20. Asked at the first 02:30, the answer is 02:00 of the next day, although
  the calendar is open again half an hour later, at the second 02:00.
\<close>

lemma repeated_hour_opening_missed:
  "gate_zone (cal_tz night_calendar) \<and> calendar_ok night_calendar \<and>
   next_open_at_or_after gregorian night_calendar (5400 * SEC_NS) = Some (93600 * SEC_NS) \<and>
   is_allowed_at gregorian night_calendar (7200 * SEC_NS)"
proof -
  have z: "gate_zone (fold_zone 7200 3600)"
    using fold_zone_ok [of 3600 7200]
    by (simp add: gate_zone_def) (simp add: gaps_on_minutes_def whole_second_offsets_def fold_zone_def nanosecond_def)
  have iv: "allowed_intervals_on gregorian night_calendar 0 = [(7200, 8400)]"
    "allowed_intervals_on gregorian night_calendar 1 = [(7200, 8400)]" by code_simp+
  have "next_instant_in gregorian (9000 * SEC_NS) (allowed_intervals_on gregorian night_calendar) = Some (93600 * SEC_NS)"
  proof -
    have "checked_add_days gregorian 0 0 = Some 0" "checked_add_days gregorian 0 1 = Some 1"
      by (simp_all add: checked_add_days_def gregorian_def)
    moreover have "date_of (9000 * SEC_NS) = 0" "ceil_time (9000 * SEC_NS) = 9000"
      by (simp_all add: date_of_def time_of_def ceil_time_def nanosecond_def ns_defs)
    ultimately show ?thesis
      unfolding scan_first_day scan_second_day
      by (simp add: iv from_num_seconds_from_midnight_opt_def and_time_def DAY_NS_def SEC_NS_def)
  qed
  then have "next_open_at_or_after gregorian night_calendar (5400 * SEC_NS) = Some (93600 * SEC_NS)"
    by (simp add: next_open_at_or_after_def night_calendar_def fold_zone_def resolve_local_at_or_after_def resolve_local_def SEC_NS_def)
  moreover have "is_allowed_at gregorian night_calendar (7200 * SEC_NS)"
    by (simp add: is_allowed_at_def is_allowed_def night_calendar_def fold_zone_def time_of_def ns_defs)
  moreover have "calendar_ok night_calendar" "cal_tz night_calendar = fold_zone 7200 3600"
    by (simp_all add: calendar_ok_def night_calendar_def valid_time_def ns_defs)
  ultimately show ?thesis using z by simp
qed

definition leap_calendar :: Calendar where
  "leap_calendar = \<lparr>cal_name = ''leap'', cal_tz = fixed_zone 0, cal_includes = [Annual [(2, 29)]], cal_excludes = []\<rparr>"

lemma no_leap_day:
  assumes "greg_day 2096 3 1 \<le> k" and "k < greg_day 2104 1 1" and "greg_ymd k = (y, 2, d)"
  shows "d \<noteq> 29"
proof
  assume d: "d = 29"
  have m: "a < b" if "greg_ymd a < greg_ymd b" for a b
    using greg_ymd_mono that by (metis less_asym less_irrefl linorder_neqE)
  have e: "greg_ymd (greg_day 2096 3 1) = (2096, 3, 1)" "greg_ymd (greg_day 2104 1 1) = (2104, 1, 1)"
    by (simp_all add: greg_ymd_greg_day valid_ymd_def month_len_def)
  have "2096 < y" using m [of k "greg_day 2096 3 1"] assms(1,3) e(1) by (force simp: less_prod_def')
  moreover have "y < 2104" using greg_ymd_mono [OF assms(2)] assms(3) e(2) by (auto simp: less_prod_def')
  moreover have "leap y" using greg_ymd_valid [of k] assms(3) d by (auto simp: valid_ymd_def month_len_def split: if_splits)
  ultimately have "y = 2097 \<or> y = 2098 \<or> y = 2099 \<or> y = 2100 \<or> y = 2101 \<or> y = 2102 \<or> y = 2103" "leap y"
    by linarith+
  then show False by (auto simp: leap_def)
qed

text \<open>The search horizon of 1462 days is shorter than the distance between two leap days around a century
  year: from 1 March 2096 on, a calendar that only includes 29 February has no next opening, although
  29 February 2104 is allowed.\<close>

theorem leap_day_calendar_exhausts:
  "next_allowed_after gregorian leap_calendar (and_time (greg_day 2096 3 1 - EPOCH_DAY) 0) = None \<and>
   is_allowed gregorian leap_calendar (greg_day 2104 2 29 - EPOCH_DAY) 0"
proof
  let ?d = "greg_day 2096 3 1 - EPOCH_DAY"
  have ok: "calendar_ok leap_calendar" by (simp add: calendar_ok_def leap_calendar_def)
  show "next_allowed_after gregorian leap_calendar (and_time ?d 0) = None"
  proof (rule ccontr)
    assume "next_allowed_after gregorian leap_calendar (and_time ?d 0) \<noteq> None"
    then obtain u where u: "next_allowed_after gregorian leap_calendar (and_time ?d 0) = Some u" by blast
    note s = next_open_Some [OF ok u]
    let ?k = "date_of u + EPOCH_DAY"
    have v: "valid_time 0" by (simp add: valid_time_def DAY_NS_def)
    have "greg_day 2104 1 1 = greg_day 2096 3 1 + 2861" by (simp add: greg_day_def days_to_year_def month_len_def leap_def eval_nat_numeral)
    moreover have "?d \<le> date_of u" "date_of u \<le> ?d + 1462"
      using date_of_mono [OF s(1)] s(3) v by (simp_all add: MAX_SCAN_DAYS_def)
    ultimately have r: "greg_day 2096 3 1 \<le> ?k" "?k < greg_day 2104 1 1" by linarith+
    obtain y m d where y: "greg_ymd ?k = (y, m, d)" by (metis prod_cases3)
    with s(2) have "m = 2" "d = 29"
      by (auto simp: is_allowed_def leap_calendar_def month_def day_def gregorian_def)
    with no_leap_day [OF r, of y d] y show False by simp
  qed
  show "is_allowed gregorian leap_calendar (greg_day 2104 2 29 - EPOCH_DAY) 0"
    by (simp add: is_allowed_def leap_calendar_def month_def day_def gregorian_def greg_ymd_greg_day valid_ymd_def month_len_def leap_def)
qed

end
