(* ===== verification/Trigger.thy ===== *)
theory Trigger
  imports Gate
begin

text \<open>
  The trigger of a job, \<^verbatim>\<open>croniq-scheduler/src/trigger.rs\<close>: its state, the evaluation at a
  tick, the two gates (calendar and daily window) and the search for the next gate-allowed fire time,
  and what a restart does with the pending and the missed fires. The loops of the source count up to
  constants (512 gate rounds, 1500 jumps, 100000 missed fires); the constants are the fuel here.
  Instants are unbounded integers, so the panics of \<^verbatim>\<open>chrono\<close> at the ends of its range do not occur.
\<close>

subsection \<open>Data\<close>

datatype TriggerState = Armed | Fired | Completed | Paused | TS_Exhausted

datatype MissedFires = MF_Once | MF_All nat | MF_Skip

datatype MissedPlan = NoneMissed | MP_Once | Replay nat nat | Skipped | TooManyToReplay

record TimeWindow =
  win_start :: int
  win_end :: int

datatype PendingFire = Adopted | HealedGateClosed | HealedOutlivedSchedule | DroppedDisabled

record Trigger =
  job_key :: string
  schedule :: Schedule
  timezone :: Tz
  calendar :: "Calendar option"
  window :: "TimeWindow option"
  not_before :: "instant option"
  not_after :: "instant option"
  state :: TriggerState
  next_fire_at :: "instant option"
  last_fired_at :: "instant option"
  last_completed_at :: "instant option"
  fire_count :: nat
  missed_fires :: MissedFires
  replay_until :: "instant option"

definition MISSED_FIRE_WALK_LIMIT :: nat where
  "MISSED_FIRE_WALK_LIMIT = 100000"

subsection \<open>Windows\<close>

definition parse_time :: "string \<Rightarrow> int option" where
  "parse_time s =
     (case split_on (CHR '':'') s of
        [p0, p1] \<Rightarrow>
          (case parse_unsigned U32_MAX p0 of
             None \<Rightarrow> None
           | Some h \<Rightarrow>
               (case parse_unsigned U32_MAX p1 of
                  None \<Rightarrow> None
                | Some m \<Rightarrow> from_hms_opt h m 0))
      | _ \<Rightarrow> None)"

definition window_parse :: "string \<Rightarrow> TimeWindow option" where
  "window_parse s =
     (case split_once ''..'' s of
        None \<Rightarrow> None
      | Some (start_str, end_str) \<Rightarrow>
          (case parse_time start_str of
             None \<Rightarrow> None
           | Some a \<Rightarrow>
               (case parse_time end_str of
                  None \<Rightarrow> None
                | Some b \<Rightarrow> Some \<lparr>win_start = a, win_end = b\<rparr>)))"

definition window_contains :: "TimeWindow \<Rightarrow> int \<Rightarrow> bool" where
  "window_contains w time =
     (if win_start w \<le> win_end w then time \<ge> win_start w \<and> time < win_end w
      else time \<ge> win_start w \<or> time < win_end w)"

definition next_window_open_at_or_after :: "Civil \<Rightarrow> Tz \<Rightarrow> TimeWindow \<Rightarrow> instant \<Rightarrow> instant option" where
  "next_window_open_at_or_after c tz w from =
     (case next_instant_in c (to_local tz from) (\<lambda>_. window_intervals (win_start w) (win_end w)) of
        None \<Rightarrow> None
      | Some l \<Rightarrow> resolve_local_at_or_after tz l from)"

subsection \<open>Gates\<close>

definition calendar_allows :: "Civil \<Rightarrow> Calendar option \<Rightarrow> instant \<Rightarrow> bool" where
  "calendar_allows c cal at = (case cal of Some k \<Rightarrow> is_allowed_at c k at | None \<Rightarrow> True)"

definition window_allows :: "Tz \<Rightarrow> TimeWindow option \<Rightarrow> instant \<Rightarrow> bool" where
  "window_allows tz win at = (case win of Some w \<Rightarrow> window_contains w (time_of (to_local tz at)) | None \<Rightarrow> True)"

definition gate_allows :: "Civil \<Rightarrow> Trigger \<Rightarrow> instant \<Rightarrow> bool" where
  "gate_allows c tr at =
     (let calendar_ok = calendar_allows c (calendar tr) at;
          window_ok = window_allows (timezone tr) (window tr) at
      in calendar_ok \<and> window_ok)"

definition gate_closed_reason :: "Civil \<Rightarrow> Trigger \<Rightarrow> instant \<Rightarrow> string option" where
  "gate_closed_reason c tr at =
     (let time = time_of (to_local (timezone tr) at);
          r1 = (case calendar tr of
              Some k \<Rightarrow> if \<not> is_allowed_at c k at then [''calendar '' @ [CHR 0x27] @ cal_name k @ [CHR 0x27]] else []
            | None \<Rightarrow> []);
          r2 = (case window tr of
              Some w \<Rightarrow> if \<not> window_contains w time
                then [''window '' @ format_hm (win_start w) @ ''..'' @ format_hm (win_end w)] else []
            | None \<Rightarrow> []);
          reasons = r1 @ r2
      in if reasons = [] then None else Some (join '' and '' reasons))"

definition calendar_opening :: "Civil \<Rightarrow> Calendar option \<Rightarrow> instant \<Rightarrow> instant option" where
  "calendar_opening c cal t = (case cal of Some k \<Rightarrow> next_open_at_or_after c k t | None \<Rightarrow> Some t)"

definition window_opening :: "Civil \<Rightarrow> Tz \<Rightarrow> TimeWindow option \<Rightarrow> instant \<Rightarrow> instant option" where
  "window_opening c tz win t = (case win of Some w \<Rightarrow> next_window_open_at_or_after c tz w t | None \<Rightarrow> Some t)"

definition MAX_ROUNDS :: nat where
  "MAX_ROUNDS = 512"

fun gate_rounds ::
  "(instant \<Rightarrow> instant option) \<Rightarrow> (instant \<Rightarrow> instant option) \<Rightarrow> instant \<Rightarrow> nat \<Rightarrow> instant \<Rightarrow> instant option" where
  "gate_rounds cal win horizon 0 t = None"
| "gate_rounds cal win horizon (Suc rounds) t =
     (if t > horizon then None
      else case cal t of
        None \<Rightarrow> None
      | Some cal_open \<Rightarrow>
          (case win t of
             None \<Rightarrow> None
           | Some window_open \<Rightarrow>
               (let nxt = max cal_open window_open
                in if nxt \<le> t then Some t else gate_rounds cal win horizon rounds nxt)))"

definition next_gate_open :: "Civil \<Rightarrow> Trigger \<Rightarrow> instant \<Rightarrow> instant option" where
  "next_gate_open c tr from =
     (let horizon = from + int MAX_SCAN_DAYS * DAY_NS
      in gate_rounds (calendar_opening c (calendar tr)) (window_opening c (timezone tr) (window tr)) horizon MAX_ROUNDS from)"

subsection \<open>The next fire time\<close>

definition MAX_GATE_JUMPS :: nat where
  "MAX_GATE_JUMPS = 1500"

definition next_candidate :: "Civil \<Rightarrow> Trigger \<Rightarrow> instant \<Rightarrow> instant option" where
  "next_candidate c tr open_utc =
     (case schedule tr of
        Interval _ \<Rightarrow> Some open_utc
      | _ \<Rightarrow> next_fire_after c (timezone tr) (schedule tr) (open_utc - SEC_NS))"

fun gate_jumps :: "Civil \<Rightarrow> Trigger \<Rightarrow> nat \<Rightarrow> instant \<Rightarrow> instant option" where
  "gate_jumps c tr 0 candidate = None"
| "gate_jumps c tr (Suc jumps) candidate =
     (if gate_allows c tr candidate then Some candidate
      else case next_gate_open c tr candidate of
        None \<Rightarrow> None
      | Some open_utc \<Rightarrow>
          (case next_candidate c tr open_utc of
             None \<Rightarrow> None
           | Some candidate' \<Rightarrow> gate_jumps c tr jumps candidate'))"

definition compute_next_fire :: "Civil \<Rightarrow> Trigger \<Rightarrow> instant \<Rightarrow> instant option" where
  "compute_next_fire c tr after =
     (case next_fire_after c (timezone tr) (schedule tr) after of
        None \<Rightarrow> None
      | Some candidate \<Rightarrow> gate_jumps c tr MAX_GATE_JUMPS candidate)"

definition advance_anchor :: "Trigger \<Rightarrow> instant \<Rightarrow> instant \<Rightarrow> instant" where
  "advance_anchor tr fire_at now =
     (case schedule tr of
        Interval secs \<Rightarrow> if fire_at \<le> now \<and> now - fire_at < int secs * SEC_NS then fire_at else now
      | _ \<Rightarrow> now)"

subsection \<open>The life of a trigger\<close>

definition with_bounds ::
  "Civil \<Rightarrow> string \<Rightarrow> Schedule \<Rightarrow> Tz \<Rightarrow> Calendar option \<Rightarrow> TimeWindow option \<Rightarrow>
   instant option \<Rightarrow> instant option \<Rightarrow> instant \<Rightarrow> Trigger" where
  "with_bounds c key sched tz cal win nb na now =
     (let tr = \<lparr>job_key = key, schedule = sched, timezone = tz, calendar = cal, window = win,
           not_before = nb, not_after = na, state = Armed, next_fire_at = None, last_fired_at = None,
           last_completed_at = None, fire_count = 0, missed_fires = MF_Once, replay_until = None\<rparr>
      in if schedule tr = Disabled then tr\<lparr>state := Paused\<rparr>
         else
           let tr1 = tr\<lparr>next_fire_at := compute_next_fire c tr now\<rparr>
           in if next_fire_at tr1 = None then tr1\<lparr>state := TS_Exhausted\<rparr> else tr1)"

definition new_trigger ::
  "Civil \<Rightarrow> string \<Rightarrow> Schedule \<Rightarrow> Tz \<Rightarrow> Calendar option \<Rightarrow> TimeWindow option \<Rightarrow> instant \<Rightarrow> Trigger" where
  "new_trigger c key sched tz cal win now = with_bounds c key sched tz cal win None None now"

definition trigger_evaluate :: "Trigger \<Rightarrow> instant \<Rightarrow> instant option" where
  "trigger_evaluate tr now =
     (if state tr \<noteq> Armed then None
      else if (case not_before tr of Some nb \<Rightarrow> now < nb | None \<Rightarrow> False) then None
      else if (case not_after tr of Some na \<Rightarrow> now > na | None \<Rightarrow> False) then None
      else case next_fire_at tr of
        None \<Rightarrow> None
      | Some fire_at \<Rightarrow> if now \<ge> fire_at then Some fire_at else None)"

definition filter_opt :: "('a \<Rightarrow> bool) \<Rightarrow> 'a option \<Rightarrow> 'a option" where
  "filter_opt P x = (case x of Some a \<Rightarrow> if P a then Some a else None | None \<Rightarrow> None)"

definition settle :: "Trigger \<Rightarrow> Trigger" where
  "settle tr =
     (case next_fire_at tr of
        None \<Rightarrow> tr\<lparr>state := TS_Exhausted\<rparr>
      | Some nxt \<Rightarrow>
          (case not_after tr of
             Some na \<Rightarrow> if nxt > na then tr\<lparr>next_fire_at := None, state := TS_Exhausted\<rparr> else tr\<lparr>state := Armed\<rparr>
           | None \<Rightarrow> tr\<lparr>state := Armed\<rparr>))"

definition mark_fired :: "Civil \<Rightarrow> Trigger \<Rightarrow> instant \<Rightarrow> instant \<Rightarrow> Trigger" where
  "mark_fired c tr0 fire_at now =
     (let tr = tr0\<lparr>last_fired_at := Some fire_at, fire_count := fire_count tr0 + 1\<rparr>;
          replay_next = (case replay_until tr of
              Some until \<Rightarrow> filter_opt (\<lambda>nxt. nxt \<le> until) (compute_next_fire c tr fire_at)
            | None \<Rightarrow> None);
          from = (if replay_until tr \<noteq> None then now else advance_anchor tr fire_at now);
          tr1 = (case replay_next of
              Some nxt \<Rightarrow> tr\<lparr>next_fire_at := Some nxt\<rparr>
            | None \<Rightarrow> tr\<lparr>replay_until := None, next_fire_at := compute_next_fire c tr from\<rparr>)
      in settle tr1)"

definition mark_failed :: "Trigger \<Rightarrow> instant \<Rightarrow> Trigger" where
  "mark_failed tr now =
     (if next_fire_at tr \<noteq> None then tr\<lparr>state := Armed\<rparr> else tr\<lparr>state := TS_Exhausted\<rparr>)"

definition mark_completed :: "Trigger \<Rightarrow> instant \<Rightarrow> Trigger" where
  "mark_completed tr0 now =
     (let tr = tr0\<lparr>last_completed_at := Some now\<rparr>
      in if next_fire_at tr \<noteq> None then tr\<lparr>state := Armed\<rparr> else tr\<lparr>state := TS_Exhausted\<rparr>)"

definition pause :: "Trigger \<Rightarrow> Trigger" where
  "pause tr = tr\<lparr>state := Paused\<rparr>"

definition resume :: "Civil \<Rightarrow> Trigger \<Rightarrow> instant \<Rightarrow> Trigger" where
  "resume c tr now =
     (let tr1 = tr\<lparr>next_fire_at := compute_next_fire c tr now\<rparr>
      in if next_fire_at tr1 \<noteq> None then tr1\<lparr>state := Armed\<rparr> else tr1\<lparr>state := TS_Exhausted\<rparr>)"

definition carry_over_pending_fire :: "Civil \<Rightarrow> Trigger \<Rightarrow> instant \<Rightarrow> instant \<Rightarrow> PendingFire \<times> Trigger" where
  "carry_over_pending_fire c tr stored now =
     (if schedule tr = Disabled then (DroppedDisabled, tr\<lparr>next_fire_at := None, state := Paused\<rparr>)
      else if \<not> gate_allows c tr stored then (HealedGateClosed, resume c tr now)
      else case filter_opt (\<lambda>fresh. fresh < stored) (compute_next_fire c tr now) of
        Some fresh \<Rightarrow> (HealedOutlivedSchedule, tr\<lparr>next_fire_at := Some fresh\<rparr>)
      | None \<Rightarrow> (Adopted, tr\<lparr>next_fire_at := Some stored\<rparr>))"

text \<open>
  The loop over missed fires. \<open>left\<close> counts how many more fit before \<open>seen\<close> (\<^verbatim>\<open>total\<close>) reaches the walk limit;
  \<open>None\<close> is the early return at the limit.
\<close>

definition push_kept :: "nat \<Rightarrow> instant list \<Rightarrow> instant \<Rightarrow> instant list" where
  "push_kept max_kept kept n = (if length kept = max_kept then tl kept else kept) @ [n]"

fun missed_walk ::
  "(instant \<Rightarrow> instant option) \<Rightarrow> instant \<Rightarrow> nat \<Rightarrow> nat \<Rightarrow> instant list \<Rightarrow> nat \<Rightarrow> instant \<Rightarrow>
   (instant list \<times> nat) option" where
  "missed_walk nxt now max_kept left kept seen at =
     (case filter_opt (\<lambda>n. n \<le> now) (nxt at) of
        None \<Rightarrow> Some (kept, seen)
      | Some n \<Rightarrow>
          (case left of
             0 \<Rightarrow> None
           | Suc left' \<Rightarrow>
               missed_walk nxt now max_kept left' (push_kept max_kept kept n) (seen + 1) n))"

declare missed_walk.simps [simp del]

definition dq_front :: "'a list \<Rightarrow> 'a option" where
  "dq_front xs = (if xs = [] then None else Some (hd xs))"

definition dq_back :: "'a list \<Rightarrow> 'a option" where
  "dq_back xs = (if xs = [] then None else Some (last xs))"

definition plan_missed_fires :: "Civil \<Rightarrow> Trigger \<Rightarrow> instant \<Rightarrow> MissedPlan \<times> Trigger" where
  "plan_missed_fires c tr now =
     (case filter_opt (\<lambda>first. first < now) (next_fire_at tr) of
        None \<Rightarrow> (NoneMissed, tr)
      | Some first \<Rightarrow>
          if state tr \<noteq> Armed then (NoneMissed, tr)
          else case missed_fires tr of
            MF_Once \<Rightarrow> (MP_Once, tr)
          | MF_Skip \<Rightarrow> (Skipped, resume c tr now)
          | MF_All m \<Rightarrow>
              (let max_kept = max m 1
               in case missed_walk (compute_next_fire c tr) now max_kept (MISSED_FIRE_WALK_LIMIT - 1) [first] 1 first of
                    None \<Rightarrow> (TooManyToReplay, tr)
                  | Some (kept, seen) \<Rightarrow>
                      (Replay (length kept) (seen - length kept),
                       tr\<lparr>next_fire_at := dq_front kept, replay_until := dq_back kept\<rparr>)))"

text \<open>
  Two operations of the server's scheduler loop on a trigger, \<^verbatim>\<open>skip_fire_in_memory\<close> and
  \<^verbatim>\<open>carry_over_state\<close> of \<^verbatim>\<open>croniq-server/src/scheduler.rs\<close>; the log lines are left out.
\<close>

definition skip_fire_in_memory :: "Civil \<Rightarrow> Trigger \<Rightarrow> instant \<Rightarrow> instant \<Rightarrow> Trigger" where
  "skip_fire_in_memory c tr fire_at now =
     (let (last_fired, count) = (last_fired_at tr, fire_count tr)
      in (mark_fired c tr fire_at now)\<lparr>last_fired_at := last_fired, fire_count := count\<rparr>)"

definition recurring :: "Schedule \<Rightarrow> bool" where
  "recurring s = (case s of Once _ \<Rightarrow> False | Disabled \<Rightarrow> False | _ \<Rightarrow> True)"

definition carry_over_state :: "Civil \<Rightarrow> Trigger \<Rightarrow> Trigger \<Rightarrow> instant \<Rightarrow> Trigger" where
  "carry_over_state c old new_tr now =
     (let tr = new_tr\<lparr>fire_count := fire_count old, last_fired_at := last_fired_at old\<rparr>
      in if state old = TS_Exhausted then
           (if \<not> recurring (schedule tr) then tr\<lparr>state := TS_Exhausted, next_fire_at := None\<rparr> else tr)
         else case next_fire_at old of
           Some pending \<Rightarrow>
             (case carry_over_pending_fire c tr pending now of
                (Adopted, tr') \<Rightarrow> tr'\<lparr>replay_until := replay_until old\<rparr>
              | (_, tr') \<Rightarrow> tr')
         | None \<Rightarrow> tr)"

subsection \<open>Lemmas: only the configuration of a trigger decides its fire times\<close>

definition same_config :: "Trigger \<Rightarrow> Trigger \<Rightarrow> bool" where
  "same_config tr tr' \<longleftrightarrow> schedule tr = schedule tr' \<and> timezone tr = timezone tr' \<and>
     calendar tr = calendar tr' \<and> window tr = window tr'"

lemma gate_allows_cong: "same_config tr tr' \<Longrightarrow> gate_allows c tr = gate_allows c tr'"
  by (rule ext) (simp add: same_config_def gate_allows_def)

lemma next_gate_open_cong: "same_config tr tr' \<Longrightarrow> next_gate_open c tr = next_gate_open c tr'"
  by (rule ext) (simp add: same_config_def next_gate_open_def)

lemma next_candidate_cong: "same_config tr tr' \<Longrightarrow> next_candidate c tr = next_candidate c tr'"
  by (rule ext) (cases "schedule tr'"; simp add: same_config_def next_candidate_def)

lemma gate_jumps_cong:
  assumes "same_config tr tr'"
  shows "gate_jumps c tr n x = gate_jumps c tr' n x"
  by (induction n arbitrary: x)
    (simp_all only: gate_jumps.simps gate_allows_cong [OF assms] next_gate_open_cong [OF assms] next_candidate_cong [OF assms] cong: option.case_cong if_cong)

lemma compute_next_fire_cong:
  assumes "same_config tr tr'"
  shows "compute_next_fire c tr = compute_next_fire c tr'"
proof
  have "schedule tr = schedule tr'" "timezone tr = timezone tr'" using assms by (simp_all add: same_config_def)
  then show "compute_next_fire c tr after = compute_next_fire c tr' after" for after
    by (simp only: compute_next_fire_def gate_jumps_cong [OF assms] cong: option.case_cong)
qed

lemma same_config_upd [simp]:
  "same_config (tr\<lparr>state := s\<rparr>) tr" "same_config (tr\<lparr>next_fire_at := n\<rparr>) tr"
  "same_config (tr\<lparr>last_fired_at := n\<rparr>) tr" "same_config (tr\<lparr>last_completed_at := n\<rparr>) tr"
  "same_config (tr\<lparr>fire_count := k\<rparr>) tr" "same_config (tr\<lparr>replay_until := n\<rparr>) tr"
  "same_config (tr\<lparr>missed_fires := m\<rparr>) tr"
  by (simp_all add: same_config_def)

lemmas config_upd [simp] =
  same_config_upd [THEN compute_next_fire_cong] same_config_upd [THEN gate_allows_cong]

subsection \<open>Lemmas: two gates\<close>

locale gate_pair = a: gate okA opnA nxtA calmA + b: gate okB opnB nxtB calmB
  for okA :: "'g \<Rightarrow> bool" and opnA and nxtA and calmA and okB :: "'h \<Rightarrow> bool" and opnB and nxtB and calmB
begin

lemma rounds_sound:
  "okA g \<Longrightarrow> okB h \<Longrightarrow> gate_rounds (nxtA g) (nxtB h) hz n t = Some u \<Longrightarrow> t \<le> u \<and> opnA g u \<and> opnB h u"
proof (induction n arbitrary: t)
  case (Suc n)
  then obtain x y where xy: "nxtA g t = Some x" "nxtB h t = Some y" by (auto split: if_splits option.splits)
  have ge: "t \<le> x" "t \<le> y" using a.nxt_ge [OF Suc.prems(1) xy(1)] b.nxt_ge [OF Suc.prems(2) xy(2)] by simp_all
  show ?case
  proof (cases "max x y \<le> t")
    case True
    with ge have "x = t" "y = t" by simp_all
    with Suc.prems xy show ?thesis using a.nxt_same [of g t] b.nxt_same [of h t] by (simp split: if_splits)
  next
    case False
    with Suc.prems xy have "gate_rounds (nxtA g) (nxtB h) hz n (max x y) = Some u"
      by (simp add: Let_def split: if_splits)
    with Suc.IH [OF Suc.prems(1,2) this] ge show ?thesis by simp
  qed
qed simp

lemma rounds_whole:
  "okA g \<Longrightarrow> okB h \<Longrightarrow> gate_rounds (nxtA g) (nxtB h) hz n t = Some u \<Longrightarrow> t mod SEC_NS = 0 \<Longrightarrow> u mod SEC_NS = 0"
proof (induction n arbitrary: t)
  case (Suc n)
  then obtain x y where xy: "nxtA g t = Some x" "nxtB h t = Some y" by (auto split: if_splits option.splits)
  have "max x y mod SEC_NS = 0"
    using a.nxt_whole [OF Suc.prems(1) xy(1) Suc.prems(4)] b.nxt_whole [OF Suc.prems(2) xy(2) Suc.prems(4)]
    by (simp add: max_def)
  with Suc.prems xy Suc.IH [OF Suc.prems(1,2), of "max x y"] show ?case by (auto simp: Let_def split: if_splits)
qed simp

lemma rounds_skip:
  "okA g \<Longrightarrow> okB h \<Longrightarrow> gate_rounds (nxtA g) (nxtB h) hz n t = Some u \<Longrightarrow> calmA g t u \<Longrightarrow> calmB h t u \<Longrightarrow>
     t \<le> v \<Longrightarrow> v < u \<Longrightarrow> v mod SEC_NS = 0 \<Longrightarrow> \<not> (opnA g v \<and> opnB h v)"
proof (induction n arbitrary: t)
  case (Suc n)
  from Suc.prems(3) obtain x y where xy: "nxtA g t = Some x" "nxtB h t = Some y"
    by (auto split: if_splits option.splits)
  have "\<not> max x y \<le> t" using Suc.prems(3,6,7) xy by (auto simp: Let_def split: if_splits)
  with Suc.prems(3) xy have r: "gate_rounds (nxtA g) (nxtB h) hz n (max x y) = Some u"
    by (simp add: Let_def split: if_splits)
  have le: "x \<le> u" "y \<le> u" "t \<le> x" "t \<le> y"
    using rounds_sound [OF Suc.prems(1,2) r] a.nxt_ge [OF Suc.prems(1) xy(1)] b.nxt_ge [OF Suc.prems(2) xy(2)] by auto
  have c: "calmA g t x" "calmB h t y" "calmA g (max x y) u" "calmB h (max x y) u"
    using a.calm_sub [OF Suc.prems(4)] b.calm_sub [OF Suc.prems(5)] le by auto
  consider "v < x" | "v < y" | "max x y \<le> v" by linarith
  then show ?case
  proof cases
    case 1
    then show ?thesis using a.nxt_skips [OF Suc.prems(1) xy(1) c(1) Suc.prems(6) _ Suc.prems(8)] by simp
  next
    case 2
    then show ?thesis using b.nxt_skips [OF Suc.prems(2) xy(2) c(2) Suc.prems(6) _ Suc.prems(8)] by simp
  next
    case 3
    then show ?thesis by (rule Suc.IH [OF Suc.prems(1,2) r c(3,4) _ Suc.prems(7,8)])
  qed
qed simp

end

type_synonym cal_gate = "Civil \<times> Calendar option"
type_synonym win_gate = "Civil \<times> Tz \<times> TimeWindow option"

definition cal_gate_ok :: "cal_gate \<Rightarrow> bool" where
  "cal_gate_ok = (\<lambda>(c, cal). case cal of None \<Rightarrow> True | Some k \<Rightarrow> calendar_gate_ok (c, k))"

definition cal_gate_calm :: "cal_gate \<Rightarrow> instant \<Rightarrow> instant \<Rightarrow> bool" where
  "cal_gate_calm = (\<lambda>(c, cal) t u. case cal of None \<Rightarrow> True | Some k \<Rightarrow> steady (cal_tz k) t u)"

definition window_ok :: "TimeWindow \<Rightarrow> bool" where
  "window_ok w \<longleftrightarrow> rule_ok (Window (win_start w) (win_end w))"

definition win_gate_ok :: "win_gate \<Rightarrow> bool" where
  "win_gate_ok = (\<lambda>(c, tz, win). case win of None \<Rightarrow> True | Some w \<Rightarrow> gate_zone tz \<and> window_ok w)"

definition win_gate_calm :: "win_gate \<Rightarrow> instant \<Rightarrow> instant \<Rightarrow> bool" where
  "win_gate_calm = (\<lambda>(c, tz, win) t u. case win of None \<Rightarrow> True | Some w \<Rightarrow> steady tz t u)"

abbreviation window_sets :: "TimeWindow \<Rightarrow> int \<Rightarrow> DaySet" where
  "window_sets w \<equiv> \<lambda>_. window_intervals (win_start w) (win_end w)"

lemma window_sets_ok: "window_ok w \<Longrightarrow> dayset_ok (window_sets w d)"
  unfolding window_ok_def by (rule Calendar.window_ok)

lemma window_allows_open:
  assumes "window_ok w"
  shows "window_contains w (time_of l) \<longleftrightarrow> open_local (window_sets w) l"
  using window_covers [OF assms [unfolded window_ok_def] valid_time_of, of l]
  by (simp add: window_contains_def open_local_def)

lemma window_opening_parts:
  assumes "next_window_open_at_or_after c tz w t = Some u"
  obtains l where "next_instant_in c (to_local tz t) (window_sets w) = Some l" "resolve_local_at_or_after tz l t = Some u"
  using assms by (auto simp: next_window_open_at_or_after_def split: option.splits)

interpretation og: gate cal_gate_ok "\<lambda>(c, cal). calendar_allows c cal" "\<lambda>(c, cal). calendar_opening c cal" cal_gate_calm
proof unfold_locales
  fix g :: cal_gate and t u v
  obtain c cal where g: "g = (c, cal)" by (cases g)
  assume "cal_gate_ok g" "(case g of (c, cal) \<Rightarrow> calendar_opening c cal) t = Some u"
  note n = this [unfolded g cal_gate_ok_def calendar_opening_def]
  show "t \<le> u" using n cg.nxt_ge [of "(c, the cal)" t u] by (cases cal) simp_all
  show "t mod SEC_NS = 0 \<Longrightarrow> u mod SEC_NS = 0"
    using n cg.nxt_whole [of "(c, the cal)" t u] by (cases cal) simp_all
  show "cal_gate_calm g t u \<Longrightarrow> t \<le> v \<Longrightarrow> v < u \<Longrightarrow> v mod SEC_NS = 0 \<Longrightarrow>
    \<not> (case g of (c, cal) \<Rightarrow> calendar_allows c cal) v"
    using n cg.nxt_skips [of "(c, the cal)" t u v] unfolding g cal_gate_calm_def
    by (cases cal) (simp_all add: calendar_allows_def)
next
  fix g :: cal_gate and t
  obtain c cal where g: "g = (c, cal)" by (cases g)
  assume "cal_gate_ok g" "(case g of (c, cal) \<Rightarrow> calendar_opening c cal) t = Some t"
  note n = this [unfolded g cal_gate_ok_def calendar_opening_def]
  show "(case g of (c, cal) \<Rightarrow> calendar_allows c cal) t"
    using n cg.nxt_same [of "(c, the cal)" t] unfolding g by (cases cal) (simp_all add: calendar_allows_def)
next
  fix g :: cal_gate and t u t' u'
  show "cal_gate_calm g t u \<Longrightarrow> t \<le> t' \<Longrightarrow> u' \<le> u \<Longrightarrow> cal_gate_calm g t' u'"
    by (auto simp: cal_gate_calm_def intro: steady_sub split: prod.splits option.splits)
qed

interpretation wg: gate win_gate_ok "\<lambda>(c, tz, win). window_allows tz win" "\<lambda>(c, tz, win). window_opening c tz win" win_gate_calm
proof unfold_locales
  fix g :: win_gate and t u v
  obtain c tz win where g: "g = (c, tz, win)" by (cases g)
  assume "win_gate_ok g" "(case g of (c, tz, win) \<Rightarrow> window_opening c tz win) t = Some u"
  note n = this [unfolded g win_gate_ok_def window_opening_def]
  show "t \<le> u"
    using n next_open_cases(1) [OF window_sets_ok] by (cases win) (auto elim!: window_opening_parts)
  show "t mod SEC_NS = 0 \<Longrightarrow> u mod SEC_NS = 0"
    using n next_open_cases(2) [OF window_sets_ok] by (cases win) (auto elim!: window_opening_parts)
  show "win_gate_calm g t u \<Longrightarrow> t \<le> v \<Longrightarrow> v < u \<Longrightarrow> v mod SEC_NS = 0 \<Longrightarrow>
    \<not> (case g of (c, tz, win) \<Rightarrow> window_allows tz win) v"
    using n next_open_skips [OF window_sets_ok] unfolding g win_gate_calm_def
    by (cases win) (auto elim!: window_opening_parts simp: window_allows_def window_allows_open)
next
  fix g :: win_gate and t
  obtain c tz win where g: "g = (c, tz, win)" by (cases g)
  assume "win_gate_ok g" "(case g of (c, tz, win) \<Rightarrow> window_opening c tz win) t = Some t"
  note n = this [unfolded g win_gate_ok_def window_opening_def]
  show "(case g of (c, tz, win) \<Rightarrow> window_allows tz win) t"
    using n next_open_cases(3) [OF window_sets_ok] unfolding g
    by (cases win) (auto elim!: window_opening_parts simp: window_allows_def window_allows_open)
next
  fix g :: win_gate and t u t' u'
  show "win_gate_calm g t u \<Longrightarrow> t \<le> t' \<Longrightarrow> u' \<le> u \<Longrightarrow> win_gate_calm g t' u'"
    by (auto simp: win_gate_calm_def intro: steady_sub split: prod.splits option.splits)
qed

interpretation gp: gate_pair cal_gate_ok "\<lambda>(c, cal). calendar_allows c cal" "\<lambda>(c, cal). calendar_opening c cal" cal_gate_calm
  win_gate_ok "\<lambda>(c, tz, win). window_allows tz win" "\<lambda>(c, tz, win). window_opening c tz win" win_gate_calm
  by unfold_locales

definition trigger_ok :: "Civil \<Rightarrow> Trigger \<Rightarrow> bool" where
  "trigger_ok c tr \<longleftrightarrow> cal_gate_ok (c, calendar tr) \<and> win_gate_ok (c, timezone tr, window tr)"

text \<open>No clock the trigger's gates read is set back between two instants.\<close>

definition calm :: "Civil \<Rightarrow> Trigger \<Rightarrow> instant \<Rightarrow> instant \<Rightarrow> bool" where
  "calm c tr t u \<longleftrightarrow> cal_gate_calm (c, calendar tr) t u \<and> win_gate_calm (c, timezone tr, window tr) t u"

lemma calm_sub: "calm c tr a b \<Longrightarrow> a \<le> a' \<Longrightarrow> b' \<le> b \<Longrightarrow> calm c tr a' b'"
  unfolding calm_def using og.calm_sub wg.calm_sub by blast

lemma next_gate_open_facts:
  assumes "trigger_ok c tr" and "next_gate_open c tr t = Some u"
  shows "t \<le> u" "gate_allows c tr u" "t mod SEC_NS = 0 \<Longrightarrow> u mod SEC_NS = 0"
    "calm c tr t u \<Longrightarrow> t \<le> v \<Longrightarrow> v < u \<Longrightarrow> v mod SEC_NS = 0 \<Longrightarrow> \<not> gate_allows c tr v"
proof -
  have ok: "cal_gate_ok (c, calendar tr)" "win_gate_ok (c, timezone tr, window tr)"
    using assms(1) by (simp_all add: trigger_ok_def)
  have r: "gate_rounds ((\<lambda>(c, cal). calendar_opening c cal) (c, calendar tr))
      ((\<lambda>(c, tz, win). window_opening c tz win) (c, timezone tr, window tr)) (t + int MAX_SCAN_DAYS * DAY_NS) MAX_ROUNDS t = Some u"
    using assms(2) by (simp add: next_gate_open_def Let_def)
  show "t \<le> u" "gate_allows c tr u" using gp.rounds_sound [OF ok r] by (simp_all add: gate_allows_def)
  show "t mod SEC_NS = 0 \<Longrightarrow> u mod SEC_NS = 0" by (rule gp.rounds_whole [OF ok r])
  show "calm c tr t u \<Longrightarrow> t \<le> v \<Longrightarrow> v < u \<Longrightarrow> v mod SEC_NS = 0 \<Longrightarrow> \<not> gate_allows c tr v"
    using gp.rounds_skip [OF ok r, of v] by (simp add: calm_def gate_allows_def)
qed

subsection \<open>Lemmas: the next fire time\<close>

lemma gate_jumps_allows: "gate_jumps c tr n x = Some u \<Longrightarrow> gate_allows c tr u"
  by (induction n arbitrary: x) (auto split: if_splits option.splits)

lemma compute_allows: "compute_next_fire c tr after = Some u \<Longrightarrow> gate_allows c tr u"
  by (auto simp: compute_next_fire_def dest: gate_jumps_allows split: option.splits)

lemma jumps_Suc: "\<exists>n. MAX_GATE_JUMPS = Suc (Suc n)"
  by (rule exI [of _ 1498]) (simp add: MAX_GATE_JUMPS_def)

lemma compute_ungated:
  assumes "calendar tr = None" and "window tr = None"
  shows "compute_next_fire c tr after = next_fire_after c (timezone tr) (schedule tr) after"
proof -
  obtain n where n: "MAX_GATE_JUMPS = Suc (Suc n)" using jumps_Suc by blast
  show ?thesis
    unfolding compute_next_fire_def n
    using assms
    by (simp add: gate_allows_def calendar_allows_def window_allows_def split: option.splits)
qed

lemma compute_interval:
  assumes "trigger_ok c tr" and "schedule tr = Interval secs"
  shows "compute_next_fire c tr after =
    (let x = after + int secs * SEC_NS in if gate_allows c tr x then Some x else next_gate_open c tr x)"
proof -
  obtain n where n: "MAX_GATE_JUMPS = Suc (Suc n)" using jumps_Suc by blast
  show ?thesis
    unfolding compute_next_fire_def n
    using assms next_gate_open_facts(2) [OF assms(1)]
    by (auto simp: next_candidate_def Let_def split: option.splits)
qed

definition wall_clock :: "Civil \<Rightarrow> Trigger \<Rightarrow> bool" where
  "wall_clock c tr \<longleftrightarrow> civil_ok c \<and> zone_regular (timezone tr) \<and> whole_second_offsets (timezone tr) \<and>
     schedule_ok (schedule tr) \<and> (\<forall>n. schedule tr \<noteq> Interval n) \<and> (\<forall>at. schedule tr = Once at \<longrightarrow> at mod SEC_NS = 0)"

abbreviation scheduled :: "Civil \<Rightarrow> Trigger \<Rightarrow> instant \<Rightarrow> bool" where
  "scheduled c tr \<equiv> fires_at c (timezone tr) (schedule tr)"

lemma wall_clock_least:
  "wall_clock c tr \<Longrightarrow> next_fire_after c (timezone tr) (schedule tr) after = Some u \<Longrightarrow> least_after (scheduled c tr) after u"
  by (auto simp: wall_clock_def intro: next_fire_least)

lemma resolved_whole:
  assumes "zone_ok z" and "whole_second_offsets z" and "t mod MIN_NS = 0" and "resolve_local z (and_time d t) = Some u"
  shows "u mod SEC_NS = 0"
proof -
  from resolve_first [OF assms(4)] obtain k where "first_at z (and_time d t + k * MIN_NS) = Some u" by blast
  then have "to_local z u = and_time d t + k * MIN_NS" by (rule first_at_Some(1) [OF assms(1)])
  then have "to_local z u mod MIN_NS = 0" using and_time_minute [OF assms(3)] by simp
  moreover have "to_local z u mod MIN_NS mod SEC_NS = to_local z u mod SEC_NS"
    by (rule mod_mod_cancel) (simp add: ns_defs)
  ultimately show ?thesis using whole_second_local [OF assms(2), of u] by simp
qed

lemma scheduled_whole:
  assumes "wall_clock c tr" and "scheduled c tr u"
  shows "u mod SEC_NS = 0"
proof -
  have z: "zone_ok (timezone tr)" "whole_second_offsets (timezone tr)"
    using assms(1) by (simp_all add: wall_clock_def zone_regular_def)
  have ok: "civil_ok c" "schedule_ok (schedule tr)" "\<forall>at. schedule tr = Once at \<longrightarrow> at mod SEC_NS = 0"
    using assms(1) unfolding wall_clock_def by blast+
  show ?thesis
  proof (cases "schedule tr")
    case (Monthly ords t)
    with assms(2) obtain y m ord where "ordinal_fire c (timezone tr) t y m ord = Some u" by auto
    from ordinal_fire_date [OF ok(1) this] obtain d where "resolve_local (timezone tr) (and_time d t) = Some u" by blast
    with resolved_whole [OF z, of t d u] ok(2) Monthly show ?thesis by simp
  next
    case (Daily t)
    with assms(2) obtain d where "resolve_local (timezone tr) (and_time d t) = Some u" by auto
    with resolved_whole [OF z, of t d u] ok(2) Daily show ?thesis by simp
  next
    case (Weekdays days t)
    with assms(2) obtain d where "resolve_local (timezone tr) (and_time d t) = Some u" by auto
    with resolved_whole [OF z, of t d u] ok(2) Weekdays show ?thesis by simp
  qed (use assms(2) ok(3) in auto)
qed

lemma candidate_least:
  assumes "wall_clock c tr" and "next_candidate c tr x = Some y"
  shows "least_after (scheduled c tr) (x - SEC_NS) y"
proof (cases "schedule tr")
  case (Interval n)
  with assms(1) show ?thesis by (simp add: wall_clock_def)
qed (use assms wall_clock_least [OF assms(1), of "x - SEC_NS" y] in \<open>simp_all add: next_candidate_def\<close>)

lemma whole_gap: "x mod SEC_NS = 0 \<Longrightarrow> y mod SEC_NS = 0 \<Longrightarrow> x - SEC_NS < y \<Longrightarrow> x \<le> y"
proof -
  assume m: "x mod SEC_NS = 0" "y mod SEC_NS = 0" and lt: "x - SEC_NS < y"
  from m obtain p q where "x = SEC_NS * p" "y = SEC_NS * q" by (metis mod_0_imp_dvd dvdE)
  with lt show "x \<le> y" by (simp add: SEC_NS_def)
qed

lemma gate_jumps_least:
  "wall_clock c tr \<Longrightarrow> trigger_ok c tr \<Longrightarrow> scheduled c tr x \<Longrightarrow> gate_jumps c tr n x = Some u \<Longrightarrow>
     x \<le> u \<and> scheduled c tr u \<and>
     (\<forall>v. scheduled c tr v \<longrightarrow> gate_allows c tr v \<longrightarrow> x \<le> v \<longrightarrow> calm c tr x u \<longrightarrow> u \<le> v)"
proof (induction n arbitrary: x)
  case (Suc n)
  show ?case
  proof (cases "gate_allows c tr x")
    case False
    with Suc.prems(4) obtain p y where p: "next_gate_open c tr x = Some p" "next_candidate c tr p = Some y"
      "gate_jumps c tr n y = Some u" by (auto split: option.splits)
    note g = next_gate_open_facts [OF Suc.prems(2) p(1)]
    have y: "p - SEC_NS < y" "scheduled c tr y" "\<And>v. scheduled c tr v \<Longrightarrow> p - SEC_NS < v \<Longrightarrow> y \<le> v"
      using candidate_least [OF Suc.prems(1) p(2)] by (simp_all add: least_after_def)
    have xw: "x mod SEC_NS = 0" by (rule scheduled_whole [OF Suc.prems(1,3)])
    have py: "p \<le> y" by (rule whole_gap [OF g(3) [OF xw] scheduled_whole [OF Suc.prems(1) y(2)] y(1)])
    note ih = Suc.IH [OF Suc.prems(1,2) y(2) p(3)]
    have "u \<le> v" if v: "scheduled c tr v" "gate_allows c tr v" "x \<le> v" "calm c tr x u" for v
    proof -
      have "calm c tr x p" "calm c tr y u" using calm_sub [OF v(4)] ih g(1) py by auto
      with g(4) [of v] v(2,3) scheduled_whole [OF Suc.prems(1) v(1)] have "p \<le> v" by force
      then have "y \<le> v" using y(3) [OF v(1)] by (simp add: SEC_NS_def)
      with ih v(1,2) \<open>calm c tr y u\<close> show ?thesis by blast
    qed
    with ih g(1) py show ?thesis by auto
  qed (use Suc.prems in simp)
qed simp

lemma compute_least:
  assumes "wall_clock c tr" and "trigger_ok c tr" and "compute_next_fire c tr after = Some u"
  shows "after < u" "scheduled c tr u" "gate_allows c tr u"
    "calm c tr after u \<Longrightarrow> scheduled c tr v \<Longrightarrow> gate_allows c tr v \<Longrightarrow> after < v \<Longrightarrow> u \<le> v"
proof -
  from assms(3) obtain x where x: "next_fire_after c (timezone tr) (schedule tr) after = Some x"
    "gate_jumps c tr MAX_GATE_JUMPS x = Some u" by (auto simp: compute_next_fire_def split: option.splits)
  have l: "after < x" "scheduled c tr x" "\<And>v. scheduled c tr v \<Longrightarrow> after < v \<Longrightarrow> x \<le> v"
    using wall_clock_least [OF assms(1) x(1)] by (simp_all add: least_after_def)
  note j = gate_jumps_least [OF assms(1,2) l(2) x(2)]
  show "after < u" "scheduled c tr u" using j l(1) by auto
  show "gate_allows c tr u" by (rule compute_allows [OF assms(3)])
  show "calm c tr after u \<Longrightarrow> scheduled c tr v \<Longrightarrow> gate_allows c tr v \<Longrightarrow> after < v \<Longrightarrow> u \<le> v"
    using j l(3) calm_sub [of c tr after u x u] l(1) by auto
qed

subsection \<open>Lemmas: what every trigger satisfies\<close>

inductive live :: "Civil \<Rightarrow> Trigger \<Rightarrow> bool" for c where
  built: "live c (with_bounds c key sched tz cal win nb na now)"
| policy: "live c tr \<Longrightarrow> live c (tr\<lparr>missed_fires := m\<rparr>)"
| fire: "live c tr \<Longrightarrow> trigger_evaluate tr now = Some f \<Longrightarrow> live c (mark_fired c tr f now)"
| skip: "live c tr \<Longrightarrow> trigger_evaluate tr now = Some f \<Longrightarrow> live c (skip_fire_in_memory c tr f now)"
| complete: "live c tr \<Longrightarrow> live c (mark_completed tr now)"
| fail: "live c tr \<Longrightarrow> live c (mark_failed tr now)"
| pause: "live c tr \<Longrightarrow> live c (pause tr)"
| resume: "live c tr \<Longrightarrow> live c (resume c tr now)"
| carry: "live c tr \<Longrightarrow> live c (snd (carry_over_pending_fire c tr stored now))"
| plan: "live c tr \<Longrightarrow> live c (snd (plan_missed_fires c tr now))"
| rebuild: "live c old \<Longrightarrow> live c tr \<Longrightarrow> live c (carry_over_state c old tr now)"

definition trigger_inv :: "Civil \<Rightarrow> Trigger \<Rightarrow> bool" where
  "trigger_inv c tr \<longleftrightarrow> (\<forall>n. next_fire_at tr = Some n \<longrightarrow> gate_allows c tr n) \<and>
     (state tr = Armed \<longrightarrow> next_fire_at tr \<noteq> None) \<and> (schedule tr = Disabled \<longrightarrow> next_fire_at tr = None)"

lemma compute_disabled: "schedule tr = Disabled \<Longrightarrow> compute_next_fire c tr t = None"
  by (simp add: compute_next_fire_def)

lemma filter_opt_simps [simp]: "filter_opt P None = None" "filter_opt P (Some a) = (if P a then Some a else None)"
  by (simp_all add: filter_opt_def)

lemma filter_opt_Some [simp]: "filter_opt P x = Some a \<longleftrightarrow> x = Some a \<and> P a"
  by (auto simp: filter_opt_def split: option.splits)

lemma filter_opt_None: "filter_opt P x = None \<longleftrightarrow> (\<forall>a. x = Some a \<longrightarrow> \<not> P a)"
  by (auto simp: filter_opt_def split: option.splits)

lemma walk_stop: "filter_opt (\<lambda>n. n \<le> now) (nxt at) = None \<Longrightarrow> missed_walk nxt now m left kept k at = Some (kept, k)"
  by (subst missed_walk.simps) simp

lemma walk_limit: "nxt at = Some y \<Longrightarrow> y \<le> now \<Longrightarrow> missed_walk nxt now m 0 kept k at = None"
  by (subst missed_walk.simps) (simp add: filter_opt_def)

lemma walk_step:
  "nxt at = Some y \<Longrightarrow> y \<le> now \<Longrightarrow>
     missed_walk nxt now m (Suc left) kept k at = missed_walk nxt now m left (push_kept m kept y) (k + 1) y"
  by (subst missed_walk.simps) (simp add: filter_opt_def)

lemma walk_cases:
  obtains "filter_opt (\<lambda>n. n \<le> now) (nxt at) = None" | y where "nxt at = Some y" "y \<le> now"
  by (cases "filter_opt (\<lambda>n. n \<le> now) (nxt at)") auto

lemma walk_all:
  assumes nxt: "\<And>x y. nxt x = Some y \<Longrightarrow> P y"
  shows "missed_walk nxt now m left kept k at = Some (out, n) \<Longrightarrow> kept \<noteq> [] \<Longrightarrow> \<forall>x \<in> set kept. P x \<Longrightarrow>
    out \<noteq> [] \<and> (\<forall>x \<in> set out. P x)"
proof (induction left arbitrary: kept k at)
  case 0
  then show ?case by (cases rule: walk_cases [of now nxt at]) (auto simp: walk_stop walk_limit)
next
  case (Suc left)
  show ?case
  proof (cases rule: walk_cases [of now nxt at])
    case (2 y)
    have "\<forall>x \<in> set (push_kept m kept y). P x" "push_kept m kept y \<noteq> []"
      using Suc.prems(2,3) nxt [OF 2(1)] by (auto simp: push_kept_def dest: list.set_sel(2))
    with Suc.IH [of "push_kept m kept y" "k + 1" y] Suc.prems(1) show ?thesis by (simp add: walk_step [where nxt = nxt and at = at, OF 2])
  qed (use Suc.prems in \<open>simp add: walk_stop\<close>)
qed

lemma settle_inv:
  assumes "\<forall>n. next_fire_at tr = Some n \<longrightarrow> gate_allows c tr n" and "schedule tr = Disabled \<longrightarrow> next_fire_at tr = None"
  shows "trigger_inv c (settle tr)"
  using assms by (cases "next_fire_at tr"; cases "not_after tr") (auto simp: settle_def trigger_inv_def)

lemma inv_mark_fired:
  assumes "trigger_inv c tr"
  shows "trigger_inv c (mark_fired c tr f now)"
proof -
  have "gate_allows c tr n" if "compute_next_fire c tr t = Some n" for t n using that by (rule compute_allows)
  then show ?thesis
    unfolding mark_fired_def Let_def
    by (intro settle_inv) (auto simp: compute_disabled compute_allows split: option.splits)
qed

lemma inv_resume: "trigger_inv c (resume c tr now)"
  by (auto simp: resume_def Let_def trigger_inv_def compute_allows compute_disabled)

lemma inv_upd:
  "trigger_inv c tr \<Longrightarrow> trigger_inv c (tr\<lparr>missed_fires := m\<rparr>)" "trigger_inv c tr \<Longrightarrow> trigger_inv c (tr\<lparr>last_fired_at := x\<rparr>)"
  "trigger_inv c tr \<Longrightarrow> trigger_inv c (tr\<lparr>fire_count := k\<rparr>)" "trigger_inv c tr \<Longrightarrow> trigger_inv c (tr\<lparr>replay_until := x\<rparr>)"
  "trigger_inv c tr \<Longrightarrow> trigger_inv c (tr\<lparr>last_completed_at := x\<rparr>)"
  by (simp_all add: trigger_inv_def)

lemma inv_carry:
  "trigger_inv c tr \<Longrightarrow> trigger_inv c (snd (carry_over_pending_fire c tr stored now))"
  using inv_resume [of c tr now]
  by (auto simp: carry_over_pending_fire_def trigger_inv_def compute_allows split: option.splits)

lemma inv_plan:
  assumes "trigger_inv c tr"
  shows "trigger_inv c (snd (plan_missed_fires c tr now))"
proof (cases "filter_opt (\<lambda>first. first < now) (next_fire_at tr)")
  case (Some first)
  have ok: "\<forall>x \<in> set [first]. gate_allows c tr x" "schedule tr \<noteq> Disabled"
    using assms Some by (auto simp: trigger_inv_def)
  show ?thesis
  proof (cases "missed_fires tr")
    case (MF_All m)
    let ?w = "missed_walk (compute_next_fire c tr) now (max m 1) (MISSED_FIRE_WALK_LIMIT - 1) [first] 1 first"
    show ?thesis
    proof (cases ?w)
      case (Some r)
      then obtain kept k where w: "?w = Some (kept, k)" by (cases r) auto
      have "kept \<noteq> [] \<and> (\<forall>x \<in> set kept. gate_allows c tr x)"
        by (rule walk_all [OF compute_allows w]) (use ok in auto)
      with w ok \<open>filter_opt (\<lambda>first. first < now) (next_fire_at tr) = Some first\<close> MF_All assms show ?thesis
        by (auto simp: plan_missed_fires_def trigger_inv_def dq_front_def Let_def)
    qed (use \<open>filter_opt (\<lambda>first. first < now) (next_fire_at tr) = Some first\<close> MF_All assms in \<open>auto simp: plan_missed_fires_def\<close>)
  qed (use Some assms inv_resume [of c tr now] in \<open>auto simp: plan_missed_fires_def\<close>)
qed (use assms in \<open>simp add: plan_missed_fires_def\<close>)

lemma inv_carry_state:
  assumes "trigger_inv c tr"
  shows "trigger_inv c (carry_over_state c old tr now)"
proof -
  let ?t = "tr\<lparr>fire_count := fire_count old, last_fired_at := last_fired_at old\<rparr>"
  have t: "trigger_inv c ?t" using assms by (simp add: trigger_inv_def)
  show ?thesis
  proof (cases "state old = TS_Exhausted \<or> next_fire_at old = None")
    case True
    moreover have "trigger_inv c (?t\<lparr>state := TS_Exhausted, next_fire_at := None\<rparr>)" by (simp add: trigger_inv_def)
    ultimately show ?thesis using t by (auto simp: carry_over_state_def Let_def)
  next
    case False
    then obtain n where n: "next_fire_at old = Some n" by blast
    obtain r t' where r: "carry_over_pending_fire c ?t n now = (r, t')" by (cases "carry_over_pending_fire c ?t n now")
    with inv_carry [OF t, of n now] have "trigger_inv c t'" by simp
    with False n r show ?thesis by (cases r) (simp_all add: carry_over_state_def inv_upd)
  qed
qed

lemma inv_built: "trigger_inv c (with_bounds c key sched tz cal win nb na now)"
proof -
  define tr where "tr = \<lparr>job_key = key, schedule = sched, timezone = tz, calendar = cal, window = win,
    not_before = nb, not_after = na, state = Armed, next_fire_at = None, last_fired_at = None,
    last_completed_at = None, fire_count = 0, missed_fires = MF_Once, replay_until = None\<rparr>"
  have "next_fire_at tr = None" by (simp add: tr_def)
  then show ?thesis
    unfolding with_bounds_def Let_def tr_def [symmetric] by (auto simp: trigger_inv_def compute_allows)
qed

lemma live_inv: "live c tr \<Longrightarrow> trigger_inv c tr"
proof (induction rule: live.induct)
  case (built key sched tz cal win nb na now)
  show ?case by (rule inv_built)
next
  case (skip tr now f)
  with inv_mark_fired [of c tr f now] show ?case by (simp add: skip_fire_in_memory_def inv_upd)
next
  case (complete tr now)
  then show ?case by (auto simp: mark_completed_def Let_def trigger_inv_def)
next
  case (fail tr now)
  then show ?case by (auto simp: mark_failed_def trigger_inv_def)
next
  case (pause tr)
  then show ?case by (simp add: pause_def trigger_inv_def)
qed (simp_all add: inv_upd inv_mark_fired inv_resume inv_carry inv_plan inv_carry_state)

subsection \<open>Lemmas: later and later fires\<close>

definition regular_trigger :: "Civil \<times> Trigger \<Rightarrow> bool" where
  "regular_trigger = (\<lambda>(c, tr). trigger_ok c tr \<and> (wall_clock c tr \<or> (\<exists>n > 0. schedule tr = Interval n)))"

lemma compute_later:
  assumes "regular_trigger (c, tr)" and "compute_next_fire c tr t = Some u"
  shows "t < u"
proof (cases "wall_clock c tr")
  case True
  with assms compute_least(1) show ?thesis by (auto simp: regular_trigger_def)
next
  case False
  with assms(1) obtain n where n: "trigger_ok c tr" "n > 0" "schedule tr = Interval n" by (auto simp: regular_trigger_def)
  then have "t < t + int n * SEC_NS" by (simp add: SEC_NS_def)
  with assms(2) n next_gate_open_facts(1) [OF n(1), of "t + int n * SEC_NS" u] show ?thesis
    by (auto simp: compute_interval Let_def split: if_splits)
qed

interpretation ft: ticker regular_trigger "\<lambda>(c, tr). compute_next_fire c tr"
  by unfold_locales (auto dest: compute_later)

lemma compute_mono:
  assumes "wall_clock c tr" and "trigger_ok c tr" and "compute_next_fire c tr t = Some u"
    and "compute_next_fire c tr t' = Some u'" and "t \<le> t'" and "calm c tr t u"
  shows "u \<le> u'"
  using compute_least [OF assms(1,2,4)] compute_least(4) [OF assms(1-3,6)] assms(5) by auto

subsection \<open>Lemmas: ticks\<close>

text \<open>The scheduler loop on one trigger: each tick evaluates it and fires it when it is due.\<close>

fun run_ticks :: "Civil \<Rightarrow> Trigger \<Rightarrow> instant list \<Rightarrow> instant list \<times> Trigger" where
  "run_ticks c tr [] = ([], tr)"
| "run_ticks c tr (now # ticks) =
     (case trigger_evaluate tr now of
        None \<Rightarrow> run_ticks c tr ticks
      | Some f \<Rightarrow> (let (fs, tr') = run_ticks c (mark_fired c tr f now) ticks in (f # fs, tr')))"

definition plain_interval :: "Trigger \<Rightarrow> nat \<Rightarrow> instant \<Rightarrow> bool" where
  "plain_interval tr secs f \<longleftrightarrow> state tr = Armed \<and> next_fire_at tr = Some f \<and> schedule tr = Interval secs \<and>
     calendar tr = None \<and> window tr = None \<and> not_before tr = None \<and> not_after tr = None \<and> replay_until tr = None"

lemma plain_fire:
  assumes "plain_interval tr secs f" and "f \<le> now" and "now - f < int secs * SEC_NS"
  shows "plain_interval (mark_fired c tr f now) secs (f + int secs * SEC_NS)"
    "fire_count (mark_fired c tr f now) = fire_count tr + 1"
proof -
  have "compute_next_fire c tr f = Some (f + int secs * SEC_NS)"
    using assms(1) by (simp add: plain_interval_def compute_ungated)
  with assms show "plain_interval (mark_fired c tr f now) secs (f + int secs * SEC_NS)"
    "fire_count (mark_fired c tr f now) = fire_count tr + 1"
    by (auto simp: plain_interval_def mark_fired_def settle_def advance_anchor_def Let_def)
qed

lemma plain_evaluate: "plain_interval tr secs f \<Longrightarrow> trigger_evaluate tr now = (if f \<le> now then Some f else None)"
  by (simp add: plain_interval_def trigger_evaluate_def)

lemma div_split: "0 < (s::int) \<Longrightarrow> 0 \<le> d \<Longrightarrow> nat ((d + s) div s) = Suc (nat (d div s))"
  by (simp add: pos_imp_zdiv_nonneg_iff Suc_nat_eq_nat_zadd1 div_add_self2 add.commute)

lemma last_tick_ge: "successively (\<lambda>a b. a \<le> b \<and> b < a + s) (t # ts) \<Longrightarrow> t \<le> last (t # ts)" for t s :: int
  by (induction ts arbitrary: t) (auto, force)

lemma plain_run:
  assumes "0 < s" and "s = int secs * SEC_NS"
  shows "plain_interval tr secs f \<Longrightarrow> p < f \<Longrightarrow> successively (\<lambda>a b. a \<le> b \<and> b < a + s) (p # ts) \<Longrightarrow>
    fst (run_ticks c tr ts) = map (\<lambda>i. f + int i * s) [0..<nat ((last (p # ts) - f + s) div s)]"
proof (induction ts arbitrary: tr f p)
  case Nil
  then have "(p - f + s) div s \<le> 0" using assms(1) by (cases "p - f + s \<ge> 0") (simp_all add: div_pos_pos_trivial div_neg_pos_less0 less_imp_le)
  then show ?case by simp
next
  case (Cons t ts)
  have t: "p \<le> t" "t < p + s" "successively (\<lambda>a b. a \<le> b \<and> b < a + s) (t # ts)"
    using Cons.prems(3) by simp_all
  have lt: "t \<le> last (t # ts)" by (rule last_tick_ge [OF t(3)])
  show ?case
  proof (cases "f \<le> t")
    case True
    have late: "t - f < int secs * SEC_NS" using t(2) Cons.prems(2) assms(2) by linarith
    note fire = plain_fire [OF Cons.prems(1) True late, of c]
    have "t < f + s" using late assms(2) by linarith
    from Cons.IH [OF fire(1) [folded assms(2)] this t(3)]
    have ih: "fst (run_ticks c (mark_fired c tr f t) ts) =
      map (\<lambda>i. f + s + int i * s) [0..<nat ((last (t # ts) - f) div s)]" by simp
    have "nat ((last (t # ts) - f + s) div s) = Suc (nat ((last (t # ts) - f) div s))"
      using True lt by (intro div_split [OF assms(1)]) linarith
    then show ?thesis
      using ih plain_evaluate [OF Cons.prems(1), of t] True
      by (simp add: upt_conv_Cons map_Suc_upt [symmetric] Let_def case_prod_beta algebra_simps del: upt_Suc)
  next
    case False
    with Cons.IH [OF Cons.prems(1) _ t(3)] show ?thesis by (simp add: plain_evaluate [OF Cons.prems(1)])
  qed
qed

subsection \<open>Lemmas: replaying missed fires\<close>

text \<open>All fires after one instant up to another.\<close>

inductive fires_upto :: "(instant \<Rightarrow> instant option) \<Rightarrow> instant \<Rightarrow> instant \<Rightarrow> instant list \<Rightarrow> bool" for nxt now where
  fu_done: "filter_opt (\<lambda>n. n \<le> now) (nxt at) = None \<Longrightarrow> fires_upto nxt now at []"
| fu_more: "nxt at = Some y \<Longrightarrow> y \<le> now \<Longrightarrow> fires_upto nxt now y ys \<Longrightarrow> fires_upto nxt now at (y # ys)"

inductive_cases fires_upto_ConsE: "fires_upto nxt now at (y # ys)"
inductive_cases fires_upto_NilE: "fires_upto nxt now at []"

definition take_last :: "nat \<Rightarrow> 'a list \<Rightarrow> 'a list" where
  "take_last n xs = drop (length xs - n) xs"

lemma length_take_last: "length (take_last n xs) = min n (length xs)"
  by (simp add: take_last_def min_def)

lemma push_kept_last: "length kept \<le> m \<Longrightarrow> 0 < m \<Longrightarrow> push_kept m kept y = take_last m (kept @ [y])"
  by (cases kept) (auto simp: push_kept_def take_last_def)

lemma take_last_append: "take_last m (take_last m xs @ ys) = take_last m (xs @ ys)"
  by (cases "length xs \<le> m") (auto simp: take_last_def drop_append add.commute)

lemma walk_exact:
  assumes "fires_upto nxt now at ys" and "length kept \<le> m" and "0 < m"
  shows "missed_walk nxt now m left kept k at =
    (if length ys \<le> left then Some (take_last m (kept @ ys), k + length ys) else None)"
  using assms
proof (induction arbitrary: kept k left rule: fires_upto.induct)
  case (fu_done at)
  then show ?case by (simp add: walk_stop take_last_def)
next
  case (fu_more at y ys)
  show ?case
  proof (cases left)
    case 0
    then show ?thesis by (simp add: walk_limit [where nxt = nxt and at = at, OF fu_more.hyps(1,2)])
  next
    case (Suc l)
    have kept: "push_kept m kept y = take_last m (kept @ [y])" by (rule push_kept_last [OF fu_more.prems])
    have "length (take_last m (kept @ [y])) \<le> m" by (simp add: take_last_def)
    from fu_more.IH [OF this fu_more.prems(2), of l "k + 1"] show ?thesis
      by (simp add: Suc walk_step [where nxt = nxt and at = at, OF fu_more.hyps(1,2)] kept take_last_append)
  qed
qed

text \<open>While a replay is on, each fire steps to the next missed one; the last one ends it.\<close>

definition replaying :: "Civil \<Rightarrow> Trigger \<Rightarrow> Trigger \<Rightarrow> instant \<Rightarrow> instant \<Rightarrow> bool" where
  "replaying c tr0 tr f until \<longleftrightarrow> same_config tr tr0 \<and> state tr = Armed \<and> next_fire_at tr = Some f \<and>
     replay_until tr = Some until \<and> not_before tr = None \<and> not_after tr = None"

lemma replay_step:
  assumes "replaying c tr0 tr f until" and "compute_next_fire c tr0 f = Some n" and "n \<le> until"
  shows "replaying c tr0 (mark_fired c tr f now) n until"
proof -
  have "compute_next_fire c tr f = Some n"
    using assms(1,2) compute_next_fire_cong [of tr tr0 c] by (simp add: replaying_def)
  with assms(1,3) show ?thesis by (simp add: replaying_def mark_fired_def settle_def same_config_def Let_def)
qed

lemma replay_end:
  assumes "replaying c tr0 tr f until" and "filter_opt (\<lambda>n. n \<le> until) (compute_next_fire c tr0 f) = None"
  shows "replay_until (mark_fired c tr f now) = None"
    "next_fire_at (mark_fired c tr f now) = compute_next_fire c tr0 now"
proof -
  have c: "compute_next_fire c tr = compute_next_fire c tr0"
    using assms(1) compute_next_fire_cong by (auto simp: replaying_def)
  have n: "filter_opt (\<lambda>n. n \<le> until) (compute_next_fire c tr f) = None" using assms(2) by (simp add: c)
  show "replay_until (mark_fired c tr f now) = None"
    "next_fire_at (mark_fired c tr f now) = compute_next_fire c tr0 now"
    using assms(1) n by (auto simp: replaying_def mark_fired_def settle_def c Let_def split: option.splits)
qed

lemma replay_evaluate: "replaying c tr0 tr f until \<Longrightarrow> f \<le> t \<Longrightarrow> trigger_evaluate tr t = Some f"
  by (simp add: replaying_def trigger_evaluate_def)

lemma fires_upto_last:
  assumes "regular_trigger (c, tr)"
  shows "fires_upto (compute_next_fire c tr) now at ys \<Longrightarrow> at \<le> last (at # ys)"
proof (induction rule: fires_upto.induct)
  case (fu_more at y ys)
  with compute_later [OF assms fu_more.hyps(1)] show ?case by simp
qed simp

lemma replay_run:
  assumes "regular_trigger (c, tr0)"
  shows "fires_upto (compute_next_fire c tr0) now f ys \<Longrightarrow> replaying c tr0 tr f (last (f # ys)) \<Longrightarrow>
    f \<le> now \<Longrightarrow> length ts = length (f # ys) \<Longrightarrow> \<forall>t \<in> set ts. now \<le> t \<Longrightarrow>
    fst (run_ticks c tr ts) = f # ys \<and> replay_until (snd (run_ticks c tr ts)) = None \<and>
    next_fire_at (snd (run_ticks c tr ts)) = compute_next_fire c tr0 (last ts)"
proof (induction arbitrary: tr ts rule: fires_upto.induct)
  case (fu_done f)
  then obtain t where ts: "ts = [t]" "now \<le> t" by (cases ts) auto
  have "filter_opt (\<lambda>n. n \<le> f) (compute_next_fire c tr0 f) = None"
    using compute_later [OF assms, of f] by (fastforce simp: filter_opt_None)
  with fu_done.prems(1) have "replay_until (mark_fired c tr f t) = None"
    "next_fire_at (mark_fired c tr f t) = compute_next_fire c tr0 t"
    using replay_end [of c tr0 tr f f t] by simp_all
  with ts replay_evaluate [OF fu_done.prems(1), of t] fu_done.prems(2) show ?case by simp
next
  case (fu_more f y ys)
  from fu_more.prems(3,4) obtain t ts' where ts: "ts = t # ts'" "now \<le> t" "length ts' = length (y # ys)"
    by (cases ts) auto
  then have "ts' \<noteq> []" by auto
  have "y \<le> last (y # ys)" by (rule fires_upto_last [OF assms fu_more.hyps(3)])
  with replay_step [OF fu_more.prems(1) fu_more.hyps(1)] have "replaying c tr0 (mark_fired c tr f t) y (last (y # ys))" by simp
  from fu_more.IH [OF this fu_more.hyps(2) ts(3)] fu_more.prems(4) ts have
    "fst (run_ticks c (mark_fired c tr f t) ts') = y # ys"
    "replay_until (snd (run_ticks c (mark_fired c tr f t) ts')) = None"
    "next_fire_at (snd (run_ticks c (mark_fired c tr f t) ts')) = compute_next_fire c tr0 (last ts')" by auto
  with ts \<open>ts' \<noteq> []\<close> replay_evaluate [OF fu_more.prems(1), of t] fu_more.prems(2) show ?case
    by (simp add: case_prod_beta Let_def)
qed

lemma fires_upto_drop:
  "fires_upto nxt now at ys \<Longrightarrow> at \<le> now \<Longrightarrow> drop k (at # ys) = g # gs \<Longrightarrow> fires_upto nxt now g gs \<and> g \<le> now"
proof (induction arbitrary: k rule: fires_upto.induct)
  case (fu_done at)
  then show ?case by (cases k) (auto intro: fires_upto.fu_done)
next
  case (fu_more at y ys)
  then show ?case by (cases k) (auto intro: fires_upto.fu_more)
qed

lemma plan_replay:
  assumes "regular_trigger (c, tr)" and "state tr = Armed" and "next_fire_at tr = Some first" and "first < now"
    and "missed_fires tr = MF_All m" and "not_before tr = None" and "not_after tr = None"
    and "fires_upto (compute_next_fire c tr) now first ys" and "length ys < MISSED_FIRE_WALK_LIMIT"
  shows "\<exists>tr' g gs. take_last (max m 1) (first # ys) = g # gs \<and>
    plan_missed_fires c tr now = (Replay (length (g # gs)) (length ys - length gs), tr') \<and>
    replaying c tr tr' g (last (g # gs)) \<and> fires_upto (compute_next_fire c tr) now g gs \<and> g \<le> now"
proof -
  let ?k = "take_last (max m 1) (first # ys)"
  have ne: "?k \<noteq> []" by (auto simp: take_last_def max_def)
  then obtain g gs where g: "?k = g # gs" by (cases ?k) auto
  have "missed_walk (compute_next_fire c tr) now (max m 1) (MISSED_FIRE_WALK_LIMIT - 1) [first] 1 first = Some (?k, 1 + length ys)"
    using walk_exact [OF assms(8), of "[first]" "max m 1" "MISSED_FIRE_WALK_LIMIT - 1" 1] assms(9) by simp
  then have p: "plan_missed_fires c tr now = (Replay (length (g # gs)) (length ys - length gs),
      tr\<lparr>next_fire_at := Some g, replay_until := Some (last (g # gs))\<rparr>)"
    using assms(2-5) g by (simp add: plan_missed_fires_def Let_def dq_front_def dq_back_def)
  have "replaying c tr (tr\<lparr>next_fire_at := Some g, replay_until := Some (last (g # gs))\<rparr>) g (last (g # gs))"
    using assms(2,6,7) by (simp add: replaying_def same_config_def)
  moreover have "fires_upto (compute_next_fire c tr) now g gs \<and> g \<le> now"
    using fires_upto_drop [OF assms(8)] assms(4) g by (simp add: take_last_def)
  ultimately show ?thesis using p g by blast
qed

subsection \<open>Properties\<close>

text \<open>C26: A trigger never fires through a closed gate. Whatever sequence of operations a trigger went through
  (building, firing, skipping, completing, failing, pausing, resuming, adopting a stored fire,
  planning missed fires, being rebuilt by a reload), the fire a tick makes is due, lies at an instant
  its calendar and window allow, and only an armed trigger with an enabled schedule inside its
  \<open>not_before\<close> and \<open>not_after\<close> bounds makes one.\<close>

theorem fires_only_when_open:
  assumes "live c tr" and "trigger_evaluate tr now = Some f"
  shows "f \<le> now \<and> gate_allows c tr f \<and> state tr = Armed \<and> schedule tr \<noteq> Disabled \<and>
    (case not_before tr of Some nb \<Rightarrow> nb \<le> now | None \<Rightarrow> True) \<and> (case not_after tr of Some na \<Rightarrow> now \<le> na | None \<Rightarrow> True)"
  using live_inv [OF assms(1)] assms(2)
  by (auto simp: trigger_inv_def trigger_evaluate_def split: if_splits option.splits)

definition office_window :: TimeWindow where
  "office_window = \<lparr>win_start = 28800 * SEC_NS, win_end = 64800 * SEC_NS\<rparr>"

definition office_trigger :: Trigger where
  "office_trigger = with_bounds gregorian ''a:b'' (Daily (32400 * SEC_NS)) (fixed_zone 0) None (Some office_window)
     None None 0"

lemma office_next:
  "schedule tr = Daily (32400 * SEC_NS) \<Longrightarrow> timezone tr = fixed_zone 0 \<Longrightarrow> calendar tr = None \<Longrightarrow> window tr = Some office_window \<Longrightarrow>
     compute_next_fire gregorian tr 0 = Some (32400 * SEC_NS)"
proof -
  assume tr: "schedule tr = Daily (32400 * SEC_NS)" "timezone tr = fixed_zone 0" "calendar tr = None" "window tr = Some office_window"
  obtain n where n: "MAX_GATE_JUMPS = Suc (Suc n)" using jumps_Suc by blast
  have "gate_allows gregorian tr (32400 * SEC_NS)"
    by (simp add: gate_allows_def calendar_allows_def window_allows_def tr office_window_def window_contains_def
        fixed_zone_def time_of_def ns_defs)
  moreover have "next_fire_after gregorian (fixed_zone 0) (Daily (32400 * SEC_NS)) 0 = Some (32400 * SEC_NS)"
    by (simp add: fixed_zone_def resolve_local_def date_of_def and_time_def ns_defs)
  ultimately show ?thesis by (simp add: compute_next_fire_def tr n)
qed

lemma office_trigger_facts:
  "next_fire_at office_trigger = Some (32400 * SEC_NS)" "state office_trigger = Armed"
  "schedule office_trigger = Daily (32400 * SEC_NS)" "timezone office_trigger = fixed_zone 0"
  "calendar office_trigger = None" "window office_trigger = Some office_window"
  "not_before office_trigger = None" "not_after office_trigger = None"
  by (simp_all add: office_trigger_def with_bounds_def office_next)

theorem fires_only_when_open_witness:
  "trigger_evaluate office_trigger (32401 * SEC_NS) = Some (32400 * SEC_NS) \<and>
   gate_allows gregorian office_trigger (32400 * SEC_NS)"
proof -
  have l: "live gregorian office_trigger" unfolding office_trigger_def by (rule live.built)
  have e: "trigger_evaluate office_trigger (32401 * SEC_NS) = Some (32400 * SEC_NS)"
    by (simp add: trigger_evaluate_def office_trigger_facts SEC_NS_def)
  from fires_only_when_open [OF l e] e show ?thesis by simp
qed

text \<open>C27: The next fire time of a wall-clock trigger is the earliest one its gates allow: it lies strictly
  after the given instant, it is a fire time of the schedule, the calendar and the window are open
  there, and, when no clock a gate reads is set back in between, no earlier fire time of the schedule
  is allowed. Jumping from a closed gate to its next opening therefore skips no fire.\<close>

theorem next_fire_earliest_allowed:
  assumes "wall_clock c tr" and "trigger_ok c tr" and "compute_next_fire c tr after = Some u"
  shows "after < u \<and> fires_at c (timezone tr) (schedule tr) u \<and> gate_allows c tr u \<and>
    (calm c tr after u \<longrightarrow>
      (\<forall>v. fires_at c (timezone tr) (schedule tr) v \<and> gate_allows c tr v \<and> after < v \<longrightarrow> u \<le> v))"
  using compute_least [OF assms] by blast

lemma office_regular:
  "wall_clock gregorian office_trigger" "trigger_ok gregorian office_trigger" "calm gregorian office_trigger t u"
proof -
  have "valid_time (32400 * SEC_NS)" "32400 * SEC_NS mod MIN_NS = 0" by (simp_all add: valid_time_def ns_defs)
  then show "wall_clock gregorian office_trigger"
    by (simp add: wall_clock_def office_trigger_facts gregorian_ok fixed_zone_regular fixed_zone_props)
  have "window_ok office_window" by (simp add: window_ok_def office_window_def valid_time_def ns_defs)
  then show "trigger_ok gregorian office_trigger"
    by (simp add: trigger_ok_def cal_gate_ok_def win_gate_ok_def office_trigger_facts)
  show "calm gregorian office_trigger t u"
    by (simp add: calm_def cal_gate_calm_def win_gate_calm_def office_trigger_facts)
qed

lemma office_compute: "compute_next_fire gregorian office_trigger 0 = Some (32400 * SEC_NS)"
  by (rule office_next) (simp_all add: office_trigger_facts)

theorem next_fire_earliest_allowed_witness:
  "compute_next_fire gregorian office_trigger 0 = Some (32400 * SEC_NS) \<and>
   fires_at gregorian (fixed_zone 0) (Daily (32400 * SEC_NS)) (32400 * SEC_NS)"
  using next_fire_earliest_allowed [OF office_regular(1,2) office_compute] office_compute
  by (simp only: office_trigger_facts)

text \<open>C28: An interval job does not drift. A trigger that fires every \<open>secs\<close> seconds, has no gates and is polled by
  ticks that follow each other in less than one interval makes exactly the fires one, two, three, ...
  intervals after it was built, up to the last tick, however late each single tick comes.\<close>

theorem interval_does_not_drift:
  assumes "0 < secs" and "successively (\<lambda>a b. a \<le> b \<and> b < a + int secs * SEC_NS) (now # ticks)"
  shows "fst (run_ticks c (new_trigger c key (Interval secs) tz None None now) ticks) =
    map (\<lambda>i. now + int (Suc i) * (int secs * SEC_NS)) [0..<nat ((last (now # ticks) - now) div (int secs * SEC_NS))]"
proof -
  let ?tr = "new_trigger c key (Interval secs) tz None None now" and ?s = "int secs * SEC_NS"
  have s: "0 < ?s" using assms(1) by (simp add: SEC_NS_def)
  have "plain_interval ?tr secs (now + ?s)"
    by (simp add: plain_interval_def new_trigger_def with_bounds_def compute_ungated Let_def)
  from plain_run [OF s refl this _ assms(2)] s show ?thesis by (simp add: algebra_simps)
qed

theorem interval_does_not_drift_witness:
  "fst (run_ticks gregorian (new_trigger gregorian ''a:b'' (Interval 10) (fixed_zone 0) None None 0)
     [9 * SEC_NS, 13 * SEC_NS, 21 * SEC_NS, 29 * SEC_NS, 38 * SEC_NS]) = [10 * SEC_NS, 20 * SEC_NS, 30 * SEC_NS]"
proof -
  have "successively (\<lambda>a b. a \<le> b \<and> b < a + int 10 * SEC_NS)
      (0 # [9 * SEC_NS, 13 * SEC_NS, 21 * SEC_NS, 29 * SEC_NS, 38 * SEC_NS])" by (simp add: SEC_NS_def)
  note run = interval_does_not_drift [OF _ this, of gregorian "''a:b''" "fixed_zone 0"]
  have "nat ((last (0 # [9 * SEC_NS, 13 * SEC_NS, 21 * SEC_NS, 29 * SEC_NS, 38 * SEC_NS]) - 0) div (int 10 * SEC_NS)) = 3"
    by (simp add: SEC_NS_def)
  moreover have "[0..<3] = [0, 1, 2 :: nat]" by (simp add: upt_rec)
  ultimately show ?thesis using run by (simp only:) simp
qed

text \<open>C29: With \<open>catch_up all\<close> a restart replays exactly the most recent missed fires. If the pending fire and the
  fires \<open>ys\<close> after it up to now were missed, the plan announces the last \<open>max 1 m\<close> of them (all, when
  they are fewer) and the number it drops; one tick each then fires precisely these, oldest first, and
  afterwards the replay is over and the trigger waits for its next fire after the last tick.\<close>

theorem missed_fires_replayed_exactly:
  assumes "regular_trigger (c, tr)" and "state tr = Armed" and "next_fire_at tr = Some first" and "first < now"
    and "missed_fires tr = MF_All m" and "not_before tr = None" and "not_after tr = None"
    and "fires_upto (compute_next_fire c tr) now first ys" and "length ys < MISSED_FIRE_WALK_LIMIT"
    and "length ticks = min (max m 1) (Suc (length ys))" and "\<forall>t \<in> set ticks. now \<le> t"
  shows "fst (plan_missed_fires c tr now) = Replay (length ticks) (Suc (length ys) - length ticks) \<and>
    fst (run_ticks c (snd (plan_missed_fires c tr now)) ticks) = drop (Suc (length ys) - length ticks) (first # ys) \<and>
    replay_until (snd (run_ticks c (snd (plan_missed_fires c tr now)) ticks)) = None \<and>
    next_fire_at (snd (run_ticks c (snd (plan_missed_fires c tr now)) ticks)) = compute_next_fire c tr (last ticks)"
proof -
  obtain tr' g gs where p: "take_last (max m 1) (first # ys) = g # gs"
      "plan_missed_fires c tr now = (Replay (length (g # gs)) (length ys - length gs), tr')"
      "replaying c tr tr' g (last (g # gs))" "fires_upto (compute_next_fire c tr) now g gs" "g \<le> now"
    using plan_replay [OF assms(1-9)] by blast
  have "length (g # gs) = length (take_last (max m 1) (first # ys))" by (simp only: p(1))
  then have len: "length (g # gs) = length ticks" using assms(10) by (simp add: length_take_last)
  have "drop (Suc (length ys) - max m 1) (first # ys) = drop (Suc (length ys) - length ticks) (first # ys)"
    using assms(10) by (auto simp: min_def)
  then have d: "drop (Suc (length ys) - length ticks) (first # ys) = g # gs" using p(1) by (simp add: take_last_def)
  note run = replay_run [OF assms(1) p(4) p(3) p(5) len [symmetric] assms(11)]
  have "length ys - length gs = Suc (length ys) - length ticks" using len by simp
  then show ?thesis using run len p(2) unfolding d by simp
qed

theorem missed_fires_replayed_exactly_witness:
  "fst (run_ticks gregorian (snd (plan_missed_fires gregorian
      ((new_trigger gregorian ''a:b'' (Interval 60) (fixed_zone 0) None None 0)\<lparr>missed_fires := MF_All 2\<rparr>) (200 * SEC_NS)))
    [200 * SEC_NS, 201 * SEC_NS]) = [120 * SEC_NS, 180 * SEC_NS]"
proof -
  define tr where "tr = (new_trigger gregorian ''a:b'' (Interval 60) (fixed_zone 0) None None 0)\<lparr>missed_fires := MF_All 2\<rparr>"
  have tr: "schedule tr = Interval 60" "calendar tr = None" "window tr = None" "state tr = Armed"
    "next_fire_at tr = Some (60 * SEC_NS)" "missed_fires tr = MF_All 2" "not_before tr = None" "not_after tr = None"
    by (simp_all add: tr_def new_trigger_def with_bounds_def compute_ungated Let_def)
  have n: "compute_next_fire gregorian tr t = Some (t + 60 * SEC_NS)" for t by (simp add: compute_ungated tr)
  have "regular_trigger (gregorian, tr)"
    by (auto simp: regular_trigger_def trigger_ok_def cal_gate_ok_def win_gate_ok_def tr)
  moreover have "fires_upto (compute_next_fire gregorian tr) (200 * SEC_NS) (60 * SEC_NS) [120 * SEC_NS, 180 * SEC_NS]"
    by (auto simp: n SEC_NS_def intro!: fires_upto.intros)
  ultimately show ?thesis
    using missed_fires_replayed_exactly [of gregorian tr "60 * SEC_NS" "200 * SEC_NS" 2 "[120 * SEC_NS, 180 * SEC_NS]"
        "[200 * SEC_NS, 201 * SEC_NS]"]
    unfolding tr_def [symmetric] by (simp add: tr MISSED_FIRE_WALK_LIMIT_def SEC_NS_def)
qed



text \<open>
  A bound \<open>not_after\<close> before the first fire leaves a new trigger armed for good: no tick can fire it, and
  only a fire would exhaust it.
\<close>

lemma not_after_stays_armed:
  "next_fire_at tr = Some n \<Longrightarrow> not_after tr = Some na \<Longrightarrow> na < n \<Longrightarrow> trigger_evaluate tr now = None"
  by (auto simp: trigger_evaluate_def)

lemma bounded_trigger_armed:
  "let tr = with_bounds gregorian ''a:b'' (Interval 60) (fixed_zone 0) None None None (Some (30 * SEC_NS)) 0
   in state tr = Armed \<and> next_fire_at tr = Some (60 * SEC_NS) \<and> (\<forall>now. trigger_evaluate tr now = None)"
  unfolding Let_def
  by (intro conjI allI not_after_stays_armed [where n = "60 * SEC_NS" and na = "30 * SEC_NS"])
    (simp_all add: with_bounds_def compute_ungated SEC_NS_def)

end
