(* ===== verification/Parser.thy ===== *)
theory Parser
  imports Config_Ast
begin

text \<open>
  The recursive-descent parser of Croniqfiles, \<^verbatim>\<open>croniq-config/src/parser.rs\<close>. A parser state holds the
  tokens from the current position on, which stand for the token vector and the position of the code, and
  the nesting depth; setting the position back is using an earlier state again. A function that takes
  \<^verbatim>\<open>&mut self\<close> and returns a \<^verbatim>\<open>Result\<close> returns an error or its value with the new state, and
  \<open>and_then\<close> is the question mark operator. A state after an error is never looked at by the source and
  is not kept.

  The loops of the source run as \<open>p_loop\<close>: a body returns the loop's next value, or \<open>None\<close> to leave. A
  round that goes on without having read a token would repeat forever; it has the value \<open>NoProgress\<close>,
  which is no error of the source and which \<open>parse_terminates\<close> shows is never reached.
\<close>

named_theorems parse_defs \<open>definitions of the parser\<close>
named_theorems parse_steps \<open>the rules for what a parser function reads\<close>

subsection \<open>Errors, states and control\<close>

datatype ParseError =
    General string Span
  | Unexpected string string Span
  | InvalidJobKey string Span
  | InvalidTime string Span
  | InvalidOrdinal string Span
  | Lex LexError
  | NoProgress

definition MAX_BLOCK_DEPTH :: nat where
  "MAX_BLOCK_DEPTH = 64"

record Parser =
  ptoks :: "Token list"
  depth :: nat

type_synonym 'a parsed = "ParseError + 'a \<times> Parser"

definition and_then :: "'a parsed \<Rightarrow> ('a \<Rightarrow> Parser \<Rightarrow> 'b parsed) \<Rightarrow> 'b parsed" where
  "and_then r f = (case r of Inl e \<Rightarrow> Inl e | Inr (x, ps) \<Rightarrow> f x ps)"

datatype 's flow = Continue 's | Break 's

function p_loop :: "('s \<Rightarrow> Parser \<Rightarrow> 's flow parsed) \<Rightarrow> 's \<Rightarrow> Parser \<Rightarrow> 's parsed" where
  "p_loop body s ps =
     (case body s ps of
        Inl e \<Rightarrow> Inl e
      | Inr (Break s', ps') \<Rightarrow> Inr (s', ps')
      | Inr (Continue s', ps') \<Rightarrow>
          if length (ptoks ps') < length (ptoks ps) then p_loop body s' ps' else Inl NoProgress)"
  by pat_completeness auto
termination
  by (relation "measure (\<lambda>(_, _, ps). length (ptoks ps))") auto

declare p_loop.simps [simp del]

subsection \<open>Tokens\<close>

text \<open>
  The token vector of a parser ends with the end-of-input token, so that looking at and reading a token never
  runs past it; the empty list is not reached.
\<close>

definition tok_peek :: "Parser \<Rightarrow> Token" where
  "tok_peek ps = (case ptoks ps of [] \<Rightarrow> token_new Eof (span_empty 0) | t # _ \<Rightarrow> t)"

definition peek_kind :: "Parser \<Rightarrow> TokenKind" where
  "peek_kind ps = kind (tok_peek ps)"

definition at_end :: "Parser \<Rightarrow> bool" where
  "at_end ps \<longleftrightarrow> peek_kind ps = Eof"

definition skip_newlines :: "Parser \<Rightarrow> Parser" where
  "skip_newlines ps = ps\<lparr>ptoks := dropWhile (\<lambda>t. kind t = Newline) (ptoks ps)\<rparr>"

definition advance :: "Parser \<Rightarrow> Parser" where
  "advance ps = (if 1 < length (ptoks ps) then ps\<lparr>ptoks := tl (ptoks ps)\<rparr> else ps)"

definition skip_terminators :: "Parser \<Rightarrow> Parser" where
  "skip_terminators ps = ps\<lparr>ptoks := dropWhile (\<lambda>t. kind t = Semicolon \<or> kind t = Newline) (ptoks ps)\<rparr>"

definition quoted :: "string \<Rightarrow> string" where
  "quoted s = [CHR 0x27] @ s @ [CHR 0x27]"

definition unexpected :: "string \<Rightarrow> Token \<Rightarrow> ParseError" where
  "unexpected expected tok = Unexpected expected (show_kind (kind tok)) (tspan tok)"

definition expect_ident :: "string \<Rightarrow> Parser \<Rightarrow> Span parsed" where
  "expect_ident name ps =
     (let tok = tok_peek ps
      in if is_ident name tok then Inr (tspan tok, advance ps)
         else Inl (unexpected (quoted name) tok))"

definition expect_kind :: "TokenKind \<Rightarrow> Parser \<Rightarrow> Span parsed" where
  "expect_kind k ps0 =
     (let ps = skip_newlines ps0; tok = tok_peek ps
      in if kind tok = k then Inr (tspan tok, advance ps)
         else Inl (unexpected (quoted (show_kind k)) tok))"

definition expect_lbrace :: "Parser \<Rightarrow> Span parsed" where
  "expect_lbrace = expect_kind LBrace"

definition expect_rbrace :: "Parser \<Rightarrow> Span parsed" where
  "expect_rbrace = expect_kind RBrace"

definition string_value :: "TokenKind \<Rightarrow> Span \<Rightarrow> StringValue option" where
  "string_value k sp =
     (case k of
        Ident s \<Rightarrow> Some \<lparr>sv_value = s, sv_quoted = False, sv_placeholder = False, sv_span = sp\<rparr>
      | QuotedString s \<Rightarrow> Some \<lparr>sv_value = s, sv_quoted = True, sv_placeholder = False, sv_span = sp\<rparr>
      | Placeholder s \<Rightarrow> Some \<lparr>sv_value = s, sv_quoted = False, sv_placeholder = True, sv_span = sp\<rparr>
      | _ \<Rightarrow> None)"

definition read_string_value :: "Parser \<Rightarrow> StringValue parsed" where
  "read_string_value ps =
     (let tok = tok_peek ps
      in case string_value (kind tok) (tspan tok) of
           Some val \<Rightarrow> Inr (val, advance ps)
         | None \<Rightarrow> Inl (unexpected ''identifier, string, or placeholder'' tok))"

definition is_value_token :: "Parser \<Rightarrow> bool" where
  "is_value_token ps =
     (case peek_kind ps of Ident _ \<Rightarrow> True | QuotedString _ \<Rightarrow> True | Placeholder _ \<Rightarrow> True | _ \<Rightarrow> False)"

definition is_comment :: "Parser \<Rightarrow> bool" where
  "is_comment ps = (case peek_kind ps of Comment _ \<Rightarrow> True | _ \<Rightarrow> False)"

definition at_rbrace :: "Parser \<Rightarrow> bool" where
  "at_rbrace ps \<longleftrightarrow> peek_kind ps = RBrace \<or> at_end ps"

subsection \<open>Generic directives and blocks\<close>

definition last_span :: "StringValue list \<Rightarrow> Span \<Rightarrow> Span" where
  "last_span args dflt = (if args = [] then dflt else sv_span (last args))"

definition directive_args :: "StringValue list \<Rightarrow> Parser \<Rightarrow> StringValue list flow parsed" where
  "directive_args args ps =
     (if \<not> is_value_token ps then Inr (Break args, ps)
      else and_then (read_string_value ps) (\<lambda>val ps.
        if peek_kind ps = DotDot then
          and_then (read_string_value (advance ps)) (\<lambda>after ps.
            Inr (Continue (args @ [val\<lparr>sv_value := sv_value val @ ''..'' @ sv_value after,
                                       sv_span := span_merge (sv_span val) (sv_span after)\<rparr>]), ps))
        else Inr (Continue (args @ [val]), ps)))"

definition parse_directive :: "Parser \<Rightarrow> Directive parsed" where
  "parse_directive ps =
     and_then (read_string_value ps) (\<lambda>key ps.
     and_then (p_loop directive_args [] ps) (\<lambda>args ps.
       let span = span_merge (sv_span key) (last_span args (sv_span key))
       in Inr (\<lparr>d_key = key, d_args = args, d_span = span\<rparr>, skip_terminators ps)))"

definition directives_body :: "Directive list \<Rightarrow> Parser \<Rightarrow> Directive list flow parsed" where
  "directives_body ds ps0 =
     (let ps = skip_newlines ps0
      in if at_rbrace ps then Inr (Break ds, ps)
         else if is_comment ps then Inr (Continue ds, advance ps)
         else if peek_kind ps = Semicolon then Inr (Continue ds, advance ps)
         else and_then (parse_directive ps) (\<lambda>d ps. Inr (Continue (ds @ [d]), ps)))"

definition parse_directives_until_rbrace :: "Parser \<Rightarrow> Directive list parsed" where
  "parse_directives_until_rbrace ps = p_loop directives_body [] ps"

text \<open>
  A directive or a block. The parser of the block's contents is an argument: the source's two functions call
  each other, at most \<open>MAX_BLOCK_DEPTH\<close> deep.
\<close>

definition named_block ::
  "(Parser \<Rightarrow> DirectiveOrBlock list parsed) \<Rightarrow> StringValue \<Rightarrow> StringValue option \<Rightarrow> Parser \<Rightarrow> NamedBlock parsed" where
  "named_block contents name qualifier ps =
     and_then (expect_lbrace ps) (\<lambda>_ ps.
     and_then (contents ps) (\<lambda>directives ps.
     and_then (expect_rbrace ps) (\<lambda>fin ps.
       Inr (NamedBlock name qualifier directives (span_merge (sv_span name) fin), ps))))"

definition block_or_directive ::
  "(Parser \<Rightarrow> DirectiveOrBlock list parsed) \<Rightarrow> Parser \<Rightarrow> DirectiveOrBlock parsed" where
  "block_or_directive contents ps =
     (let directive = and_then (parse_directive ps) (\<lambda>d ps. Inr (DDirective d, ps))
      in and_then (read_string_value ps) (\<lambda>name ps1.
           if peek_kind ps1 = LBrace then
             and_then (named_block contents name None ps1) (\<lambda>b ps. Inr (DBlock b, ps))
           else if is_value_token ps1 then
             and_then (read_string_value ps1) (\<lambda>maybe_qualifier ps2.
               if peek_kind ps2 = LBrace then
                 and_then (named_block contents name (Some maybe_qualifier) ps2) (\<lambda>b ps. Inr (DBlock b, ps))
               else directive)
           else directive))"

definition directive_or_block ::
  "(Parser \<Rightarrow> DirectiveOrBlock list parsed) \<Rightarrow> Parser \<Rightarrow> DirectiveOrBlock parsed" where
  "directive_or_block contents ps0 =
     (let ps = skip_terminators ps0
      in case peek_kind ps of
           Comment text \<Rightarrow> Inr (DComment \<lparr>c_text = text, c_span = tspan (tok_peek ps)\<rparr>, advance ps)
         | _ \<Rightarrow> block_or_directive contents ps)"

definition blocks_body ::
  "(Parser \<Rightarrow> DirectiveOrBlock list parsed) \<Rightarrow> DirectiveOrBlock list \<Rightarrow> Parser \<Rightarrow>
   DirectiveOrBlock list flow parsed" where
  "blocks_body contents items ps0 =
     (let ps = skip_newlines ps0
      in if at_rbrace ps then Inr (Break items, ps)
         else and_then (directive_or_block contents ps) (\<lambda>item ps. Inr (Continue (items @ [item]), ps)))"

text \<open>The levels that remain are \<^term>\<open>MAX_BLOCK_DEPTH - depth ps\<close> for a state \<^term>\<open>ps\<close> of the parser.\<close>

fun blocks_within :: "nat \<Rightarrow> Parser \<Rightarrow> DirectiveOrBlock list parsed" where
  "blocks_within 0 ps =
     Inl (General (''blocks nest deeper than '' @ show_nat MAX_BLOCK_DEPTH @ '' levels'') (tspan (tok_peek ps)))"
| "blocks_within (Suc n) ps =
     and_then (p_loop (blocks_body (blocks_within n)) [] (ps\<lparr>depth := depth ps + 1\<rparr>)) (\<lambda>items ps.
       Inr (items, ps\<lparr>depth := depth ps - 1\<rparr>))"

definition parse_directives_or_blocks_until_rbrace :: "Parser \<Rightarrow> DirectiveOrBlock list parsed" where
  "parse_directives_or_blocks_until_rbrace ps = blocks_within (MAX_BLOCK_DEPTH - depth ps) ps"

definition parse_directive_or_block :: "Parser \<Rightarrow> DirectiveOrBlock parsed" where
  "parse_directive_or_block = directive_or_block parse_directives_or_blocks_until_rbrace"

definition parse_named_block :: "Parser \<Rightarrow> NamedBlock parsed" where
  "parse_named_block ps =
     and_then (read_string_value ps) (\<lambda>name ps.
       named_block parse_directives_or_blocks_until_rbrace name None ps)"

subsection \<open>Schedules\<close>

definition is_day_name :: "string \<Rightarrow> bool" where
  "is_day_name s \<longleftrightarrow> parse_token s \<noteq> None"

definition ends_with :: "string \<Rightarrow> string \<Rightarrow> bool" where
  "ends_with s suf \<longleftrightarrow> strip_suffix s suf \<noteq> None"

definition is_ordinal :: "string \<Rightarrow> bool" where
  "is_ordinal s \<longleftrightarrow>
     s = ''last'' \<or> ends_with s ''st'' \<or> ends_with s ''nd'' \<or> ends_with s ''rd'' \<or> ends_with s ''th''"

definition or_else :: "'a option \<Rightarrow> 'a option \<Rightarrow> 'a option" where
  "or_else a b = (case a of Some x \<Rightarrow> Some x | None \<Rightarrow> b)"

definition parse_ordinal :: "Parser \<Rightarrow> MonthOrdinal parsed" where
  "parse_ordinal ps =
     (let tok = tok_peek ps; text = tok_text tok; invalid = InvalidOrdinal text (tspan tok)
      in if text = ''last'' then Inr (MO_Last, advance ps)
         else case or_else (strip_suffix text ''st'') (or_else (strip_suffix text ''nd'')
                     (or_else (strip_suffix text ''rd'') (strip_suffix text ''th''))) of
                None \<Rightarrow> Inl invalid
              | Some num_str \<Rightarrow>
                  (case parse_unsigned 255 num_str of
                     None \<Rightarrow> Inl invalid
                   | Some num \<Rightarrow>
                       if num = 0 \<or> num > 31 then Inl invalid else Inr (MO_Day num, advance ps)))"

definition parse_time_value :: "Parser \<Rightarrow> TimeValue parsed" where
  "parse_time_value ps =
     (let tok = tok_peek ps; raw = tok_text tok; invalid = InvalidTime raw (tspan tok)
      in case split_on (CHR '':'') raw of
           [h, m] \<Rightarrow>
             (case parse_unsigned 255 h of
                None \<Rightarrow> Inl invalid
              | Some hour \<Rightarrow>
                  (case parse_unsigned 255 m of
                     None \<Rightarrow> Inl invalid
                   | Some minute \<Rightarrow>
                       if hour > 23 \<or> minute > 59 then Inl invalid
                       else Inr (\<lparr>tv_hour = hour, tv_minute = minute, tv_raw = raw, tv_span = tspan tok\<rparr>, advance ps)))
         | _ \<Rightarrow> Inl invalid)"

definition parse_optional_schedule_block :: "Span \<Rightarrow> Parser \<Rightarrow> (Directive list \<times> Span) parsed" where
  "parse_optional_schedule_block lst ps =
     (if peek_kind ps = LBrace then
        and_then (expect_lbrace ps) (\<lambda>_ ps.
        and_then (parse_directives_until_rbrace ps) (\<lambda>options ps.
        and_then (expect_rbrace ps) (\<lambda>fin ps. Inr ((options, fin), ps))))
      else Inr (([], lst), ps))"

definition schedule_node :: "Span \<Rightarrow> Span \<Rightarrow> ScheduleKind \<Rightarrow> Parser \<Rightarrow> ScheduleNode parsed" where
  "schedule_node start lst k ps =
     and_then (parse_optional_schedule_block lst ps) (\<lambda>(options, fin) ps.
       Inr (\<lparr>sn_kind = k, sn_mode = None, sn_options = options, sn_span = span_merge start fin\<rparr>, ps))"

definition parse_schedule_once :: "Parser \<Rightarrow> ScheduleNode parsed" where
  "parse_schedule_once ps =
     and_then (expect_ident ''once'' ps) (\<lambda>start ps.
     and_then (expect_ident ''at'' ps) (\<lambda>_ ps.
     and_then (read_string_value ps) (\<lambda>datetime ps.
       Inr (\<lparr>sn_kind = K_Once datetime, sn_mode = None, sn_options = [],
             sn_span = span_merge start (sv_span datetime)\<rparr>, ps))))"

definition parse_compact_interval :: "string \<Rightarrow> (nat \<times> IntervalUnit) option" where
  "parse_compact_interval text =
     (case (case strip_suffix text ''s'' of
              Some r \<Rightarrow> Some (r, Seconds)
            | None \<Rightarrow>
                (case strip_suffix text ''m'' of
                   Some r \<Rightarrow> Some (r, Minutes)
                 | None \<Rightarrow> map_option (\<lambda>r. (r, Hours)) (strip_suffix text ''h''))) of
        None \<Rightarrow> None
      | Some (num_part, unit) \<Rightarrow>
          if num_part = [] then None
          else map_option (\<lambda>count. (count, unit)) (parse_unsigned U32_MAX num_part))"

definition interval_unit :: "string \<Rightarrow> IntervalUnit option" where
  "interval_unit s =
     (if s = ''seconds'' \<or> s = ''second'' then Some Seconds
      else if s = ''minutes'' \<or> s = ''minute'' then Some Minutes
      else if s = ''hours'' \<or> s = ''hour'' then Some Hours
      else None)"

definition parse_schedule_interval :: "Span \<Rightarrow> Parser \<Rightarrow> ScheduleNode parsed" where
  "parse_schedule_interval start ps =
     (let count_tok = tok_peek ps; text = tok_text count_tok
      in case parse_compact_interval text of
           Some (c, u) \<Rightarrow> schedule_node start (tspan count_tok) (K_Interval c u) (advance ps)
         | None \<Rightarrow>
             (case parse_unsigned U32_MAX text of
                None \<Rightarrow>
                  Inl (General (''expected number or compact duration (e.g. '' @ quoted ''15'' @ '', '' @ quoted ''15m''
                         @ '', '' @ quoted ''30s'' @ '', '' @ quoted ''2h'' @ ''), got '' @ quoted text) (tspan count_tok))
              | Some count \<Rightarrow>
                  let ps1 = advance ps; unit_tok = tok_peek ps1
                  in case interval_unit (tok_text unit_tok) of
                       None \<Rightarrow>
                         Inl (General (''expected '' @ quoted ''seconds'' @ '', '' @ quoted ''minutes'' @ '', or ''
                                @ quoted ''hours'' @ '', got '' @ quoted (tok_text unit_tok)) (tspan unit_tok))
                     | Some unit \<Rightarrow> schedule_node start (tspan unit_tok) (K_Interval count unit) (advance ps1)))"

definition parse_schedule_daily :: "Span \<Rightarrow> Parser \<Rightarrow> ScheduleNode parsed" where
  "parse_schedule_daily start ps =
     and_then (expect_ident ''day'' ps) (\<lambda>_ ps.
     and_then (expect_ident ''at'' ps) (\<lambda>_ ps.
     and_then (parse_time_value ps) (\<lambda>time ps.
       schedule_node start (tv_span time) (K_Daily time) ps)))"

function week_walk :: "nat \<Rightarrow> nat \<Rightarrow> Weekday list \<Rightarrow> Weekday list" where
  "week_walk end_idx i out =
     (let out = out @ [WEEK_ALL ! i]
      in if i = end_idx then out
         else if length out \<ge> 7 then out
         else week_walk end_idx ((i + 1) mod 7) out)"
  by pat_completeness auto
termination
  by (relation "measure (\<lambda>(_, _, out). 7 - length out)") auto

declare week_walk.simps [simp del]

definition weekday_range :: "Weekday \<Rightarrow> Weekday \<Rightarrow> Weekday list" where
  "weekday_range start fin = week_walk (weekday_idx fin) (weekday_idx start) []"

text \<open>
  The names a schedule lists. A name that is no group parses as a weekday, since the loop's condition says
  that it is one of the two; the source's panic for the other case is not reached.
\<close>

definition weekdays_body :: "Weekday list \<Rightarrow> Parser \<Rightarrow> Weekday list flow parsed" where
  "weekdays_body days ps =
     (let tok = tok_peek ps
      in if \<not> is_day_name (tok_text tok) then Inr (Break days, ps)
         else case parse_group (tok_text tok) of
                Some grp \<Rightarrow> Inr (Continue (days @ grp), advance ps)
              | None \<Rightarrow>
                  (case weekday_parse (tok_text tok) of
                     None \<Rightarrow> Inl (General ''is_day_name guarded'' (tspan tok))
                   | Some start_day \<Rightarrow>
                       let ps1 = advance ps
                       in if peek_kind ps1 = DotDot then
                            let ps2 = advance ps1; end_tok = tok_peek ps2
                            in case weekday_parse (tok_text end_tok) of
                                 None \<Rightarrow>
                                   Inl (General (''expected weekday name after '' @ quoted ''..'' @ '', got ''
                                          @ quoted (tok_text end_tok))
                                     (span_merge (tspan (tok_peek ps1)) (tspan end_tok)))
                               | Some end_day \<Rightarrow>
                                   Inr (Continue (days @ weekday_range start_day end_day), advance ps2)
                          else Inr (Continue (days @ [start_day]), ps1)))"

definition parse_schedule_weekdays :: "Span \<Rightarrow> Parser \<Rightarrow> ScheduleNode parsed" where
  "parse_schedule_weekdays start ps =
     and_then (p_loop weekdays_body [] ps) (\<lambda>days ps.
     and_then (expect_ident ''at'' ps) (\<lambda>_ ps.
     and_then (parse_time_value ps) (\<lambda>time ps.
       schedule_node start (tv_span time) (K_Weekdays days time) ps)))"

definition ordinals_body :: "MonthOrdinal list \<Rightarrow> Parser \<Rightarrow> MonthOrdinal list flow parsed" where
  "ordinals_body ords ps =
     (if \<not> is_ordinal (tok_text (tok_peek ps)) then Inr (Break ords, ps)
      else and_then (parse_ordinal ps) (\<lambda>ord ps. Inr (Continue (ords @ [ord]), ps)))"

definition parse_schedule_monthly :: "Span \<Rightarrow> Parser \<Rightarrow> ScheduleNode parsed" where
  "parse_schedule_monthly start ps =
     and_then (p_loop ordinals_body [] ps) (\<lambda>ordinals ps.
     and_then (expect_ident ''of'' ps) (\<lambda>_ ps.
     and_then (expect_ident ''month'' ps) (\<lambda>_ ps.
     and_then (expect_ident ''at'' ps) (\<lambda>_ ps.
     and_then (parse_time_value ps) (\<lambda>time ps.
       schedule_node start (tv_span time) (K_Monthly ordinals time) ps)))))"

definition parse_schedule_every :: "Parser \<Rightarrow> ScheduleNode parsed" where
  "parse_schedule_every ps =
     and_then (expect_ident ''every'' ps) (\<lambda>start ps.
       let next = tok_peek ps
       in if is_day_name (tok_text next) then parse_schedule_weekdays start ps
          else if is_ident ''day'' next then parse_schedule_daily start ps
          else if is_ordinal (tok_text next) then parse_schedule_monthly start ps
          else parse_schedule_interval start ps)"

definition is_schedule_start :: "Parser \<Rightarrow> bool" where
  "is_schedule_start ps =
     (let tok = tok_peek ps
      in is_ident ''every'' tok \<or> is_ident ''once'' tok \<or> is_ident ''disabled'' tok \<or>
         is_ident ''ephemeral'' tok \<or> is_ident ''queued'' tok)"

definition schedule_mode :: "string \<Rightarrow> ScheduleMode option" where
  "schedule_mode s =
     (if s = ''ephemeral'' then Some Ephemeral else if s = ''queued'' then Some Queued else None)"

definition parse_schedule :: "Parser \<Rightarrow> ScheduleNode parsed" where
  "parse_schedule ps0 =
     (let mode = schedule_mode (tok_text (tok_peek ps0));
          ps = (if mode = None then ps0 else advance ps0);
          tok = tok_peek ps
      in and_then
           (if tok_text tok = ''disabled'' then
              Inr (\<lparr>sn_kind = K_Disabled, sn_mode = None, sn_options = [], sn_span = tspan tok\<rparr>, advance ps)
            else if tok_text tok = ''once'' then parse_schedule_once ps
            else if tok_text tok = ''every'' then parse_schedule_every ps
            else Inl (General (''expected '' @ quoted ''every'' @ '', '' @ quoted ''once'' @ '', or '' @ quoted ''disabled'')
                        (tspan tok)))
           (\<lambda>node ps. Inr (node\<lparr>sn_mode := mode\<rparr>, ps)))"

subsection \<open>Jobs\<close>

definition parse_job_key :: "Parser \<Rightarrow> JobKey parsed" where
  "parse_job_key ps =
     (let tok = tok_peek ps
      in case (case kind tok of Ident s \<Rightarrow> Some s | QuotedString s \<Rightarrow> Some s | _ \<Rightarrow> None) of
           None \<Rightarrow> Inl (unexpected ''job key'' tok)
         | Some raw \<Rightarrow>
             let parts = split_on (CHR '':'') raw
             in if length parts < 2 \<or> length parts > 3 then Inl (InvalidJobKey raw (tspan tok))
                else Inr (\<lparr>jk_raw = raw, jk_namespace = parts ! 0, jk_name = parts ! 1,
                           jk_variant = (if 2 < length parts then Some (parts ! 2) else None),
                           jk_span = tspan tok\<rparr>, advance ps))"

type_synonym job_body = "ScheduleNode option \<times> DirectiveOrBlock list"

definition job_step :: "job_body \<Rightarrow> Parser \<Rightarrow> job_body flow parsed" where
  "job_step b ps0 =
     (let (sched, ds) = b; ps = skip_newlines ps0
      in if at_rbrace ps then Inr (Break b, ps)
         else case peek_kind ps of
                Comment text \<Rightarrow>
                  Inr (Continue (sched, ds @ [DComment \<lparr>c_text = text, c_span = tspan (tok_peek ps)\<rparr>]), advance ps)
              | Semicolon \<Rightarrow> Inr (Continue b, advance ps)
              | _ \<Rightarrow>
                  if sched = None \<and> is_schedule_start ps then
                    and_then (parse_schedule ps) (\<lambda>s ps. Inr (Continue (Some s, ds), ps))
                  else
                    and_then (parse_directive_or_block ps) (\<lambda>d ps. Inr (Continue (sched, ds @ [d]), ps)))"

definition parse_job :: "Parser \<Rightarrow> JobBlock parsed" where
  "parse_job ps =
     and_then (expect_ident ''job'' ps) (\<lambda>start ps.
     and_then (parse_job_key ps) (\<lambda>key ps.
     and_then (expect_lbrace ps) (\<lambda>_ ps.
     and_then (p_loop job_step (None, []) ps) (\<lambda>(sched, ds) ps.
     and_then (expect_rbrace ps) (\<lambda>fin ps.
       Inr (\<lparr>jb_key = key, jb_schedule = sched, jb_directives = ds, jb_span = span_merge start fin\<rparr>, ps))))))"

subsection \<open>Calendars\<close>

definition plain_value :: "string \<Rightarrow> Span \<Rightarrow> StringValue" where
  "plain_value s sp = \<lparr>sv_value = s, sv_quoted = False, sv_placeholder = False, sv_span = sp\<rparr>"

text \<open>The arguments a range \<^verbatim>\<open>first..second\<close>, and a single value, stand for in a rule of a given type.\<close>

definition range_args :: "string \<Rightarrow> StringValue \<Rightarrow> StringValue \<Rightarrow> StringValue list" where
  "range_args rule_type_lower a b =
     (let sp = span_merge (sv_span a) (sv_span b)
      in if rule_type_lower = ''weekly'' then
           (case (weekday_parse (sv_value a), weekday_parse (sv_value b)) of
              (Some s, Some e) \<Rightarrow> map (\<lambda>day. plain_value (weekday_as_str day) sp) (weekday_range s e)
            | _ \<Rightarrow> [a, b])
         else if rule_type_lower = ''monthly'' then
           (case (parse_unsigned U32_MAX (sv_value a), parse_unsigned U32_MAX (sv_value b)) of
              (Some m, Some n) \<Rightarrow>
                if m \<le> 31 \<and> n \<le> 31 \<and> m \<le> n then map (\<lambda>d. plain_value (show_nat d) sp) [m ..< Suc n]
                else [a, b]
            | _ \<Rightarrow> [a, b])
         else [a, b])"

definition single_args :: "string \<Rightarrow> StringValue \<Rightarrow> StringValue list" where
  "single_args rule_type_lower a =
     (case parse_group (sv_value a) of
        Some days \<Rightarrow>
          if rule_type_lower = ''weekly'' \<and> \<not> sv_placeholder a
          then map (\<lambda>day. plain_value (weekday_as_str day) (sv_span a)) days else [a]
      | None \<Rightarrow> [a])"

definition calendar_arg :: "string \<Rightarrow> StringValue list \<Rightarrow> Parser \<Rightarrow> StringValue list parsed" where
  "calendar_arg ty args ps =
     and_then (read_string_value ps) (\<lambda>a ps.
       if peek_kind ps = DotDot then
         and_then (read_string_value (advance ps)) (\<lambda>b ps. Inr (args @ range_args ty a b, ps))
       else Inr (args @ single_args ty a, ps))"

definition calendar_args_body :: "string \<Rightarrow> StringValue list \<Rightarrow> Parser \<Rightarrow> StringValue list flow parsed" where
  "calendar_args_body ty args ps =
     (let tok = tok_peek ps
      in if \<not> (is_value_token ps \<and> \<not> is_ident ''include'' tok \<and> \<not> is_ident ''exclude'' tok \<and>
               \<not> is_ident ''timezone'' tok) then Inr (Break args, ps)
         else
           and_then (calendar_arg ty args ps) (\<lambda>args ps.
             if peek_kind ps = Semicolon \<or> peek_kind ps = Newline then Inr (Break args, advance ps)
             else Inr (Continue args, ps)))"

definition calendar_rule_kind :: "string \<Rightarrow> CalendarRuleKind option" where
  "calendar_rule_kind s =
     (if s = ''include'' then Some Include else if s = ''exclude'' then Some Exclude else None)"

definition parse_calendar_rule :: "Parser \<Rightarrow> AstCalendarRule parsed" where
  "parse_calendar_rule ps =
     (let tok = tok_peek ps; text = tok_text tok
      in case calendar_rule_kind text of
           None \<Rightarrow>
             if text = ''timezone'' then
               and_then (read_string_value ps) (\<lambda>key ps.
               and_then (read_string_value ps) (\<lambda>tz ps.
                 Inr (\<lparr>cr_kind = Include, cr_type = key, cr_args = [tz],
                       cr_span = span_merge (tspan tok) (tspan (tok_peek ps))\<rparr>, ps)))
             else Inl (General (''expected '' @ quoted ''include'' @ '', '' @ quoted ''exclude'' @ '', or ''
                         @ quoted ''timezone'' @ '', got '' @ quoted text) (tspan tok))
         | Some k \<Rightarrow>
             and_then (read_string_value ps) (\<lambda>start ps.
             and_then (read_string_value ps) (\<lambda>rule_type ps.
             and_then (p_loop (calendar_args_body (to_ascii_lowercase (sv_value rule_type))) [] ps) (\<lambda>args ps.
               Inr (\<lparr>cr_kind = k, cr_type = rule_type, cr_args = args,
                     cr_span = span_merge (sv_span start) (last_span args (sv_span rule_type))\<rparr>, ps)))))"

definition calendar_body :: "AstCalendarRule list \<Rightarrow> Parser \<Rightarrow> AstCalendarRule list flow parsed" where
  "calendar_body rules ps0 =
     (let ps = skip_newlines ps0
      in if at_rbrace ps then Inr (Break rules, ps)
         else if is_comment ps then Inr (Continue rules, advance ps)
         else if peek_kind ps = Semicolon then Inr (Continue rules, advance ps)
         else and_then (parse_calendar_rule ps) (\<lambda>r ps. Inr (Continue (rules @ [r]), ps)))"

definition parse_calendar :: "Parser \<Rightarrow> CalendarBlock parsed" where
  "parse_calendar ps =
     and_then (expect_ident ''calendar'' ps) (\<lambda>start ps.
     and_then (read_string_value ps) (\<lambda>name ps.
     and_then (expect_lbrace ps) (\<lambda>_ ps.
     and_then (p_loop calendar_body [] ps) (\<lambda>rules ps.
     and_then (expect_rbrace ps) (\<lambda>fin ps.
       Inr (\<lparr>cb_name = name, cb_rules = rules, cb_span = span_merge start fin\<rparr>, ps))))))"

subsection \<open>Blocks at the top level\<close>

text \<open>
  The blocks of plain directives share one definition, as do the blocks of named sub-blocks; the source
  writes it out once per keyword.
\<close>

definition directives_block :: "string \<Rightarrow> Parser \<Rightarrow> DirectivesBlock parsed" where
  "directives_block keyword ps =
     and_then (expect_ident keyword ps) (\<lambda>start ps.
     and_then (expect_lbrace ps) (\<lambda>_ ps.
     and_then (parse_directives_until_rbrace ps) (\<lambda>directives ps.
     and_then (expect_rbrace ps) (\<lambda>fin ps.
       Inr (\<lparr>db_directives = directives, db_span = span_merge start fin\<rparr>, ps)))))"

definition parse_server :: "Parser \<Rightarrow> ServerBlock parsed" where
  "parse_server = directives_block ''server''"

definition parse_smtp :: "Parser \<Rightarrow> SmtpBlock parsed" where
  "parse_smtp = directives_block ''smtp''"

definition parse_pull_api :: "Parser \<Rightarrow> PullApiBlock parsed" where
  "parse_pull_api = directives_block ''pull_api''"

definition parse_mcp :: "Parser \<Rightarrow> McpBlock parsed" where
  "parse_mcp = directives_block ''mcp''"

definition parse_policy :: "Parser \<Rightarrow> PolicyBlock parsed" where
  "parse_policy = directives_block ''policy''"

definition parse_oidc :: "Parser \<Rightarrow> OidcBlock parsed" where
  "parse_oidc = directives_block ''oidc''"

definition parse_vars :: "Parser \<Rightarrow> VarsBlock parsed" where
  "parse_vars = directives_block ''vars''"

definition sub_blocks_body ::
  "(Parser \<Rightarrow> NamedBlock parsed) \<Rightarrow> NamedBlock list \<Rightarrow> Parser \<Rightarrow> NamedBlock list flow parsed" where
  "sub_blocks_body sub bs ps0 =
     (let ps = skip_newlines ps0
      in if at_rbrace ps then Inr (Break bs, ps)
         else if is_comment ps then Inr (Continue bs, advance ps)
         else and_then (sub ps) (\<lambda>b ps. Inr (Continue (bs @ [b]), ps)))"

definition sub_blocks_block :: "(Parser \<Rightarrow> NamedBlock parsed) \<Rightarrow> string \<Rightarrow> Parser \<Rightarrow> SubBlocksBlock parsed" where
  "sub_blocks_block sub keyword ps =
     and_then (expect_ident keyword ps) (\<lambda>start ps.
     and_then (expect_lbrace ps) (\<lambda>_ ps.
     and_then (p_loop (sub_blocks_body sub) [] ps) (\<lambda>bs ps.
     and_then (expect_rbrace ps) (\<lambda>fin ps.
       Inr (\<lparr>sb_blocks = bs, sb_span = span_merge start fin\<rparr>, ps)))))"

definition parse_auth :: "Parser \<Rightarrow> AuthBlock parsed" where
  "parse_auth = sub_blocks_block parse_named_block ''auth''"

definition parse_observability :: "Parser \<Rightarrow> ObservabilityBlock parsed" where
  "parse_observability = sub_blocks_block parse_named_block ''observability''"

text \<open>A channel or rule of the alerts block must have a name; the three bytes below are an ellipsis.\<close>

definition alerts_sub_block :: "Parser \<Rightarrow> NamedBlock parsed" where
  "alerts_sub_block ps =
     and_then (read_string_value ps) (\<lambda>name ps.
       if peek_kind ps = LBrace then
         Inl (General (''expected a string identifier after `'' @ sv_value name @ ''` (e.g. `'' @ sv_value name
                @ '' '' @ [CHR 0x22] @ ''name'' @ [CHR 0x22] @ '' { '' @ [CHR 0xE2, CHR 0x80, CHR 0xA6] @ '' }`)'')
              (sv_span name))
       else
         and_then (read_string_value ps) (\<lambda>qualifier ps.
           named_block parse_directives_or_blocks_until_rbrace name (Some qualifier) ps))"

definition parse_alerts :: "Parser \<Rightarrow> AlertsBlock parsed" where
  "parse_alerts = sub_blocks_block alerts_sub_block ''alerts''"

definition parse_defaults :: "Parser \<Rightarrow> DefaultsBlock parsed" where
  "parse_defaults ps =
     and_then (expect_ident ''defaults'' ps) (\<lambda>start ps.
     and_then (expect_lbrace ps) (\<lambda>_ ps.
     and_then (parse_directives_or_blocks_until_rbrace ps) (\<lambda>directives ps.
     and_then (expect_rbrace ps) (\<lambda>fin ps.
       Inr (\<lparr>df_directives = directives, df_span = span_merge start fin\<rparr>, ps)))))"

definition parse_concurrency_group :: "Parser \<Rightarrow> ConcurrencyGroupBlock parsed" where
  "parse_concurrency_group ps =
     and_then (expect_ident ''concurrency_group'' ps) (\<lambda>start ps.
     and_then (read_string_value ps) (\<lambda>name ps.
     and_then (expect_lbrace ps) (\<lambda>_ ps.
     and_then (parse_directives_until_rbrace ps) (\<lambda>directives ps.
     and_then (expect_rbrace ps) (\<lambda>fin ps.
       Inr (\<lparr>cg_name = name, cg_directives = directives, cg_span = span_merge start fin\<rparr>, ps))))))"

definition parse_import :: "Parser \<Rightarrow> Import parsed" where
  "parse_import ps =
     and_then (expect_ident ''import'' ps) (\<lambda>start ps.
     and_then (read_string_value ps) (\<lambda>path ps.
       Inr (\<lparr>im_path = path, im_span = span_merge start (sv_span path)\<rparr>, ps)))"

subsection \<open>The file\<close>

definition item_of :: "('a \<Rightarrow> Item) \<Rightarrow> 'a parsed \<Rightarrow> Item parsed" where
  "item_of c r = and_then r (\<lambda>x ps. Inr (c x, ps))"

definition parse_item :: "Parser \<Rightarrow> Item parsed" where
  "parse_item ps0 =
     (let ps = skip_terminators ps0; tok = tok_peek ps
      in case kind tok of
           Comment text \<Rightarrow> Inr (I_Comment \<lparr>c_text = text, c_span = tspan tok\<rparr>, advance ps)
         | Ident s \<Rightarrow>
             if s = ''import'' then item_of I_Import (parse_import ps)
             else if s = ''server'' then item_of I_Server (parse_server ps)
             else if s = ''smtp'' then item_of I_Smtp (parse_smtp ps)
             else if s = ''pull_api'' then item_of I_PullApi (parse_pull_api ps)
             else if s = ''observability'' then item_of I_Observability (parse_observability ps)
             else if s = ''mcp'' then item_of I_Mcp (parse_mcp ps)
             else if s = ''oidc'' then item_of I_Oidc (parse_oidc ps)
             else if s = ''auth'' then item_of I_Auth (parse_auth ps)
             else if s = ''policy'' then item_of I_Policy (parse_policy ps)
             else if s = ''alerts'' then item_of I_Alerts (parse_alerts ps)
             else if s = ''vars'' then item_of I_Vars (parse_vars ps)
             else if s = ''defaults'' then item_of I_Defaults (parse_defaults ps)
             else if s = ''calendar'' then item_of I_Calendar (parse_calendar ps)
             else if s = ''concurrency_group'' then item_of I_ConcurrencyGroup (parse_concurrency_group ps)
             else if s = ''job'' then item_of I_Job (parse_job ps)
             else Inl (General (''unknown top-level block: '' @ quoted s) (tspan tok))
         | _ \<Rightarrow>
             Inl (unexpected
               (''import, server, smtp, pull_api, observability, mcp, oidc, auth, policy, alerts, vars, '' @
                ''defaults, calendar, concurrency_group, or job'') tok))"

definition items_body :: "Item list \<Rightarrow> Parser \<Rightarrow> Item list flow parsed" where
  "items_body items ps0 =
     (let ps = skip_terminators ps0
      in if at_end ps then Inr (Break items, ps)
         else and_then (parse_item ps) (\<lambda>item ps. Inr (Continue (items @ [item]), ps)))"

definition parse_croniqfile :: "Parser \<Rightarrow> Croniqfile parsed" where
  "parse_croniqfile ps =
     (let start = tspan (tok_peek ps)
      in and_then (p_loop items_body [] ps) (\<lambda>items ps.
           Inr (\<lparr>cf_items = items, cf_span = span_merge start (tspan (tok_peek ps))\<rparr>, ps)))"

definition parse :: "string \<Rightarrow> ParseError + Croniqfile" where
  "parse source =
     (case tokenize source of
        Inl e \<Rightarrow> Inl (Lex e)
      | Inr tokens \<Rightarrow>
          (case parse_croniqfile \<lparr>ptoks = tokens, depth = 0\<rparr> of
             Inl e \<Rightarrow> Inl e
           | Inr (file, _) \<Rightarrow> Inr file))"

definition rule_token_error :: "Token \<Rightarrow> ParseError option" where
  "rule_token_error tok =
     (case kind tok of
        Placeholder p \<Rightarrow>
          Some (General (''placeholder '' @ quoted (''{'' @ p @ ''}'')
                  @ '' is not allowed in calendar rules stored outside a Croniqfile'') (tspan tok))
      | LBrace \<Rightarrow> Some (General ''braces are not allowed in calendar rules'' (tspan tok))
      | RBrace \<Rightarrow> Some (General ''braces are not allowed in calendar rules'' (tspan tok))
      | _ \<Rightarrow> None)"

fun first_error :: "Token list \<Rightarrow> ParseError option" where
  "first_error [] = None"
| "first_error (t # ts) = (case rule_token_error t of Some e \<Rightarrow> Some e | None \<Rightarrow> first_error ts)"

definition stored_rules_body :: "AstCalendarRule list \<Rightarrow> Parser \<Rightarrow> AstCalendarRule list flow parsed" where
  "stored_rules_body rules ps0 =
     (let ps = skip_newlines ps0
      in if at_end ps then Inr (Break rules, ps)
         else if is_comment ps \<or> peek_kind ps = Semicolon then Inr (Continue rules, advance ps)
         else and_then (parse_calendar_rule ps) (\<lambda>r ps. Inr (Continue (rules @ [r]), ps)))"

definition parse_calendar_rules :: "string \<Rightarrow> string \<Rightarrow> ParseError + Croniqfile" where
  "parse_calendar_rules name rules =
     (case tokenize rules of
        Inl e \<Rightarrow> Inl (Lex e)
      | Inr tokens \<Rightarrow>
          (case first_error tokens of
             Some e \<Rightarrow> Inl e
           | None \<Rightarrow>
               let ps = \<lparr>ptoks = tokens, depth = 0\<rparr>; start = tspan (tok_peek ps)
               in case p_loop stored_rules_body [] ps of
                    Inl e \<Rightarrow> Inl e
                  | Inr (parsed, ps) \<Rightarrow>
                      let span = span_merge start (tspan (tok_peek ps))
                      in Inr \<lparr>cf_items = [I_Calendar \<lparr>cb_name = \<lparr>sv_value = name, sv_quoted = True,
                                  sv_placeholder = False, sv_span = span_empty 0\<rparr>,
                                cb_rules = parsed, cb_span = span\<rparr>], cf_span = span\<rparr>))"

fun first_schedule :: "Item list \<Rightarrow> ScheduleKind option" where
  "first_schedule [] = None"
| "first_schedule (I_Job j # items) =
     (case jb_schedule j of Some s \<Rightarrow> Some (sn_kind s) | None \<Rightarrow> first_schedule items)"
| "first_schedule (_ # items) = first_schedule items"

definition parse_schedule_expr :: "string \<Rightarrow> ParseError + ScheduleKind" where
  "parse_schedule_expr expr =
     (case parse (''job __sched__:__probe__ {'' @ [NL] @ expr @ [NL] @ ''}'' @ [NL]) of
        Inl e \<Rightarrow> Inl e
      | Inr ast \<Rightarrow>
          (case first_schedule (cf_items ast) of
             Some k \<Rightarrow> Inr k
           | None \<Rightarrow> Inl (General ''expression did not contain a schedule'' (span_empty 0))))"

subsection \<open>What the parser reads\<close>

text \<open>
  A state is well formed when its tokens end with the end-of-input token. From a well-formed state, \<open>runs\<close>
  says of a result that it is no endless loop and that its state is well formed, at the same depth and has
  no more tokens; \<open>eats\<close> that it has fewer.
\<close>

definition ps_ok :: "Parser \<Rightarrow> bool" where
  "ps_ok ps \<longleftrightarrow> ptoks ps \<noteq> [] \<and> kind (last (ptoks ps)) = Eof"

definition after_eq :: "Parser \<Rightarrow> Parser \<Rightarrow> bool" where
  "after_eq ps ps' \<longleftrightarrow> ps_ok ps' \<and> depth ps' = depth ps \<and> length (ptoks ps') \<le> length (ptoks ps)"

definition after :: "Parser \<Rightarrow> Parser \<Rightarrow> bool" where
  "after ps ps' \<longleftrightarrow> after_eq ps ps' \<and> length (ptoks ps') < length (ptoks ps)"

definition runs :: "Parser \<Rightarrow> 'a parsed \<Rightarrow> bool" where
  "runs ps r = (case r of Inl e \<Rightarrow> e \<noteq> NoProgress | Inr (_, ps') \<Rightarrow> after_eq ps ps')"

definition eats :: "Parser \<Rightarrow> 'a parsed \<Rightarrow> bool" where
  "eats ps r = (case r of Inl e \<Rightarrow> e \<noteq> NoProgress | Inr (_, ps') \<Rightarrow> after ps ps')"

lemma after_eq_ok: "after_eq ps ps' \<Longrightarrow> ps_ok ps'"
  by (simp add: after_eq_def)

lemma after_after_eq: "after ps ps' \<Longrightarrow> after_eq ps ps'"
  by (simp add: after_def)

lemma after_eq_refl: "ps_ok ps \<Longrightarrow> after_eq ps ps"
  by (simp add: after_eq_def)

lemma after_eq_trans: "after_eq a b \<Longrightarrow> after_eq b c \<Longrightarrow> after_eq a c"
  by (simp add: after_eq_def)

lemma after_trans1: "after a b \<Longrightarrow> after_eq b c \<Longrightarrow> after a c"
  by (simp add: after_def after_eq_def)

lemma after_trans2: "after_eq a b \<Longrightarrow> after b c \<Longrightarrow> after a c"
  by (simp add: after_def after_eq_def)

lemma runs_simps [simp]:
  "runs ps (Inl e) \<longleftrightarrow> e \<noteq> NoProgress" "runs ps (Inr (x, ps')) \<longleftrightarrow> after_eq ps ps'"
  "eats ps (Inl e) \<longleftrightarrow> e \<noteq> NoProgress" "eats ps (Inr (x, ps')) \<longleftrightarrow> after ps ps'"
  by (simp_all add: runs_def eats_def)

lemma eats_runs: "eats ps r \<Longrightarrow> runs ps r"
  by (auto simp: runs_def eats_def after_after_eq split: sum.splits)

lemma runs_later: "after_eq ps ps' \<Longrightarrow> runs ps' r \<Longrightarrow> runs ps r"
  by (auto simp: runs_def after_eq_def split: sum.splits)

lemma eats_later: "after_eq ps ps' \<Longrightarrow> eats ps' r \<Longrightarrow> eats ps r"
  by (auto simp: eats_def after_eq_def after_def split: sum.splits)

lemma eats_after: "after ps ps' \<Longrightarrow> runs ps' r \<Longrightarrow> eats ps r"
  by (auto simp: eats_def runs_def after_eq_def after_def split: sum.splits)

lemma runs_and_then:
  assumes "runs ps r" and "\<And>x ps'. ps_ok ps' \<Longrightarrow> runs ps' (f x ps')"
  shows "runs ps (and_then r f)"
proof (cases r)
  case (Inr p)
  obtain x ps' where p: "p = (x, ps')" by (cases p)
  with Inr assms have "after_eq ps ps'" "runs ps' (f x ps')"
    by (auto simp: after_eq_def)
  with Inr p show ?thesis by (simp add: and_then_def runs_later)
qed (use assms in \<open>simp add: and_then_def\<close>)

lemma eats_and_then:
  assumes "eats ps r" and "\<And>x ps'. ps_ok ps' \<Longrightarrow> runs ps' (f x ps')"
  shows "eats ps (and_then r f)"
proof (cases r)
  case (Inr p)
  obtain x ps' where p: "p = (x, ps')" by (cases p)
  with Inr assms have "after ps ps'" "runs ps' (f x ps')"
    by (auto simp: after_def after_eq_def)
  with Inr p show ?thesis by (simp add: and_then_def eats_after)
qed (use assms in \<open>simp add: and_then_def\<close>)

lemma runs_eats_then:
  assumes "runs ps r" and "\<And>x ps'. ps_ok ps' \<Longrightarrow> eats ps' (f x ps')"
  shows "eats ps (and_then r f)"
proof (cases r)
  case (Inr p)
  obtain x ps' where p: "p = (x, ps')" by (cases p)
  with Inr assms have "after_eq ps ps'" "eats ps' (f x ps')"
    by (auto simp: after_eq_def)
  with Inr p show ?thesis by (simp add: and_then_def eats_later)
qed (use assms in \<open>simp add: and_then_def\<close>)

text \<open>A loop runs when every round that goes on eats a token.\<close>

definition goes_on :: "Parser \<Rightarrow> 's flow parsed \<Rightarrow> bool" where
  "goes_on ps r =
     (case r of
        Inl e \<Rightarrow> e \<noteq> NoProgress
      | Inr (Continue _, ps') \<Rightarrow> after ps ps'
      | Inr (Break _, ps') \<Rightarrow> after_eq ps ps')"

lemma goes_on_simps [simp]:
  "goes_on ps (Inl e) \<longleftrightarrow> e \<noteq> NoProgress" "goes_on ps (Inr (Break s, ps')) \<longleftrightarrow> after_eq ps ps'"
  "goes_on ps (Inr (Continue s, ps')) \<longleftrightarrow> after ps ps'"
  by (simp_all add: goes_on_def)

lemma eats_goes_on: "eats ps r \<Longrightarrow> goes_on ps r"
  by (auto simp: eats_def goes_on_def after_after_eq split: sum.splits flow.splits)

lemma goes_on_later: "after_eq ps ps' \<Longrightarrow> goes_on ps' r \<Longrightarrow> goes_on ps r"
  by (auto simp: goes_on_def split: sum.splits flow.splits intro: after_trans2 after_eq_trans)

lemma p_loop_runs:
  assumes "\<And>s ps. ps_ok ps \<Longrightarrow> goes_on ps (body s ps)" and "ps_ok ps"
  shows "runs ps (p_loop body s ps)"
  using assms
proof (induction body s ps rule: p_loop.induct)
  case (1 body s ps)
  note step = "1.prems"(1) [OF "1.prems"(2), of s]
  show ?case
  proof (cases "body s ps")
    case (Inr p)
    obtain fl ps' where p: "p = (fl, ps')" by (cases p)
    show ?thesis
    proof (cases fl)
      case (Continue s')
      with step Inr p have a: "after ps ps'" by simp
      then have "runs ps' (p_loop body s' ps')"
        using "1.IH" [OF Inr p [symmetric] Continue] "1.prems"(1) by (simp add: after_def after_eq_def)
      with a Continue Inr p show ?thesis
        by (subst p_loop.simps) (simp add: after_def runs_later [of ps ps'])
    qed (use step Inr p in \<open>subst p_loop.simps, simp\<close>)
  qed (use step in \<open>subst p_loop.simps, simp\<close>)
qed

lemma advance_after: "ps_ok ps \<Longrightarrow> peek_kind ps \<noteq> Eof \<Longrightarrow> after ps (advance ps)"
  by (cases "ptoks ps")
    (auto simp: ps_ok_def peek_kind_def tok_peek_def after_def after_eq_def advance_def)

lemma advance_after_eq: "ps_ok ps \<Longrightarrow> after_eq ps (advance ps)"
  by (cases "ptoks ps") (auto simp: ps_ok_def after_eq_def advance_def)

lemma dropWhile_last:
  "xs \<noteq> [] \<Longrightarrow> \<not> P (last xs) \<Longrightarrow> dropWhile P xs \<noteq> [] \<and> last (dropWhile P xs) = last xs"
  by (induction xs) (auto split: if_splits)

lemma skip_after_eq:
  assumes "ps_ok ps" and "\<And>t. kind t = Eof \<Longrightarrow> \<not> P t"
  shows "after_eq ps (ps\<lparr>ptoks := dropWhile P (ptoks ps)\<rparr>)"
  using assms dropWhile_last [of "ptoks ps" P] length_dropWhile_le [of P "ptoks ps"]
  by (simp add: ps_ok_def after_eq_def)

lemma skip_newlines_after: "ps_ok ps \<Longrightarrow> after_eq ps (skip_newlines ps)"
  unfolding skip_newlines_def by (rule skip_after_eq) auto

lemma skip_terminators_after: "ps_ok ps \<Longrightarrow> after_eq ps (skip_terminators ps)"
  unfolding skip_terminators_def by (rule skip_after_eq) auto

lemma text_not_eof: "tok_text (tok_peek ps) \<noteq> [] \<Longrightarrow> peek_kind ps \<noteq> Eof"
  by (auto simp: tok_text_def peek_kind_def)

lemma advance_ok [simp]: "ps_ok ps \<Longrightarrow> ps_ok (advance ps)"
  by (rule after_eq_ok [OF advance_after_eq])

lemma skip_ok [simp]: "ps_ok ps \<Longrightarrow> ps_ok (skip_newlines ps)" "ps_ok ps \<Longrightarrow> ps_ok (skip_terminators ps)"
  by (rule after_eq_ok [OF skip_newlines_after], assumption) (rule after_eq_ok [OF skip_terminators_after])

lemma is_ident_not_eof: "is_ident name t \<Longrightarrow> kind t \<noteq> Eof"
  by (auto simp: is_ident_def)

lemma expect_ident_eats [parse_steps]: "ps_ok ps \<Longrightarrow> eats ps (expect_ident name ps)"
  by (auto simp: expect_ident_def Let_def peek_kind_def unexpected_def intro!: advance_after
      dest: is_ident_not_eof)

lemma expect_kind_eats: "ps_ok ps \<Longrightarrow> k \<noteq> Eof \<Longrightarrow> eats ps (expect_kind k ps)"
  using advance_after [of "skip_newlines ps"]
  by (auto simp: expect_kind_def Let_def peek_kind_def unexpected_def
      intro: after_trans2 [OF skip_newlines_after])

lemma expect_brace_eats [parse_steps]:
  "ps_ok ps \<Longrightarrow> eats ps (expect_lbrace ps)" "ps_ok ps \<Longrightarrow> eats ps (expect_rbrace ps)"
  by (simp_all add: expect_lbrace_def expect_rbrace_def expect_kind_eats)

lemma string_value_not_eof: "string_value k sp = Some v \<Longrightarrow> k \<noteq> Eof"
  by (auto simp: string_value_def)

lemma read_string_value_eats [parse_steps]: "ps_ok ps \<Longrightarrow> eats ps (read_string_value ps)"
  by (auto simp: read_string_value_def Let_def peek_kind_def unexpected_def
      intro!: advance_after dest: string_value_not_eof split: option.splits)

lemma read_advance_runs [parse_steps]: "ps_ok ps \<Longrightarrow> runs ps (read_string_value (advance ps))"
  by (rule runs_later [OF advance_after_eq eats_runs [OF read_string_value_eats]]) simp_all

lemma directive_args_goes_on: "ps_ok ps \<Longrightarrow> goes_on ps (directive_args args ps)"
  unfolding directive_args_def
  by (auto intro!: eats_goes_on eats_and_then read_string_value_eats runs_and_then read_advance_runs
      after_eq_refl)

lemma parse_directive_eats [parse_steps]: "ps_ok ps \<Longrightarrow> eats ps (parse_directive ps)"
  unfolding parse_directive_def Let_def
  by (auto intro!: eats_and_then runs_and_then read_string_value_eats p_loop_runs directive_args_goes_on
      skip_terminators_after)

text \<open>The bodies of the loops over a block's contents share a shape: blanks, the end, comments, an entry.\<close>

lemma stop_goes_on:
  assumes "after_eq ps0 ps" and "\<not> stopped \<Longrightarrow> ps_ok ps \<Longrightarrow> goes_on ps r"
  shows "goes_on ps0 (if stopped then Inr (Break s, ps) else r)"
  using assms by (auto intro: goes_on_later after_eq_ok)

lemma body_goes_on:
  assumes "ps_ok ps0" and "ps = skip_newlines ps0"
    and "\<not> at_rbrace ps \<Longrightarrow> ps_ok ps \<Longrightarrow> goes_on ps r"
  shows "goes_on ps0 (if at_rbrace ps then Inr (Break s, ps) else r)"
  using assms by (intro stop_goes_on) (auto intro: skip_newlines_after)

lemma not_end_advance: "\<not> at_end ps \<Longrightarrow> ps_ok ps \<Longrightarrow> after ps (advance ps)"
  by (simp add: at_end_def advance_after)

lemma entry_goes_on:
  "ps_ok ps \<Longrightarrow> eats ps r \<Longrightarrow> goes_on ps (and_then r (\<lambda>x ps. Inr (Continue (f x), ps)))"
  by (auto intro!: eats_goes_on eats_and_then after_eq_refl)

lemma at_rbrace_end: "\<not> at_rbrace ps \<Longrightarrow> \<not> at_end ps"
  by (simp add: at_rbrace_def)

lemma directives_body_goes_on: "ps_ok ps \<Longrightarrow> goes_on ps (directives_body ds ps)"
  unfolding directives_body_def Let_def
  by (rule body_goes_on) (auto intro!: entry_goes_on not_end_advance parse_steps dest!: at_rbrace_end)

lemma parse_directives_runs [parse_steps]: "ps_ok ps \<Longrightarrow> runs ps (parse_directives_until_rbrace ps)"
  unfolding parse_directives_until_rbrace_def by (intro p_loop_runs directives_body_goes_on)

lemma eats_terminators:
  "ps_ok ps \<Longrightarrow> eats (skip_terminators ps) r \<Longrightarrow> eats ps r"
  by (rule eats_later [OF skip_terminators_after])

lemma eats_comment: "peek_kind ps = Comment t \<Longrightarrow> ps_ok ps \<Longrightarrow> after ps (advance ps)"
  by (rule advance_after) auto

lemma named_block_eats:
  assumes "\<And>ps. ps_ok ps \<Longrightarrow> runs ps (contents ps)" and "ps_ok ps"
  shows "eats ps (named_block contents name q ps)"
  unfolding named_block_def
  using assms by (auto intro!: eats_and_then runs_and_then eats_runs [OF expect_brace_eats(2)]
      expect_brace_eats after_eq_refl)

lemma block_or_directive_eats:
  assumes "\<And>ps. ps_ok ps \<Longrightarrow> runs ps (contents ps)" and ok: "ps_ok ps"
  shows "eats ps (block_or_directive contents ps)"
proof -
  let ?directive = "and_then (parse_directive ps) (\<lambda>d ps. Inr (DDirective d, ps))"
  let ?blk = "\<lambda>name q ps. and_then (named_block contents name q ps) (\<lambda>b ps. Inr (DBlock b, ps))"
  have dir: "eats ps ?directive"
    using ok by (auto intro!: eats_and_then parse_directive_eats after_eq_refl)
  have blk: "eats ps (?blk name q p)" if "after_eq ps p" "ps_ok p" for name q p
    using that(2) by (intro eats_later [OF that(1)])
      (auto intro!: eats_and_then named_block_eats assms(1) after_eq_refl)
  have look: "eats ps (and_then (read_string_value p) f)"
    if "after_eq ps p" "ps_ok p" "\<And>x p'. after_eq ps p' \<Longrightarrow> ps_ok p' \<Longrightarrow> eats ps (f x p')"
    for p and f :: "_ \<Rightarrow> _ \<Rightarrow> DirectiveOrBlock parsed"
  proof (cases "read_string_value p")
    case (Inr y)
    obtain x p' where y: "y = (x, p')" by (cases y)
    have "after p p'" using read_string_value_eats [OF that(2)] Inr y by simp
    then have "after_eq ps p'" by (intro after_eq_trans [OF that(1)] after_after_eq)
    with Inr y that(3) show ?thesis by (simp add: and_then_def after_eq_ok)
  qed (use read_string_value_eats [OF that(2)] in \<open>simp add: and_then_def\<close>)
  show ?thesis
    unfolding block_or_directive_def Let_def using ok by (auto intro!: look dir blk after_eq_refl)
qed

lemma directive_or_block_eats:
  assumes "\<And>ps. ps_ok ps \<Longrightarrow> runs ps (contents ps)" and "ps_ok ps"
  shows "eats ps (directive_or_block contents ps)"
proof (rule eats_terminators [OF assms(2)])
  have "ps_ok (skip_terminators ps)" using assms(2) by simp
  with block_or_directive_eats [OF assms(1) this]
  show "eats (skip_terminators ps) (directive_or_block contents ps)"
    unfolding directive_or_block_def Let_def
    by (cases "peek_kind (skip_terminators ps)") (auto intro: eats_comment)
qed

lemma blocks_body_goes_on:
  assumes "\<And>ps. ps_ok ps \<Longrightarrow> runs ps (contents ps)" and "ps_ok ps"
  shows "goes_on ps (blocks_body contents items ps)"
  unfolding blocks_body_def Let_def
  by (rule body_goes_on) (auto intro!: entry_goes_on directive_or_block_eats assms)

lemma blocks_within_runs: "ps_ok ps \<Longrightarrow> runs ps (blocks_within n ps)"
proof (induction n arbitrary: ps)
  case (Suc n)
  let ?ps = "ps\<lparr>depth := depth ps + 1\<rparr>"
  have "runs ?ps (p_loop (blocks_body (blocks_within n)) [] ?ps)"
    using Suc by (intro p_loop_runs blocks_body_goes_on) (auto simp: ps_ok_def)
  then show ?case
    by (auto simp: and_then_def runs_def after_eq_def ps_ok_def split: sum.splits)
qed simp

lemma parse_blocks_runs [parse_steps]: "ps_ok ps \<Longrightarrow> runs ps (parse_directives_or_blocks_until_rbrace ps)"
  unfolding parse_directives_or_blocks_until_rbrace_def by (rule blocks_within_runs)

lemma parse_directive_or_block_eats [parse_steps]: "ps_ok ps \<Longrightarrow> eats ps (parse_directive_or_block ps)"
  unfolding parse_directive_or_block_def by (intro directive_or_block_eats parse_blocks_runs)

lemma parse_named_block_eats [parse_steps]: "ps_ok ps \<Longrightarrow> eats ps (parse_named_block ps)"
  unfolding parse_named_block_def
  by (auto intro!: eats_and_then read_string_value_eats eats_runs [OF named_block_eats] parse_blocks_runs)

lemma parse_ordinal_eats [parse_steps]: "ps_ok ps \<Longrightarrow> eats ps (parse_ordinal ps)"
proof -
  assume ok: "ps_ok ps"
  have "w = ''last'' \<or> or_else (strip_suffix w ''st'') (or_else (strip_suffix w ''nd'')
      (or_else (strip_suffix w ''rd'') (strip_suffix w ''th''))) \<noteq> None \<Longrightarrow> w \<noteq> []" for w
    by (auto simp: or_else_def strip_suffix_def)
  with ok text_not_eof [of ps] show ?thesis
    by (auto simp: parse_ordinal_def Let_def split: option.splits intro!: advance_after)
qed

lemma parse_time_value_eats [parse_steps]: "ps_ok ps \<Longrightarrow> eats ps (parse_time_value ps)"
  using text_not_eof [of ps]
  by (cases "tok_text (tok_peek ps)")
    (auto simp: parse_time_value_def Let_def split: list.splits option.splits intro!: advance_after)

lemma parse_optional_runs [parse_steps]: "ps_ok ps \<Longrightarrow> runs ps (parse_optional_schedule_block l ps)"
  unfolding parse_optional_schedule_block_def
  by (auto intro!: runs_and_then eats_runs [OF expect_brace_eats(1)] eats_runs [OF expect_brace_eats(2)]
      parse_directives_runs after_eq_refl)

lemma schedule_node_runs [parse_steps]: "ps_ok ps \<Longrightarrow> runs ps (schedule_node a l k ps)"
  unfolding schedule_node_def by (auto intro!: runs_and_then parse_optional_runs after_eq_refl)

lemma parse_schedule_once_eats [parse_steps]: "ps_ok ps \<Longrightarrow> eats ps (parse_schedule_once ps)"
  unfolding parse_schedule_once_def
  by (auto intro!: eats_and_then runs_and_then expect_ident_eats eats_runs [OF expect_ident_eats]
      eats_runs [OF read_string_value_eats] after_eq_refl)

lemma advance_schedule_node: "ps_ok ps \<Longrightarrow> runs ps (schedule_node a l k (advance ps))"
  by (rule runs_later [OF advance_after_eq]) (simp_all add: schedule_node_runs)

lemma parse_schedule_interval_runs [parse_steps]: "ps_ok ps \<Longrightarrow> runs ps (parse_schedule_interval a ps)"
  unfolding parse_schedule_interval_def Let_def
  by (auto intro!: advance_schedule_node runs_later [OF advance_after_eq [of ps] advance_schedule_node]
      split: option.splits)

lemma parse_schedule_daily_runs [parse_steps]: "ps_ok ps \<Longrightarrow> runs ps (parse_schedule_daily a ps)"
  unfolding parse_schedule_daily_def
  by (auto intro!: runs_and_then eats_runs [OF expect_ident_eats] eats_runs [OF parse_time_value_eats]
      schedule_node_runs)

lemma is_day_name_text: "is_day_name s \<Longrightarrow> s \<noteq> []"
  by (auto simp: is_day_name_def parse_token_def parse_group_def weekday_parse_def to_ascii_lowercase_def)

lemma weekdays_body_goes_on: "ps_ok ps \<Longrightarrow> goes_on ps (weekdays_body days ps)"
proof -
  assume ok: "ps_ok ps"
  show ?thesis
  proof (cases "is_day_name (tok_text (tok_peek ps))")
    case True
    then have a: "after ps (advance ps)"
      using ok by (intro advance_after text_not_eof) (auto dest: is_day_name_text)
    moreover have "after ps (advance (advance (advance ps)))"
      using ok advance_after_eq [of "advance ps"] advance_after_eq [of "advance (advance ps)"]
      by (simp add: after_trans1 [OF after_trans1 [OF a]])
    ultimately show ?thesis
      using after_eq_refl [OF ok] by (auto simp: weekdays_body_def Let_def split: option.splits)
  qed (use ok in \<open>simp add: weekdays_body_def after_eq_refl\<close>)
qed

lemma parse_schedule_weekdays_runs [parse_steps]: "ps_ok ps \<Longrightarrow> runs ps (parse_schedule_weekdays a ps)"
  unfolding parse_schedule_weekdays_def
  by (auto intro!: runs_and_then p_loop_runs weekdays_body_goes_on eats_runs [OF expect_ident_eats]
      eats_runs [OF parse_time_value_eats] schedule_node_runs)

lemma ordinals_body_goes_on: "ps_ok ps \<Longrightarrow> goes_on ps (ordinals_body ords ps)"
  unfolding ordinals_body_def by (auto intro!: entry_goes_on parse_ordinal_eats after_eq_refl)

lemma parse_schedule_monthly_runs [parse_steps]: "ps_ok ps \<Longrightarrow> runs ps (parse_schedule_monthly a ps)"
  unfolding parse_schedule_monthly_def
  by (auto intro!: runs_and_then p_loop_runs ordinals_body_goes_on eats_runs [OF expect_ident_eats]
      eats_runs [OF parse_time_value_eats] schedule_node_runs)

lemma parse_schedule_every_eats [parse_steps]: "ps_ok ps \<Longrightarrow> eats ps (parse_schedule_every ps)"
  unfolding parse_schedule_every_def Let_def
  by (auto intro!: eats_and_then expect_ident_eats parse_schedule_weekdays_runs parse_schedule_daily_runs
      parse_schedule_monthly_runs parse_schedule_interval_runs)

lemma parse_schedule_eats [parse_steps]: "ps_ok ps0 \<Longrightarrow> eats ps0 (parse_schedule ps0)"
proof -
  assume ok: "ps_ok ps0"
  define ps where "ps = (if schedule_mode (tok_text (tok_peek ps0)) = None then ps0 else advance ps0)"
  have a: "after_eq ps0 ps" using ok by (simp add: ps_def after_eq_refl advance_after_eq)
  then have ok': "ps_ok ps" by (rule after_eq_ok)
  have "eats ps (parse_schedule ps0)"
    using ok' text_not_eof [of ps] unfolding parse_schedule_def Let_def ps_def [symmetric]
    by (auto intro!: eats_and_then parse_schedule_once_eats parse_schedule_every_eats after_eq_refl advance_after)
  with a show ?thesis by (rule eats_later)
qed

lemma parse_job_key_eats [parse_steps]: "ps_ok ps \<Longrightarrow> eats ps (parse_job_key ps)"
  by (cases "kind (tok_peek ps)")
    (auto simp: parse_job_key_def Let_def unexpected_def peek_kind_def intro!: advance_after)

lemma job_step_goes_on: "ps_ok ps \<Longrightarrow> goes_on ps (job_step b ps)"
proof -
  assume ok: "ps_ok ps"
  obtain sched ds where b: "b = (sched, ds)" by (cases b)
  show ?thesis
    unfolding job_step_def b Let_def prod.case
  proof (rule body_goes_on [OF ok refl])
    assume r: "\<not> at_rbrace (skip_newlines ps)" and ok': "ps_ok (skip_newlines ps)"
    have "after (skip_newlines ps) (advance (skip_newlines ps))"
      using at_rbrace_end [OF r] ok' by (rule not_end_advance)
    moreover have "goes_on (skip_newlines ps)
      (if sched = None \<and> is_schedule_start (skip_newlines ps)
       then and_then (parse_schedule (skip_newlines ps)) (\<lambda>s ps. Inr (Continue (Some s, ds), ps))
       else and_then (parse_directive_or_block (skip_newlines ps)) (\<lambda>d ps. Inr (Continue (sched, ds @ [d]), ps)))"
      using ok' by (auto intro!: entry_goes_on parse_schedule_eats parse_directive_or_block_eats)
    ultimately show "goes_on (skip_newlines ps)
      (case peek_kind (skip_newlines ps) of
         Comment text \<Rightarrow> Inr (Continue (sched, ds @ [DComment \<lparr>c_text = text,
           c_span = tspan (tok_peek (skip_newlines ps))\<rparr>]), advance (skip_newlines ps))
       | Semicolon \<Rightarrow> Inr (Continue (sched, ds), advance (skip_newlines ps))
       | _ \<Rightarrow>
         if sched = None \<and> is_schedule_start (skip_newlines ps)
         then and_then (parse_schedule (skip_newlines ps)) (\<lambda>s ps. Inr (Continue (Some s, ds), ps))
         else and_then (parse_directive_or_block (skip_newlines ps)) (\<lambda>d ps. Inr (Continue (sched, ds @ [d]), ps)))"
      by (cases "peek_kind (skip_newlines ps)") simp_all
  qed
qed

lemma parse_job_eats [parse_steps]: "ps_ok ps \<Longrightarrow> eats ps (parse_job ps)"
  unfolding parse_job_def
  by (auto intro!: eats_and_then runs_and_then expect_ident_eats eats_runs [OF parse_job_key_eats]
      eats_runs [OF expect_brace_eats(1)] eats_runs [OF expect_brace_eats(2)] p_loop_runs job_step_goes_on
      after_eq_refl)

lemma calendar_arg_eats [parse_steps]: "ps_ok ps \<Longrightarrow> eats ps (calendar_arg ty args ps)"
  unfolding calendar_arg_def
  by (auto intro!: eats_and_then runs_and_then read_string_value_eats read_advance_runs after_eq_refl)

lemma calendar_args_goes_on: "ps_ok ps \<Longrightarrow> goes_on ps (calendar_args_body ty args ps)"
  unfolding calendar_args_body_def Let_def
  by (auto intro!: eats_goes_on eats_and_then calendar_arg_eats advance_after_eq after_eq_refl)

lemma parse_calendar_rule_eats [parse_steps]: "ps_ok ps \<Longrightarrow> eats ps (parse_calendar_rule ps)"
  unfolding parse_calendar_rule_def Let_def
  by (auto intro!: eats_and_then runs_and_then read_string_value_eats eats_runs [OF read_string_value_eats]
      p_loop_runs calendar_args_goes_on after_eq_refl split: option.splits)

lemma calendar_body_goes_on: "ps_ok ps \<Longrightarrow> goes_on ps (calendar_body rules ps)"
  unfolding calendar_body_def Let_def
  by (rule body_goes_on) (auto intro!: entry_goes_on not_end_advance parse_calendar_rule_eats dest!: at_rbrace_end)

lemma parse_calendar_eats [parse_steps]: "ps_ok ps \<Longrightarrow> eats ps (parse_calendar ps)"
  unfolding parse_calendar_def
  by (auto intro!: eats_and_then runs_and_then expect_ident_eats eats_runs [OF read_string_value_eats]
      eats_runs [OF expect_brace_eats(1)] eats_runs [OF expect_brace_eats(2)] p_loop_runs calendar_body_goes_on
      after_eq_refl)

lemma directives_block_eats [parse_steps]: "ps_ok ps \<Longrightarrow> eats ps (directives_block k ps)"
  unfolding directives_block_def
  by (auto intro!: eats_and_then runs_and_then expect_ident_eats eats_runs [OF expect_brace_eats(1)]
      eats_runs [OF expect_brace_eats(2)] parse_directives_runs after_eq_refl)

lemma sub_blocks_block_eats:
  assumes "\<And>ps. ps_ok ps \<Longrightarrow> eats ps (sub ps)" and "ps_ok ps"
  shows "eats ps (sub_blocks_block sub k ps)"
proof -
  have "goes_on ps (sub_blocks_body sub bs ps)" if "ps_ok ps" for bs ps
    unfolding sub_blocks_body_def Let_def using that
    by (rule body_goes_on) (auto intro!: entry_goes_on not_end_advance assms(1) dest!: at_rbrace_end)
  then show ?thesis
    unfolding sub_blocks_block_def using assms(2)
    by (auto intro!: eats_and_then runs_and_then expect_ident_eats eats_runs [OF expect_brace_eats(1)]
        eats_runs [OF expect_brace_eats(2)] p_loop_runs after_eq_refl)
qed

lemma alerts_sub_block_eats [parse_steps]: "ps_ok ps \<Longrightarrow> eats ps (alerts_sub_block ps)"
  unfolding alerts_sub_block_def
  by (auto intro!: eats_and_then runs_and_then read_string_value_eats eats_runs [OF read_string_value_eats]
      eats_runs [OF named_block_eats] parse_blocks_runs)

lemma parse_defaults_eats [parse_steps]: "ps_ok ps \<Longrightarrow> eats ps (parse_defaults ps)"
  unfolding parse_defaults_def
  by (auto intro!: eats_and_then runs_and_then expect_ident_eats eats_runs [OF expect_brace_eats(1)]
      eats_runs [OF expect_brace_eats(2)] parse_blocks_runs after_eq_refl)

lemma parse_concurrency_group_eats [parse_steps]: "ps_ok ps \<Longrightarrow> eats ps (parse_concurrency_group ps)"
  unfolding parse_concurrency_group_def
  by (auto intro!: eats_and_then runs_and_then expect_ident_eats eats_runs [OF read_string_value_eats]
      eats_runs [OF expect_brace_eats(1)] eats_runs [OF expect_brace_eats(2)] parse_directives_runs after_eq_refl)

lemma parse_import_eats [parse_steps]: "ps_ok ps \<Longrightarrow> eats ps (parse_import ps)"
  unfolding parse_import_def
  by (auto intro!: eats_and_then runs_and_then expect_ident_eats eats_runs [OF read_string_value_eats]
      after_eq_refl)

lemma item_of_eats: "eats ps r \<Longrightarrow> eats ps (item_of c r)"
  unfolding item_of_def by (auto intro!: eats_and_then after_eq_refl)

lemmas block_parsers = parse_server_def parse_smtp_def parse_pull_api_def parse_mcp_def parse_policy_def
  parse_oidc_def parse_vars_def parse_auth_def parse_observability_def parse_alerts_def

lemma parse_item_eats: "ps_ok ps0 \<Longrightarrow> eats ps0 (parse_item ps0)"
proof -
  assume ok: "ps_ok ps0"
  define ps where "ps = skip_terminators ps0"
  have ok': "ps_ok ps" using ok by (simp add: ps_def)
  have "eats ps (parse_item ps0)"
  proof (cases "kind (tok_peek ps)")
    case (Ident s)
    with ok' show ?thesis
      unfolding parse_item_def Let_def ps_def [symmetric] Ident TokenKind.case block_parsers
      by (auto intro!: item_of_eats parse_steps sub_blocks_block_eats)
  qed (use ok' in \<open>auto simp: parse_item_def Let_def ps_def [symmetric] unexpected_def peek_kind_def intro: eats_comment\<close>)
  then show ?thesis using ok by (simp add: ps_def eats_terminators)
qed

lemma items_body_goes_on: "ps_ok ps \<Longrightarrow> goes_on ps (items_body items ps)"
  unfolding items_body_def Let_def
  by (rule stop_goes_on [OF skip_terminators_after]) (auto intro!: entry_goes_on parse_item_eats)

lemma stored_rules_body_goes_on: "ps_ok ps \<Longrightarrow> goes_on ps (stored_rules_body rules ps)"
  unfolding stored_rules_body_def Let_def
  by (rule stop_goes_on [OF skip_newlines_after])
    (auto intro!: entry_goes_on parse_calendar_rule_eats not_end_advance)

lemma tokenize_from_last: "tokenize_from lx acc = Inr toks \<Longrightarrow> toks \<noteq> [] \<and> kind (last toks) = Eof"
  by (drule tokenize_from_spans) auto

lemma tokenize_ok: "tokenize s = Inr toks \<Longrightarrow> ps_ok \<lparr>ptoks = toks, depth = d\<rparr>"
  by (auto simp: tokenize_def ps_ok_def dest: tokenize_from_last)

lemma parse_croniqfile_runs: "ps_ok ps \<Longrightarrow> runs ps (parse_croniqfile ps)"
  unfolding parse_croniqfile_def Let_def
  by (auto intro!: runs_and_then p_loop_runs items_body_goes_on after_eq_refl)

lemma parse_no_stop: "parse source \<noteq> Inl NoProgress"
proof (cases "tokenize source")
  case (Inr toks)
  from parse_croniqfile_runs [OF tokenize_ok [OF Inr, of 0]] show ?thesis
    by (auto simp: parse_def Inr runs_def split: sum.splits)
qed (simp add: parse_def)

lemma parse_calendar_rules_no_stop: "parse_calendar_rules name rules \<noteq> Inl NoProgress"
proof (cases "tokenize rules")
  case (Inr toks)
  have "runs \<lparr>ptoks = toks, depth = 0\<rparr> (p_loop stored_rules_body [] \<lparr>ptoks = toks, depth = 0\<rparr>)"
    by (intro p_loop_runs stored_rules_body_goes_on tokenize_ok [OF Inr])
  moreover have "first_error ts \<noteq> Some NoProgress" for ts
    by (induction ts) (auto simp: rule_token_error_def split: TokenKind.splits)
  ultimately show ?thesis
    by (auto simp: parse_calendar_rules_def Inr runs_def Let_def split: sum.splits option.splits)
qed (simp add: parse_calendar_rules_def)

text \<open>C31: Parsing ends on every input: no loop of the parser goes round without reading a token, whether it parses
  a file, the rules of a stored calendar or a schedule expression. Every call has a result, which is a syntax
  tree or one of the errors of the source.\<close>

theorem parse_terminates:
  "parse source \<noteq> Inl NoProgress \<and> parse_calendar_rules name source \<noteq> Inl NoProgress \<and>
   parse_schedule_expr source \<noteq> Inl NoProgress"
proof -
  have "parse_schedule_expr source \<noteq> Inl NoProgress"
    using parse_no_stop by (auto simp: parse_schedule_expr_def split: sum.splits option.splits)
  then show ?thesis by (simp add: parse_no_stop parse_calendar_rules_no_stop)
qed

subsection \<open>The recursion of blocks\<close>

lemma and_then_cong:
  assumes "r = r'" and "\<And>x ps. r' = Inr (x, ps) \<Longrightarrow> f x ps = g x ps"
  shows "and_then r f = and_then r' g"
  using assms by (auto simp: and_then_def split: sum.splits)

lemma eats_D: "eats ps r \<Longrightarrow> r = Inr (x, ps') \<Longrightarrow> after_eq ps ps'"
  by (auto simp: eats_def after_after_eq)

lemma named_block_cong:
  assumes "ps_ok ps" and "\<And>q. after_eq ps q \<Longrightarrow> c q = c' q"
  shows "named_block c name qual ps = named_block c' name qual ps"
  unfolding named_block_def
proof (rule and_then_cong [OF refl], rule and_then_cong)
  fix x q
  assume "expect_lbrace ps = Inr (x, q)"
  then show "c q = c' q" by (intro assms(2) eats_D [OF expect_brace_eats(1) [OF assms(1)]])
qed simp

lemma read_after:
  "ps_ok ps \<Longrightarrow> read_string_value ps = Inr (x, q) \<Longrightarrow> after_eq ps q"
  by (rule eats_D [OF read_string_value_eats])

lemma block_or_directive_cong:
  assumes "ps_ok ps" and "\<And>q. after_eq ps q \<Longrightarrow> c q = c' q"
  shows "block_or_directive c ps = block_or_directive c' ps"
proof -
  have nb: "named_block c name qual q = named_block c' name qual q" if "after_eq ps q" for name qual q
    using that by (intro named_block_cong assms(2)) (auto intro: after_eq_trans after_eq_ok)
  have rd: "after_eq ps r" if "after_eq ps q" "read_string_value q = Inr (x, r)" for q x r
    using that(1) read_after [OF after_eq_ok [OF that(1)] that(2)] by (rule after_eq_trans)
  show ?thesis
    unfolding block_or_directive_def Let_def
  proof (rule and_then_cong [OF refl])
    fix name q
    assume "read_string_value ps = Inr (name, q)"
    then have q: "after_eq ps q" by (rule rd [OF after_eq_refl [OF assms(1)]])
    let ?f = "\<lambda>c m r. if peek_kind r = LBrace then and_then (named_block c name (Some m) r) (\<lambda>b ps. Inr (DBlock b, ps))
      else and_then (parse_directive ps) (\<lambda>d ps. Inr (DDirective d, ps))"
    have "and_then (read_string_value q) (?f c) = and_then (read_string_value q) (?f c')"
      by (rule and_then_cong [OF refl]) (simp add: nb rd [OF q])
    then show "(if peek_kind q = LBrace then and_then (named_block c name None q) (\<lambda>b ps. Inr (DBlock b, ps))
        else if is_value_token q then and_then (read_string_value q) (?f c)
        else and_then (parse_directive ps) (\<lambda>d ps. Inr (DDirective d, ps))) =
      (if peek_kind q = LBrace then and_then (named_block c' name None q) (\<lambda>b ps. Inr (DBlock b, ps))
        else if is_value_token q then and_then (read_string_value q) (?f c')
        else and_then (parse_directive ps) (\<lambda>d ps. Inr (DDirective d, ps)))"
      by (simp add: nb [OF q])
  qed
qed

lemma directive_or_block_cong:
  assumes "ps_ok ps" and "\<And>q. after_eq ps q \<Longrightarrow> c q = c' q"
  shows "directive_or_block c ps = directive_or_block c' ps"
proof -
  have "block_or_directive c (skip_terminators ps) = block_or_directive c' (skip_terminators ps)"
    using assms(1) by (intro block_or_directive_cong assms(2))
      (auto intro: after_eq_trans [OF skip_terminators_after])
  then show ?thesis
    by (cases "peek_kind (skip_terminators ps)") (simp_all add: directive_or_block_def)
qed

lemma p_loop_cong:
  assumes "\<And>s q. after_eq ps q \<Longrightarrow> body s q = body' s q" and "\<And>s q. ps_ok q \<Longrightarrow> goes_on q (body s q)"
    and "ps_ok ps"
  shows "p_loop body s ps = p_loop body' s ps"
  using assms
proof (induction body s ps rule: p_loop.induct)
  case (1 body s ps)
  have eq: "body s ps = body' s ps" using "1.prems"(1,3) by (simp add: after_eq_refl)
  have "p_loop body s' ps' = p_loop body' s' ps'"
    if b: "body s ps = Inr (Continue s', ps')" and l: "length (ptoks ps') < length (ptoks ps)" for s' ps'
  proof -
    have a: "after ps ps'" using "1.prems"(2) [OF "1.prems"(3), of s] b by simp
    then have "after_eq ps ps'" by (rule after_after_eq)
    then show ?thesis
      using "1.IH" [OF b refl refl l] "1.prems"(1,2) by (meson after_eq_ok after_eq_trans)
  qed
  then show ?case
    using eq by (subst (1 2) p_loop.simps) (auto split: sum.splits flow.splits)
qed

text \<open>The recursion equation of the source, with the depth counted in the state.\<close>

lemma parse_blocks_unfold:
  assumes "ps_ok ps"
  shows "parse_directives_or_blocks_until_rbrace ps =
    (if depth ps \<ge> MAX_BLOCK_DEPTH then
       Inl (General (''blocks nest deeper than '' @ show_nat MAX_BLOCK_DEPTH @ '' levels'') (tspan (tok_peek ps)))
     else
       and_then (p_loop (blocks_body parse_directives_or_blocks_until_rbrace) [] (ps\<lparr>depth := depth ps + 1\<rparr>))
         (\<lambda>items ps. Inr (items, ps\<lparr>depth := depth ps - 1\<rparr>)))"
proof (cases "MAX_BLOCK_DEPTH - depth ps")
  case (Suc n)
  let ?ps = "ps\<lparr>depth := depth ps + 1\<rparr>"
  have ok: "ps_ok ?ps" using assms by (simp add: ps_ok_def)
  have "p_loop (blocks_body (blocks_within n)) [] ?ps =
      p_loop (blocks_body parse_directives_or_blocks_until_rbrace) [] ?ps"
  proof (rule p_loop_cong [OF _ _ ok])
    fix s q
    assume q: "after_eq ?ps q"
    let ?q = "skip_newlines q"
    have q': "after_eq ?ps ?q" using q by (auto intro: after_eq_trans skip_newlines_after after_eq_ok)
    have "blocks_within n r = parse_directives_or_blocks_until_rbrace r" if "after_eq ?q r" for r
    proof -
      have "depth r = depth ps + 1" using that q' by (simp add: after_eq_def)
      then have "MAX_BLOCK_DEPTH - depth r = n" using Suc by linarith
      then show ?thesis by (simp add: parse_directives_or_blocks_until_rbrace_def)
    qed
    with after_eq_ok [OF q'] show "blocks_body (blocks_within n) s q =
        blocks_body parse_directives_or_blocks_until_rbrace s q"
      unfolding blocks_body_def Let_def
      using directive_or_block_cong [of ?q "blocks_within n" parse_directives_or_blocks_until_rbrace] by simp
  qed (auto intro: blocks_body_goes_on blocks_within_runs)
  moreover have "\<not> depth ps \<ge> MAX_BLOCK_DEPTH" using Suc by linarith
  ultimately show ?thesis using Suc by (simp add: parse_directives_or_blocks_until_rbrace_def)
qed (simp add: parse_directives_or_blocks_until_rbrace_def)

subsection \<open>How deep blocks nest\<close>

fun nest :: "DirectiveOrBlock \<Rightarrow> nat" and block_nest :: "NamedBlock \<Rightarrow> nat" where
  "nest (DDirective _) = 0"
| "nest (DComment _) = 0"
| "nest (DBlock b) = block_nest b"
| "block_nest (NamedBlock _ _ ds _) = Suc (foldr max (map nest ds) 0)"

fun item_nest :: "Item \<Rightarrow> nat" where
  "item_nest (I_Auth a) = foldr max (map block_nest (sb_blocks a)) 0"
| "item_nest (I_Alerts a) = foldr max (map block_nest (sb_blocks a)) 0"
| "item_nest (I_Observability a) = foldr max (map block_nest (sb_blocks a)) 0"
| "item_nest (I_Defaults d) = foldr max (map nest (df_directives d)) 0"
| "item_nest (I_Job j) = foldr max (map nest (jb_directives j)) 0"
| "item_nest _ = 0"

lemma foldr_max_le: "foldr max (map f xs) 0 \<le> (n :: nat) \<longleftrightarrow> (\<forall>x \<in> set xs. f x \<le> n)"
  by (induction xs) auto

text \<open>What every value and state a loop goes through satisfy, its results do.\<close>

lemma p_loop_inv_state:
  assumes "\<And>s ps s' ps'. P s ps \<Longrightarrow> body s ps = Inr (Continue s', ps') \<Longrightarrow> P s' ps'"
    and "\<And>s ps s' ps'. P s ps \<Longrightarrow> body s ps = Inr (Break s', ps') \<Longrightarrow> P s' ps'"
    and "P s ps" and "p_loop body s ps = Inr (t, ps')"
  shows "P t ps'"
  using assms
proof (induction body s ps rule: p_loop.induct)
  case (1 body s ps)
  from "1.prems"(4) consider
      (stop) "body s ps = Inr (Break t, ps')"
    | (more) s' q where "body s ps = Inr (Continue s', q)" "length (ptoks q) < length (ptoks ps)"
        "p_loop body s' q = Inr (t, ps')"
    by (auto simp: p_loop.simps [of body s ps] split: sum.splits flow.splits if_splits)
  then show ?case
  proof cases
    case more
    then show ?thesis
      using "1.IH" [OF more(1) refl refl more(2)] "1.prems"(1-3) by blast
  qed (use "1.prems"(2,3) in blast)
qed

lemmas p_loop_inv = p_loop_inv_state [where P = "\<lambda>s _. P s" for P]

lemma and_then_Inr:
  "and_then r f = Inr y \<longleftrightarrow> (\<exists>x ps. r = Inr (x, ps) \<and> f x ps = Inr y)"
  by (auto simp: and_then_def split: sum.splits)

lemma named_block_nest:
  assumes "\<And>ps ds ps'. c ps = Inr (ds, ps') \<Longrightarrow> 0 < n \<and> (\<forall>d \<in> set ds. nest d < n)"
    and "named_block c name q ps = Inr (b, ps')"
  shows "block_nest b \<le> n"
proof -
  from assms(2) obtain ds p1 p2 sp where c: "c p1 = Inr (ds, p2)" and b: "b = NamedBlock name q ds sp"
    by (auto simp: named_block_def and_then_Inr)
  from assms(1) [OF c] obtain m where "n = Suc m" "\<forall>d \<in> set ds. nest d \<le> m"
    by (cases n) (auto simp: less_Suc_eq_le)
  with b show ?thesis by (simp add: foldr_max_le)
qed

lemma block_or_directive_nest:
  assumes "\<And>ps ds ps'. c ps = Inr (ds, ps') \<Longrightarrow> 0 < n \<and> (\<forall>d \<in> set ds. nest d < n)"
    and "block_or_directive c ps = Inr (d, ps')"
  shows "nest d \<le> n"
proof -
  from assms(2) consider b p q name where "named_block c name q p = Inr (b, ps')" "d = DBlock b"
    | d' where "d = DDirective d'"
    by (auto simp: block_or_directive_def Let_def and_then_Inr split: if_splits)
  then show ?thesis using named_block_nest [where c = c and n = n, OF assms(1)] by cases auto
qed

lemma directive_or_block_nest:
  assumes "\<And>ps ds ps'. c ps = Inr (ds, ps') \<Longrightarrow> 0 < n \<and> (\<forall>d \<in> set ds. nest d < n)"
    and "directive_or_block c ps = Inr (d, ps')"
  shows "nest d \<le> n"
proof -
  from assms(2) consider "block_or_directive c (skip_terminators ps) = Inr (d, ps')" | t where "d = DComment t"
    by (cases "peek_kind (skip_terminators ps)") (auto simp: directive_or_block_def Let_def)
  then show ?thesis using block_or_directive_nest [where c = c and n = n, OF assms(1)] by cases auto
qed

lemma blocks_within_nest:
  "blocks_within n ps = Inr (ds, ps') \<Longrightarrow> 0 < n \<and> (\<forall>d \<in> set ds. nest d < n)"
proof (induction n arbitrary: ps ds ps')
  case (Suc n)
  from Suc.prems obtain p p' where l: "p_loop (blocks_body (blocks_within n)) [] p = Inr (ds, p')"
    by (auto simp: and_then_Inr)
  have "\<forall>d \<in> set ds. nest d < Suc n"
  proof (rule p_loop_inv [where P = "\<lambda>ds. \<forall>d \<in> set ds. nest d < Suc n", OF _ _ _ l])
    show "\<forall>d \<in> set t. nest d < Suc n" if "\<forall>d \<in> set s. nest d < Suc n"
      "blocks_body (blocks_within n) s p = Inr (Continue t, p')" for s t p p'
      using that directive_or_block_nest [OF Suc.IH]
      by (auto simp: blocks_body_def Let_def and_then_Inr less_Suc_eq_le split: if_splits)
  qed (auto simp: blocks_body_def Let_def and_then_Inr split: if_splits)
  then show ?case by simp
qed simp

lemma parse_blocks_nest:
  "parse_directives_or_blocks_until_rbrace ps = Inr (ds, ps') \<Longrightarrow>
     0 < MAX_BLOCK_DEPTH \<and> (\<forall>d \<in> set ds. nest d < MAX_BLOCK_DEPTH)"
  unfolding parse_directives_or_blocks_until_rbrace_def
  by (drule blocks_within_nest) auto

abbreviation shallow :: "NamedBlock list \<Rightarrow> bool" where
  "shallow bs \<equiv> (\<forall>b \<in> set bs. block_nest b \<le> MAX_BLOCK_DEPTH)"

lemma parsed_block_nest:
  "named_block parse_directives_or_blocks_until_rbrace name q ps = Inr (b, ps') \<Longrightarrow> block_nest b \<le> MAX_BLOCK_DEPTH"
  by (erule named_block_nest [rotated]) (rule parse_blocks_nest)

lemma parse_directive_or_block_nest: "parse_directive_or_block ps = Inr (d, ps') \<Longrightarrow> nest d \<le> MAX_BLOCK_DEPTH"
  unfolding parse_directive_or_block_def
  by (erule directive_or_block_nest [rotated]) (rule parse_blocks_nest)

lemma parse_named_block_nest: "parse_named_block ps = Inr (b, ps') \<Longrightarrow> block_nest b \<le> MAX_BLOCK_DEPTH"
  by (auto simp: parse_named_block_def and_then_Inr dest: parsed_block_nest)

lemma alerts_sub_block_nest: "alerts_sub_block ps = Inr (b, ps') \<Longrightarrow> block_nest b \<le> MAX_BLOCK_DEPTH"
  by (auto simp: alerts_sub_block_def and_then_Inr split: if_splits dest: parsed_block_nest)

lemma sub_blocks_nest:
  assumes "\<And>ps b ps'. sub ps = Inr (b, ps') \<Longrightarrow> block_nest b \<le> MAX_BLOCK_DEPTH"
    and "sub_blocks_block sub k ps = Inr (blk, ps')"
  shows "shallow (sb_blocks blk)"
proof -
  from assms(2) obtain p p' where l: "p_loop (sub_blocks_body sub) [] p = Inr (sb_blocks blk, p')"
    by (auto simp: sub_blocks_block_def and_then_Inr)
  show ?thesis
  proof (rule p_loop_inv [where P = shallow, OF _ _ _ l])
    show "shallow t" if "shallow s" "sub_blocks_body sub s p = Inr (Continue t, p')" for s t p p'
      using that by (auto simp: sub_blocks_body_def Let_def and_then_Inr split: if_splits dest: assms(1))
  qed (auto simp: sub_blocks_body_def Let_def and_then_Inr split: if_splits)
qed

lemma job_step_nest:
  assumes "job_step b ps = Inr (r, ps')" and "\<forall>d \<in> set (snd b). nest d \<le> MAX_BLOCK_DEPTH"
    and "r = Continue b' \<or> r = Break b'"
  shows "\<forall>d \<in> set (snd b'). nest d \<le> MAX_BLOCK_DEPTH"
  using assms
  by (cases b; cases "peek_kind (skip_newlines ps)")
    (auto simp: job_step_def Let_def and_then_Inr split: if_splits dest: parse_directive_or_block_nest)

lemma parse_job_nest:
  assumes "parse_job ps = Inr (j, ps')"
  shows "\<forall>d \<in> set (jb_directives j). nest d \<le> MAX_BLOCK_DEPTH"
proof -
  from assms obtain sched p p' where l: "p_loop job_step (None, []) p = Inr ((sched, jb_directives j), p')"
    by (auto simp: parse_job_def and_then_Inr)
  have "\<forall>d \<in> set (snd (sched, jb_directives j)). nest d \<le> MAX_BLOCK_DEPTH"
    by (rule p_loop_inv [where P = "\<lambda>b. \<forall>d \<in> set (snd b). nest d \<le> MAX_BLOCK_DEPTH", OF _ _ _ l])
      (auto dest: job_step_nest)
  then show ?thesis by simp
qed

lemma parse_item_nest: "parse_item ps = Inr (item, ps') \<Longrightarrow> item_nest item \<le> MAX_BLOCK_DEPTH"
proof -
  assume p: "parse_item ps = Inr (item, ps')"
  have "foldr max (map nest (df_directives d)) 0 \<le> MAX_BLOCK_DEPTH" if "parse_defaults q = Inr (d, q')" for d q q'
    using that by (auto simp: parse_defaults_def and_then_Inr foldr_max_le less_imp_le dest!: parse_blocks_nest)
  moreover have "foldr max (map nest (jb_directives j)) 0 \<le> MAX_BLOCK_DEPTH" if "parse_job q = Inr (j, q')" for j q q'
    using parse_job_nest [OF that] by (simp add: foldr_max_le)
  moreover have "foldr max (map block_nest (sb_blocks b)) 0 \<le> MAX_BLOCK_DEPTH"
    if "sub_blocks_block parse_named_block k q = Inr (b, q')" for b k q q'
    using sub_blocks_nest [OF parse_named_block_nest that] by (simp add: foldr_max_le)
  moreover have "foldr max (map block_nest (sb_blocks b)) 0 \<le> MAX_BLOCK_DEPTH"
    if "sub_blocks_block alerts_sub_block k q = Inr (b, q')" for b k q q'
    using sub_blocks_nest [OF alerts_sub_block_nest that] by (simp add: foldr_max_le)
  ultimately show ?thesis
    using p unfolding parse_item_def Let_def
    by (cases "kind (tok_peek (skip_terminators ps))")
      (auto simp: item_of_def and_then_Inr block_parsers split: if_splits)
qed

text \<open>C32: A file the parser accepts has blocks nested at most \<open>MAX_BLOCK_DEPTH\<close> deep in every item, which bounds
  the recursion of parsing and of every later walk over the tree.\<close>

theorem parse_nesting_bounded:
  assumes "parse source = Inr ast" and "item \<in> set (cf_items ast)"
  shows "item_nest item \<le> MAX_BLOCK_DEPTH"
proof -
  from assms(1) obtain p p' where l: "p_loop items_body [] p = Inr (cf_items ast, p')"
    by (auto simp: parse_def parse_croniqfile_def Let_def and_then_Inr split: sum.splits)
  have "\<forall>i \<in> set (cf_items ast). item_nest i \<le> MAX_BLOCK_DEPTH"
    by (rule p_loop_inv [where P = "\<lambda>is. \<forall>i \<in> set is. item_nest i \<le> MAX_BLOCK_DEPTH", OF _ _ _ l])
      (auto simp: items_body_def Let_def and_then_Inr split: if_splits dest: parse_item_nest)
  with assms(2) show ?thesis by blast
qed

theorem parse_nesting_bounded_witness:
  "\<exists>ast item. parse ''defaults { a { b } }'' = Inr ast \<and> item \<in> set (cf_items ast) \<and>
     item_nest item = 1 \<and> item_nest item \<le> MAX_BLOCK_DEPTH"
proof -
  let ?r = "parse ''defaults { a { b } }''"
  have "isl ?r = False \<and> map item_nest (cf_items (projr ?r)) = [1]" by code_simp
  then obtain ast item where "?r = Inr ast" "cf_items ast = [item]" "item_nest item = 1"
    by (cases ?r) auto
  with parse_nesting_bounded [of _ ast item] show ?thesis by auto
qed

subsection \<open>Calendars outside a file\<close>

text \<open>The tokens a stored rule list may consist of, and the rules they give: no value is a placeholder.\<close>

definition rule_tokens :: "Parser \<Rightarrow> bool" where
  "rule_tokens ps \<longleftrightarrow> (\<forall>t \<in> set (ptoks ps). rule_token_error t = None)"

definition rule_plain :: "AstCalendarRule \<Rightarrow> bool" where
  "rule_plain r \<longleftrightarrow> \<not> sv_placeholder (cr_type r) \<and> list_all (\<lambda>a. \<not> sv_placeholder a) (cr_args r)"

lemma first_error_None: "first_error ts = None \<longleftrightarrow> (\<forall>t \<in> set ts. rule_token_error t = None)"
  by (induction ts) (auto split: option.splits)

lemma rule_tokens_steps [simp]:
  "rule_tokens ps \<Longrightarrow> rule_tokens (advance ps)" "rule_tokens ps \<Longrightarrow> rule_tokens (skip_newlines ps)"
  by (cases "ptoks ps"; auto simp: rule_tokens_def advance_def skip_newlines_def dest: set_dropWhileD)+

lemma read_plain:
  assumes "rule_tokens ps" and "read_string_value ps = Inr (v, ps')"
  shows "\<not> sv_placeholder v \<and> rule_tokens ps'"
proof -
  from assms(2) have ps': "ps' = advance ps" and v: "string_value (kind (tok_peek ps)) (tspan (tok_peek ps)) = Some v"
    by (auto simp: read_string_value_def Let_def split: option.splits)
  have "rule_token_error (tok_peek ps) = None"
    using assms(1) by (auto simp: rule_tokens_def tok_peek_def rule_token_error_def token_new_def split: list.splits)
  with v have "\<not> sv_placeholder v"
    by (auto simp: rule_token_error_def string_value_def split: TokenKind.splits)
  with ps' assms(1) show ?thesis by simp
qed

lemma args_plain:
  "\<not> sv_placeholder a \<Longrightarrow> \<not> sv_placeholder b \<Longrightarrow> \<forall>x \<in> set (range_args ty a b). \<not> sv_placeholder x"
  "\<not> sv_placeholder a \<Longrightarrow> \<forall>x \<in> set (single_args ty a). \<not> sv_placeholder x"
  by (auto simp: range_args_def single_args_def plain_value_def Let_def split: option.splits)

abbreviation plain_args :: "StringValue list \<Rightarrow> Parser \<Rightarrow> bool" where
  "plain_args args ps \<equiv> rule_tokens ps \<and> (\<forall>a \<in> set args. \<not> sv_placeholder a)"

lemma calendar_arg_plain:
  assumes "plain_args args ps" and "calendar_arg ty args ps = Inr (args', ps')"
  shows "plain_args args' ps'"
proof -
  from assms(2) obtain a p where a: "read_string_value ps = Inr (a, p)"
    and r: "(if peek_kind p = DotDot then
        and_then (read_string_value (advance p)) (\<lambda>b ps. Inr (args @ range_args ty a b, ps))
      else Inr (args @ single_args ty a, p)) = Inr (args', ps')"
    by (auto simp: calendar_arg_def and_then_Inr)
  have p: "\<not> sv_placeholder a" "rule_tokens p" using read_plain [OF _ a] assms(1) by auto
  show ?thesis
  proof (cases "peek_kind p = DotDot")
    case True
    from r [unfolded if_P [OF True] and_then_Inr]
    obtain b where b: "read_string_value (advance p) = Inr (b, ps')" and bs: "args' = args @ range_args ty a b"
      by blast
    from p have "rule_tokens (advance p)" by simp
    from read_plain [OF this b] have b': "\<not> sv_placeholder b" "rule_tokens ps'" by simp_all
    from args_plain(1) [OF p(1) b'(1)] assms(1) b'(2) bs show ?thesis by auto
  qed (use r p assms(1) args_plain(2) [of a ty] in auto)
qed

lemma calendar_args_plain:
  assumes "plain_args args ps" and "calendar_args_body ty args ps = Inr (r, ps')"
    and "r = Continue args' \<or> r = Break args'"
  shows "plain_args args' ps'"
proof -
  from assms(2) consider "r = Break args" "ps' = ps"
    | bs p where "calendar_arg ty args ps = Inr (bs, p)" "r = Break bs \<and> ps' = advance p \<or> r = Continue bs \<and> ps' = p"
    by (auto simp: calendar_args_body_def Let_def and_then_Inr split: if_splits)
  then show ?thesis
  proof cases
    case 2
    have "plain_args bs p" by (rule calendar_arg_plain [OF assms(1) 2(1)])
    moreover from 2(2) assms(3) have "args' = bs \<and> (ps' = advance p \<or> ps' = p)" by blast
    ultimately show ?thesis by auto
  next
    case 1
    with assms(3) have "args' = args" by blast
    with 1 assms(1) show ?thesis by blast
  qed
qed

lemma parse_calendar_rule_plain:
  assumes "rule_tokens ps" and "parse_calendar_rule ps = Inr (r, ps')"
  shows "rule_plain r \<and> rule_tokens ps'"
proof (cases "calendar_rule_kind (tok_text (tok_peek ps))")
  case None
  with assms(2) obtain key p tz where a: "read_string_value ps = Inr (key, p)" "read_string_value p = Inr (tz, ps')"
    and r: "cr_type r = key" "cr_args r = [tz]"
    by (auto simp: parse_calendar_rule_def Let_def and_then_Inr split: if_splits)
  from read_plain [OF assms(1) a(1)] read_plain [OF _ a(2)] r show ?thesis by (simp add: rule_plain_def)
next
  case (Some k)
  with assms(2) obtain st p1 ty p2 args where
    a: "read_string_value ps = Inr (st, p1)" "read_string_value p1 = Inr (ty, p2)"
    and l: "p_loop (calendar_args_body (to_ascii_lowercase (sv_value ty))) [] p2 = Inr (args, ps')"
    and r: "cr_type r = ty" "cr_args r = args"
    by (auto simp: parse_calendar_rule_def Let_def and_then_Inr)
  from read_plain [OF assms(1) a(1)] read_plain [OF _ a(2)] have "plain_args [] p2" "\<not> sv_placeholder ty" by auto
  moreover have "plain_args args ps'"
    by (rule p_loop_inv_state [where P = plain_args, OF _ _ _ l])
      (erule (1) calendar_args_plain, simp, erule (1) calendar_args_plain, simp, fact)
  ultimately show ?thesis using r by (simp add: rule_plain_def list_all_iff)
qed

text \<open>C33: The rules of a calendar stored outside a Croniqfile give exactly one calendar, of the name it is
  stored under, and no placeholder reaches the syntax tree: the text cannot add another block, and nothing in it is
  resolved against the server's environment or files.\<close>

theorem stored_calendar_contained:
  assumes "parse_calendar_rules name rules = Inr ast"
  shows "\<exists>c. cf_items ast = [I_Calendar c] \<and> sv_value (cb_name c) = name \<and> \<not> sv_placeholder (cb_name c) \<and>
    list_all rule_plain (cb_rules c)"
proof -
  from assms obtain toks rs ps' where toks: "first_error toks = None"
    and l: "p_loop stored_rules_body [] \<lparr>ptoks = toks, depth = 0\<rparr> = Inr (rs, ps')"
    and c: "\<exists>c. cf_items ast = [I_Calendar c] \<and> sv_value (cb_name c) = name \<and> \<not> sv_placeholder (cb_name c) \<and>
      cb_rules c = rs"
    by (auto simp: parse_calendar_rules_def Let_def split: sum.splits option.splits)
  let ?P = "\<lambda>rs ps. rule_tokens ps \<and> list_all rule_plain rs"
  have "?P rs ps'"
  proof (rule p_loop_inv_state [where P = ?P, OF _ _ _ l])
    show "?P [] \<lparr>ptoks = toks, depth = 0\<rparr>" using toks by (simp add: rule_tokens_def first_error_None)
  qed (auto simp: stored_rules_body_def Let_def and_then_Inr split: if_splits
      dest: parse_calendar_rule_plain [OF rule_tokens_steps(2)])
  with c show ?thesis by blast
qed

theorem stored_calendar_contained_witness:
  "\<exists>ast c. parse_calendar_rules ''hours'' ''include annual 12-25'' = Inr ast \<and>
     cf_items ast = [I_Calendar c] \<and> sv_value (cb_name c) = ''hours'' \<and> list_all rule_plain (cb_rules c)"
proof -
  let ?r = "parse_calendar_rules ''hours'' ''include annual 12-25''"
  have "isl ?r = False" by code_simp
  then obtain ast where "?r = Inr ast" by (cases ?r) auto
  with stored_calendar_contained [of "''hours''" "''include annual 12-25''" ast] show ?thesis by blast
qed

end
