(* ===== verification/Format.thy ===== *)
theory Format
  imports Parser "HOL-Library.Multiset" "HOL-Library.Sublist"
begin

text \<open>
  The formatter of Croniqfiles, \<^verbatim>\<open>croniq-config/src/format.rs\<close>. The functions of the source append to
  a string; here they return what they append.
\<close>

subsection \<open>Lost comments\<close>

definition comments_of :: "string \<Rightarrow> string list" where
  "comments_of src =
     (case tokenize src of
        Inl _ \<Rightarrow> []
      | Inr tokens \<Rightarrow> List.map_filter (\<lambda>t. case kind t of Comment text \<Rightarrow> Some text | _ \<Rightarrow> None) tokens)"

definition swap_remove :: "nat \<Rightarrow> 'a list \<Rightarrow> 'a list" where
  "swap_remove i xs = butlast (xs[i := last xs])"

fun lose :: "string list \<Rightarrow> string list \<Rightarrow> string list" where
  "lose kept [] = []"
| "lose kept (c # cs) =
     (case position (\<lambda>k. k = c) kept of
        Some i \<Rightarrow> lose (swap_remove i kept) cs
      | None \<Rightarrow> c # lose kept cs)"

definition lost_comments :: "string \<Rightarrow> string \<Rightarrow> string list" where
  "lost_comments source formatted = lose (comments_of formatted) (comments_of source)"

subsection \<open>Values and directives\<close>

definition indent_str :: "nat \<Rightarrow> string" where
  "indent_str level = concat (replicate level ''  '')"

definition line :: "string \<Rightarrow> string" where
  "line s = s @ [NL]"

definition format_string_value :: "StringValue \<Rightarrow> string" where
  "format_string_value val =
     (if sv_placeholder val then ''{'' @ sv_value val @ ''}''
      else if sv_quoted val then quote_string (sv_value val)
      else sv_value val)"

definition directive_text :: "Directive \<Rightarrow> string" where
  "directive_text d =
     format_string_value (d_key d) @ concat (map (\<lambda>arg. '' '' @ format_string_value arg) (d_args d))"

definition format_directives :: "nat \<Rightarrow> Directive list \<Rightarrow> string" where
  "format_directives indent ds = concat (map (\<lambda>d. indent_str indent @ line (directive_text d)) ds)"

definition block_head :: "StringValue \<Rightarrow> StringValue option \<Rightarrow> string" where
  "block_head name qualifier =
     format_string_value name @ (case qualifier of None \<Rightarrow> [] | Some q \<Rightarrow> '' '' @ format_string_value q)"

fun is_directive :: "DirectiveOrBlock \<Rightarrow> bool" where
  "is_directive (DDirective _) = True"
| "is_directive _ = False"

fun arg_count :: "DirectiveOrBlock \<Rightarrow> nat" where
  "arg_count (DDirective d) = 1 + length (d_args d)"
| "arg_count _ = 10"

definition is_inline :: "DirectiveOrBlock list \<Rightarrow> bool" where
  "is_inline ds \<longleftrightarrow> list_all is_directive ds \<and> length ds \<le> 4 \<and> sum_list (map arg_count ds) \<le> 8"

fun inline_text :: "bool \<Rightarrow> DirectiveOrBlock list \<Rightarrow> string" where
  "inline_text first [] = []"
| "inline_text first (DDirective d # ds) =
     (if first then [] else '';'') @ '' '' @ directive_text d @ inline_text False ds"
| "inline_text first (_ # ds) = inline_text False ds"

fun format_directive_or_block :: "nat \<Rightarrow> DirectiveOrBlock \<Rightarrow> string"
  and format_named_block :: "nat \<Rightarrow> NamedBlock \<Rightarrow> string" where
  "format_directive_or_block indent (DDirective d) = indent_str indent @ line (directive_text d)"
| "format_directive_or_block indent (DBlock b) = format_named_block indent b"
| "format_directive_or_block indent (DComment c) = indent_str indent @ line (''# '' @ c_text c)"
| "format_named_block indent (NamedBlock name qualifier ds sp) =
     indent_str indent @ block_head name qualifier @
     (if is_inline ds then '' {'' @ inline_text True ds @ line '' }''
      else line '' {'' @ concat (map (format_directive_or_block (indent + 1)) ds) @ indent_str indent @ line ''}'')"

definition format_directives_or_blocks :: "nat \<Rightarrow> DirectiveOrBlock list \<Rightarrow> string" where
  "format_directives_or_blocks indent items = concat (map (format_directive_or_block indent) items)"

subsection \<open>Schedules\<close>

fun weekday_short :: "Weekday \<Rightarrow> string" where
  "weekday_short Monday = ''Mon''"
| "weekday_short Tuesday = ''Tue''"
| "weekday_short Wednesday = ''Wed''"
| "weekday_short Thursday = ''Thu''"
| "weekday_short Friday = ''Fri''"
| "weekday_short Saturday = ''Sat''"
| "weekday_short Sunday = ''Sun''"

definition emit_run :: "nat \<Rightarrow> nat \<Rightarrow> string" where
  "emit_run start fin =
     (if fin - start + 1 \<ge> 3 then weekday_short (WEEK_ALL ! start) @ ''..'' @ weekday_short (WEEK_ALL ! fin)
      else join '' '' (map (\<lambda>i. weekday_short (WEEK_ALL ! i)) [start ..< Suc fin]))"

fun week_runs :: "nat \<Rightarrow> nat \<Rightarrow> nat list \<Rightarrow> string list" where
  "week_runs run_start run_end [] = [emit_run run_start run_end]"
| "week_runs run_start run_end (i # is) =
     (if i = run_end + 1 then week_runs run_start i is
      else emit_run run_start run_end # week_runs i i is)"

definition format_weekday_list :: "Weekday list \<Rightarrow> string" where
  "format_weekday_list days =
     (if days = [] then []
      else
        let indices = filter (\<lambda>i. WEEK_ALL ! i \<in> set days) [0 ..< 7]
        in if indices = [0, 1, 2, 3, 4] then ''weekday''
           else if indices = [5, 6] then ''weekend''
           else join '' '' (week_runs (indices ! 0) (indices ! 0) (tl indices)))"

definition format_ordinal :: "nat \<Rightarrow> string" where
  "format_ordinal day =
     show_nat day @
     (if day \<in> {1, 21, 31} then ''st'' else if day \<in> {2, 22} then ''nd'' else if day \<in> {3, 23} then ''rd'' else ''th'')"

fun ordinal_text :: "MonthOrdinal \<Rightarrow> string" where
  "ordinal_text (MO_Day d) = format_ordinal d"
| "ordinal_text MO_Last = ''last''"

fun unit_str :: "IntervalUnit \<Rightarrow> string" where
  "unit_str Seconds = ''second''"
| "unit_str Minutes = ''minute''"
| "unit_str Hours = ''hour''"

fun format_schedule_line :: "ScheduleKind \<Rightarrow> string" where
  "format_schedule_line (K_Interval n unit) = ''every '' @ interval_phrase n (unit_str unit)"
| "format_schedule_line (K_Daily time) = ''every day at '' @ tv_raw time"
| "format_schedule_line (K_Weekdays days time) = ''every '' @ format_weekday_list days @ '' at '' @ tv_raw time"
| "format_schedule_line (K_Monthly ordinals time) =
     ''every '' @ join '' '' (map ordinal_text ordinals) @ '' of month at '' @ tv_raw time"
| "format_schedule_line (K_Once at) = ''once at '' @ format_string_value at"
| "format_schedule_line K_Disabled = ''disabled''"

fun mode_text :: "ScheduleMode option \<Rightarrow> string" where
  "mode_text (Some Ephemeral) = ''ephemeral ''"
| "mode_text (Some Queued) = ''queued ''"
| "mode_text None = []"

definition format_schedule :: "nat \<Rightarrow> ScheduleNode \<Rightarrow> string" where
  "format_schedule indent sched =
     indent_str indent @ mode_text (sn_mode sched) @ format_schedule_line (sn_kind sched) @
     (if sn_options sched = [] then [NL]
      else line '' {'' @ format_directives (indent + 1) (sn_options sched) @ indent_str indent @ line ''}'')"

subsection \<open>Jobs\<close>

fun is_description :: "DirectiveOrBlock \<Rightarrow> bool" where
  "is_description (DDirective d) = (sv_value (d_key d) = ''description'')"
| "is_description _ = False"

definition format_job :: "nat \<Rightarrow> JobBlock \<Rightarrow> string" where
  "format_job indent job =
     (let ds = jb_directives job; description = position is_description ds
      in line (''job '' @ format_job_key (jk_raw (jb_key job)) @ '' {'') @
         (case description of None \<Rightarrow> [] | Some i \<Rightarrow> format_directive_or_block (indent + 1) (ds ! i) @ [NL]) @
         (case jb_schedule job of None \<Rightarrow> [] | Some sched \<Rightarrow> format_schedule (indent + 1) sched) @
         concat (map (\<lambda>(i, dob). if Some i \<noteq> description then format_directive_or_block (indent + 1) dob else [])
                  (List.enumerate 0 ds)) @
         line ''}'')"

subsection \<open>Calendar rules\<close>

definition args_text :: "StringValue list \<Rightarrow> string" where
  "args_text args = concat (map (\<lambda>arg. '' '' @ format_string_value arg) args)"

fun rule_kind_text :: "CalendarRuleKind \<Rightarrow> string" where
  "rule_kind_text Include = ''include''"
| "rule_kind_text Exclude = ''exclude''"

definition weekly_arg_days :: "StringValue list \<Rightarrow> Weekday list option" where
  "weekly_arg_days args = those (map (\<lambda>a. weekday_parse (sv_value a)) args)"

definition format_calendar_rule_line :: "AstCalendarRule \<Rightarrow> string" where
  "format_calendar_rule_line rule =
     (let ty = to_ascii_lowercase (sv_value (cr_type rule)); type_text = format_string_value (cr_type rule)
      in if ty = ''timezone'' then type_text @ args_text (cr_args rule)
         else
           let s = rule_kind_text (cr_kind rule) @ '' '' @ type_text;
               otherwise =
                 (if ty = ''window'' \<and> length (cr_args rule) = 2 then
                    s @ '' '' @ format_string_value (cr_args rule ! 0) @ ''..'' @ format_string_value (cr_args rule ! 1)
                  else s @ args_text (cr_args rule))
           in if ty = ''weekly'' then
                (case weekly_arg_days (cr_args rule) of
                   Some days \<Rightarrow> if days \<noteq> [] then s @ '' '' @ format_weekday_list days else otherwise
                 | None \<Rightarrow> otherwise)
              else otherwise)"

definition format_calendar_rule :: "nat \<Rightarrow> AstCalendarRule \<Rightarrow> string" where
  "format_calendar_rule indent rule = indent_str indent @ line (format_calendar_rule_line rule)"

definition loose_calendar_rule_line :: "string \<Rightarrow> string \<Rightarrow> string list \<Rightarrow> string" where
  "loose_calendar_rule_line action rule_type args =
     (let ty = to_ascii_lowercase rule_type
      in if ty = ''timezone'' then
           (case args of tz # _ \<Rightarrow> ''timezone '' @ [CHR 0x22] @ tz @ [CHR 0x22] | [] \<Rightarrow> ''timezone'')
         else
           let action = (if action = ''exclude'' then ''exclude'' else ''include'');
               body = (if args = [] then []
                       else if ty = ''window'' \<and> length args = 2 then
                         [CHR 0x22] @ args ! 0 @ [CHR 0x22] @ ''..'' @ [CHR 0x22] @ args ! 1 @ [CHR 0x22]
                       else join '' '' args)
           in if body = [] then action @ '' '' @ rule_type else action @ '' '' @ rule_type @ '' '' @ body)"

fun first_rule :: "Item list \<Rightarrow> AstCalendarRule option" where
  "first_rule [] = None"
| "first_rule (I_Calendar c # items) = (case cb_rules c of r # _ \<Rightarrow> Some r | [] \<Rightarrow> first_rule items)"
| "first_rule (_ # items) = first_rule items"

definition reparse_calendar_rule_line :: "string \<Rightarrow> string option" where
  "reparse_calendar_rule_line loose =
     (case parse (''calendar preview {'' @ [NL] @ loose @ [NL] @ ''}'' @ [NL]) of
        Inl _ \<Rightarrow> None
      | Inr ast \<Rightarrow> map_option format_calendar_rule_line (first_rule (cf_items ast)))"

definition format_calendar_rule_parts :: "string \<Rightarrow> string \<Rightarrow> string list \<Rightarrow> string" where
  "format_calendar_rule_parts action rule_type args =
     (let loose = loose_calendar_rule_line action rule_type args
      in case reparse_calendar_rule_line loose of Some s \<Rightarrow> s | None \<Rightarrow> loose)"

subsection \<open>The file\<close>

definition block_text :: "string \<Rightarrow> string \<Rightarrow> string" where
  "block_text head body = line (head @ '' {'') @ body @ line ''}''"

definition sub_blocks_text :: "nat \<Rightarrow> NamedBlock list \<Rightarrow> string" where
  "sub_blocks_text indent bs = concat (map (format_named_block indent) bs)"

fun format_item :: "nat \<Rightarrow> Item \<Rightarrow> string" where
  "format_item indent (I_Comment c) = indent_str indent @ line (''# '' @ c_text c)"
| "format_item indent (I_Import i) = line (''import '' @ format_string_value (im_path i))"
| "format_item indent (I_Server s) = block_text ''server'' (format_directives (indent + 1) (db_directives s))"
| "format_item indent (I_Smtp s) = block_text ''smtp'' (format_directives (indent + 1) (db_directives s))"
| "format_item indent (I_PullApi p) = block_text ''pull_api'' (format_directives (indent + 1) (db_directives p))"
| "format_item indent (I_Mcp m) = block_text ''mcp'' (format_directives (indent + 1) (db_directives m))"
| "format_item indent (I_Oidc x) = block_text ''oidc'' (format_directives (indent + 1) (db_directives x))"
| "format_item indent (I_Auth a) = block_text ''auth'' (sub_blocks_text (indent + 1) (sb_blocks a))"
| "format_item indent (I_Policy p) = block_text ''policy'' (format_directives (indent + 1) (db_directives p))"
| "format_item indent (I_Alerts a) = block_text ''alerts'' (sub_blocks_text (indent + 1) (sb_blocks a))"
| "format_item indent (I_Observability x) = block_text ''observability'' (sub_blocks_text (indent + 1) (sb_blocks x))"
| "format_item indent (I_Vars v) = block_text ''vars'' (format_directives (indent + 1) (db_directives v))"
| "format_item indent (I_Defaults d) = block_text ''defaults'' (format_directives_or_blocks (indent + 1) (df_directives d))"
| "format_item indent (I_Calendar c) =
     block_text (''calendar '' @ format_string_value (cb_name c))
       (concat (map (format_calendar_rule (indent + 1)) (cb_rules c)))"
| "format_item indent (I_ConcurrencyGroup g) =
     block_text (''concurrency_group '' @ format_string_value (cg_name g))
       (format_directives (indent + 1) (cg_directives g))"
| "format_item indent (I_Job j) = format_job indent j"

fun is_comment_item :: "Item \<Rightarrow> bool" where
  "is_comment_item (I_Comment _) = True"
| "is_comment_item _ = False"

fun format_items :: "bool \<Rightarrow> Item list \<Rightarrow> string" where
  "format_items first [] = []"
| "format_items first (item # items) =
     (if \<not> first \<and> \<not> is_comment_item item then [NL] else []) @ format_item 0 item @ format_items False items"

definition format :: "Croniqfile \<Rightarrow> string" where
  "format ast =
     (let out = format_items True (cf_items ast)
      in if out \<noteq> [] \<and> last out = NL then out else out @ [NL])"

subsection \<open>Lemmas: comments\<close>

lemma swap_remove_mset:
  assumes "i < length xs"
  shows "mset (swap_remove i xs) = mset xs - {#xs ! i#}"
proof -
  let ?ys = "xs[i := last xs]"
  have ne: "?ys \<noteq> []" "xs \<noteq> []" using assms by auto
  have "last ?ys = last xs" using ne(2) by (simp add: last_list_update)
  moreover have "mset (butlast ?ys @ [last ?ys]) = mset ?ys" using ne(1) by simp
  moreover have "mset ?ys = add_mset (last xs) (mset xs - {#xs ! i#})"
    using assms by (simp add: mset_update)
  ultimately show ?thesis by (simp add: swap_remove_def)
qed

lemma lose_mset: "mset (lose kept cs) = mset cs - mset kept"
proof (induction cs arbitrary: kept)
  case (Cons c cs)
  show ?case
  proof (cases "position (\<lambda>k. k = c) kept")
    case None
    then have "c \<notin> set kept" by (auto simp: position_None)
    with None Cons show ?thesis by (simp add: diff_add_mset_swap)
  next
    case (Some i)
    from position_Some [OF this] have i: "i < length kept" "kept ! i = c" by auto
    then have "mset kept = add_mset c (mset kept - {#c#})" by auto
    then have "add_mset c (mset cs) - mset kept = mset cs - (mset kept - {#c#})"
      by (metis add_mset_diff_bothsides)
    with i show ?thesis by (simp add: Some Cons swap_remove_mset)
  qed
qed simp

lemma lose_subseq: "subseq (lose kept cs) cs"
  by (induction kept cs rule: lose.induct) (auto split: option.splits)

text \<open>C34: The comments reported as lost are those of the source, as a multiset, less those of the formatted
  text, in the order of the source: a comment that occurs twice in the source and once in the result is reported
  once, and nothing is reported exactly when the result keeps every comment.\<close>

theorem lost_comments_multiset:
  "mset (lost_comments source formatted) = mset (comments_of source) - mset (comments_of formatted) \<and>
   subseq (lost_comments source formatted) (comments_of source) \<and>
   (lost_comments source formatted = [] \<longleftrightarrow> mset (comments_of source) \<subseteq># mset (comments_of formatted))"
proof -
  have m: "mset (lost_comments source formatted) = mset (comments_of source) - mset (comments_of formatted)"
    by (simp add: lost_comments_def lose_mset)
  then have "lost_comments source formatted = [] \<longleftrightarrow>
      mset (comments_of source) - mset (comments_of formatted) = {#}"
    by (metis mset_zero_iff)
  with m show ?thesis by (simp add: lost_comments_def lose_subseq Diff_eq_empty_iff_mset)
qed

end
