(* ===== verification/Relex.thy ===== *)
theory Relex
  imports Format
begin

text \<open>
  What the lexer makes of the text the formatter writes. \<open>lexes s ks r\<close> says that reading the text \<open>s\<close> gives tokens
  of the kinds \<open>ks\<close> and then goes on with \<open>r\<close>, wherever \<open>s\<close> stands in a source.
\<close>

definition lexes :: "string \<Rightarrow> TokenKind list \<Rightarrow> string \<Rightarrow> bool" where
  "lexes s ks r \<longleftrightarrow>
     (\<forall>p acc. \<exists>p' ts. map kind ts = ks \<and>
        tokenize_from \<lparr>lpos = p, rest = s\<rparr> acc = tokenize_from \<lparr>lpos = p', rest = r\<rparr> (acc @ ts))"

lemma lexes_refl [simp]: "lexes s [] s"
  unfolding lexes_def by (metis append_Nil2 list.map(1))

lemma lexes_trans:
  assumes "lexes s ks t" and "lexes t ls r"
  shows "lexes s (ks @ ls) r"
  unfolding lexes_def
proof (intro allI)
  fix p acc
  from assms(1) obtain p1 ts where 1: "map kind ts = ks"
    "tokenize_from \<lparr>lpos = p, rest = s\<rparr> acc = tokenize_from \<lparr>lpos = p1, rest = t\<rparr> (acc @ ts)"
    unfolding lexes_def by blast
  from assms(2) obtain p2 us where 2: "map kind us = ls"
    "tokenize_from \<lparr>lpos = p1, rest = t\<rparr> (acc @ ts) = tokenize_from \<lparr>lpos = p2, rest = r\<rparr> ((acc @ ts) @ us)"
    unfolding lexes_def by blast
  show "\<exists>p' vs. map kind vs = ks @ ls \<and>
      tokenize_from \<lparr>lpos = p, rest = s\<rparr> acc = tokenize_from \<lparr>lpos = p', rest = r\<rparr> (acc @ vs)"
    by (rule exI [of _ p2], rule exI [of _ "ts @ us"]) (simp add: 1 2)
qed

lemma lexes_Cons: "lexes s [k] t \<Longrightarrow> lexes t ks r \<Longrightarrow> lexes s (k # ks) r"
  using lexes_trans [of s "[k]" t ks r] by simp

lemma lexes_step:
  assumes "\<And>p. \<exists>sp p'. next_token \<lparr>lpos = p, rest = s\<rparr> = (Inr (token_new k sp), \<lparr>lpos = p', rest = r\<rparr>)"
    and "k \<noteq> Eof"
  shows "lexes s [k] r"
  unfolding lexes_def
proof (intro allI)
  fix p acc
  from assms(1) obtain sp p' where
    "next_token \<lparr>lpos = p, rest = s\<rparr> = (Inr (token_new k sp), \<lparr>lpos = p', rest = r\<rparr>)" by blast
  from tokenize_from_step [OF this, of acc] assms(2)
  show "\<exists>p' ts. map kind ts = [k] \<and>
      tokenize_from \<lparr>lpos = p, rest = s\<rparr> acc = tokenize_from \<lparr>lpos = p', rest = r\<rparr> (acc @ ts)"
    by (intro exI [of _ p'] exI [of _ "[token_new k sp]"]) (simp add: token_new_def)
qed

lemma lexes_tokens:
  assumes "lexes s ks []"
  shows "\<exists>toks. tokenize s = Inr toks \<and> map kind toks = ks @ [Eof]"
proof -
  from assms obtain p ts where "map kind ts = ks"
    "tokenize_from \<lparr>lpos = 0, rest = s\<rparr> [] = tokenize_from \<lparr>lpos = p, rest = []\<rparr> ([] @ ts)"
    unfolding lexes_def by blast
  then show ?thesis
    by (simp add: tokenize_def lexer_new_def tokenize_from_end token_new_def)
qed

subsection \<open>Blanks\<close>

lemma skip_spaces_blank: "b \<in> {CHR '' '', CHR 0x09, CHR 0x0D} \<Longrightarrow>
    skip_spaces \<lparr>lpos = p, rest = b # s\<rparr> = skip_spaces \<lparr>lpos = p + 1, rest = s\<rparr>"
  by (auto simp: skip_spaces_def skip_while_def bump_def)

lemma tokenize_blank: "tokenize_from \<lparr>lpos = p, rest = CHR '' '' # s\<rparr> acc = tokenize_from \<lparr>lpos = p + 1, rest = s\<rparr> acc"
proof -
  have "next_token \<lparr>lpos = p, rest = CHR '' '' # s\<rparr> = next_token \<lparr>lpos = p + 1, rest = s\<rparr>"
    by (simp add: next_token_def skip_spaces_blank)
  then show ?thesis by (subst (1 2) tokenize_from.simps) simp
qed

lemma lexes_space: "lexes s ks r \<Longrightarrow> lexes (CHR '' '' # s) ks r"
  unfolding lexes_def using tokenize_blank by metis

lemma lexes_indent: "lexes s ks r \<Longrightarrow> lexes (indent_str n @ s) ks r"
  by (induction n) (auto simp: indent_str_def intro!: lexes_space)

subsection \<open>Single tokens\<close>

definition stops :: "string \<Rightarrow> bool" where
  "stops tail \<longleftrightarrow> tail = [] \<or> \<not> is_ident_char (hd tail)"

lemma lexes_word: "word_ok w \<Longrightarrow> w \<noteq> [] \<Longrightarrow> stops r \<Longrightarrow> lexes (w @ r) [Ident w] r"
  by (rule lexes_step) (auto simp: stops_def next_token_ident)

lemma lexes_quote: "lexes (quote_string v @ r) [QuotedString v] r"
  by (rule lexes_step) (auto simp: next_token_quote)

lemma next_token_punct:
  assumes "b \<in> {CHR ''}'', CHR '';''}"
  shows "next_token \<lparr>lpos = p, rest = b # s\<rparr> =
    (Inr (token_new (if b = CHR ''}'' then RBrace else Semicolon) (span_new p 1)), \<lparr>lpos = p + 1, rest = s\<rparr>)"
  using assms skip_spaces_id [of "b # s" p] by (auto simp: next_token_def lex_peek_def bump_def Let_def)

lemma lexes_rbrace: "lexes (CHR ''}'' # r) [RBrace] r"
  by (rule lexes_step) (auto simp: next_token_punct)

lemma lexes_semicolon: "lexes (CHR '';'' # r) [Semicolon] r"
  by (rule lexes_step) (auto simp: next_token_punct)

text \<open>An opening brace of the formatter is followed by a blank or a line break, so it starts no placeholder.\<close>

lemma lexes_lbrace:
  assumes "r = b # s" and "b = CHR '' '' \<or> b = NL"
  shows "lexes (CHR ''{'' # r) [LBrace] r"
proof (rule lexes_step)
  fix p
  have "\<not> is_placeholder_start \<lparr>lpos = p, rest = CHR ''{'' # r\<rparr>"
    using assms by (auto simp: is_placeholder_start_def lex_peek_at_def strip_prefix_def)
  then show "\<exists>sp p'. next_token \<lparr>lpos = p, rest = CHR ''{'' # r\<rparr> =
      (Inr (token_new LBrace sp), \<lparr>lpos = p', rest = r\<rparr>)"
    using skip_spaces_id [of "CHR ''{'' # r" p] by (auto simp: next_token_def lex_peek_def bump_def Let_def)
qed simp

abbreviation blank :: "char \<Rightarrow> bool" where
  "blank c \<equiv> c = NL \<or> c = CHR 0x0D \<or> c = CHR '' '' \<or> c = CHR 0x09"

lemma lexes_newline_drop: "lexes (NL # s) [Newline] (dropWhile blank s)"
proof (rule lexes_step)
  fix p
  show "\<exists>sp p'. next_token \<lparr>lpos = p, rest = NL # s\<rparr> =
      (Inr (token_new Newline sp), \<lparr>lpos = p', rest = dropWhile blank s\<rparr>)"
    using skip_spaces_id [of "NL # s" p]
    by (auto simp: next_token_def lex_peek_def bump_def Let_def skip_while_def dropWhile_eq_drop)
qed simp

lemma lexes_blanks:
  assumes "lexes s ks r" and "list_all blank bl" and "s = [] \<or> \<not> blank (hd s)"
  shows "lexes (NL # bl @ s) (Newline # ks) r"
proof -
  have "dropWhile blank (bl @ s) = s"
    using assms(2,3) by (cases s) (auto simp: list_all_iff dropWhile_append)
  with lexes_newline_drop [of "bl @ s"] assms(1) show ?thesis by (simp add: lexes_Cons)
qed

lemma indent_blank: "list_all blank (indent_str n)"
  by (auto simp: indent_str_def list_all_iff)

lemma lexes_newline:
  "lexes s ks r \<Longrightarrow> s = [] \<or> \<not> blank (hd s) \<Longrightarrow> lexes (NL # indent_str n @ s) (Newline # ks) r"
  by (intro lexes_blanks indent_blank)

lemma lexes_blank_line:
  "lexes s ks r \<Longrightarrow> s = [] \<or> \<not> blank (hd s) \<Longrightarrow> lexes (NL # NL # indent_str n @ s) (Newline # ks) r"
  using lexes_blanks [of s ks r "NL # indent_str n"] by (simp add: indent_blank)

lemma lexes_dots: "lexes (''..'' @ r) [DotDot] r"
proof (rule lexes_step)
  fix p
  show "\<exists>sp p'. next_token \<lparr>lpos = p, rest = ''..'' @ r\<rparr> = (Inr (token_new DotDot sp), \<lparr>lpos = p', rest = r\<rparr>)"
    using skip_spaces_id [of "''..'' @ r" p]
    by (auto simp: next_token_def lex_peek_def lex_peek_at_def bump_def Let_def)
qed simp

lemma lexes_word_dots:
  assumes "word_ok w" and "w \<noteq> []" and "last w \<noteq> CHR ''.''"
  shows "lexes (w @ ''..'' @ r) [Ident w] (''..'' @ r)"
proof (rule lexes_step)
  fix p
  let ?lx = "\<lparr>lpos = p, rest = w @ ''..'' @ r\<rparr>"
  obtain b bs where w: "w = b # bs" using assms(2) by (cases w) auto
  have b: "is_ident_char b" and dots: "\<not> (b = CHR ''.'' \<and> bs \<noteq> [] \<and> hd bs = CHR ''.'')"
    using assms(1) w by auto
  note sp = ident_char_not_special [OF b]
  have "skip_spaces ?lx = ?lx" by (rule skip_spaces_id) (use w sp in auto)
  moreover have "\<not> (b = CHR ''.'' \<and> lex_peek_at 1 ?lx = Some (CHR ''.''))"
    using dots assms(3) unfolding w by (cases bs) (auto simp: lex_peek_at_def)
  moreover have "ident_prefix (w @ ''..'' @ r) = w"
    using assms by (intro ident_prefix_word) auto
  ultimately have "next_token ?lx =
      (Inr (token_new (Ident w) (span_new p (length w))), \<lparr>lpos = p + length w, rest = ''..'' @ r\<rparr>)"
    using sp w by (auto simp: next_token_def lex_peek_def lex_ident_def bump_def Let_def)
  then show "\<exists>sp p'. next_token ?lx = (Inr (token_new (Ident w) sp), \<lparr>lpos = p', rest = ''..'' @ r\<rparr>)" by blast
qed simp

lemma lexes_comment:
  assumes "NL \<notin> set t" and "trim_end_utf8 t = t"
  shows "lexes (''# '' @ t @ NL # r) [Comment t] (NL # r)"
proof (rule lexes_step)
  fix p
  have "takeWhile (\<lambda>b. b \<noteq> NL) (t @ NL # r) = t"
    using assms(1) by (induction t) auto
  then show "\<exists>sp p'. next_token \<lparr>lpos = p, rest = ''# '' @ t @ NL # r\<rparr> =
      (Inr (token_new (Comment t) sp), \<lparr>lpos = p', rest = NL # r\<rparr>)"
    using skip_spaces_id [of "''# '' @ t @ NL # r" p] assms(2)
    by (auto simp: next_token_def lex_comment_def lex_peek_def bump_def Let_def)
qed simp

text \<open>The contents of a placeholder: a known prefix, braces that match, no line break.\<close>

fun braces_match :: "nat \<Rightarrow> string \<Rightarrow> bool" where
  "braces_match d [] \<longleftrightarrow> d = 0"
| "braces_match d (b # bs) \<longleftrightarrow>
     b \<noteq> NL \<and> (if b = CHR ''{'' then braces_match (d + 1) bs
               else if b = CHR ''}'' then 0 < d \<and> braces_match (d - 1) bs
               else braces_match d bs)"

definition placeholder_ok :: "string \<Rightarrow> bool" where
  "placeholder_ok v \<longleftrightarrow>
     (v \<noteq> [] \<and> hd v = CHR ''$'' \<or> strip_prefix v ''env.'' \<noteq> None \<or> strip_prefix v ''file.'' \<noteq> None \<or>
      strip_prefix v ''vars.'' \<noteq> None) \<and> braces_match 0 v"

lemma placeholder_body_reads_back:
  "braces_match d v \<Longrightarrow>
     placeholder_body st (Suc d) p (v @ CHR ''}'' # r) acc = (Inr (acc @ v), \<lparr>lpos = p + length v + 1, rest = r\<rparr>)"
proof (induction d v arbitrary: p acc rule: braces_match.induct)
  case (2 d b bs)
  then show ?case by (cases d) (auto split: if_splits)
qed simp

lemma strip_prefix_append: "strip_prefix v pre \<noteq> None \<Longrightarrow> strip_prefix (v @ r) pre \<noteq> None"
  by (auto simp: strip_prefix_Some)

lemma lexes_placeholder:
  assumes "placeholder_ok v"
  shows "lexes (''{'' @ v @ ''}'' @ r) [Placeholder v] r"
proof (rule lexes_step)
  fix p
  have "v \<noteq> []" using assms by (auto simp: placeholder_ok_def strip_prefix_def)
  then have start: "is_placeholder_start \<lparr>lpos = p, rest = ''{'' @ v @ ''}'' @ r\<rparr>"
    using assms strip_prefix_append [of v _ "''}'' @ r"]
    by (auto simp: placeholder_ok_def is_placeholder_start_def lex_peek_at_def nth_append hd_conv_nth)
  have "placeholder_body p (Suc 0) (Suc p) (v @ CHR ''}'' # r) [] = (Inr v, \<lparr>lpos = Suc p + length v + 1, rest = r\<rparr>)"
    using assms placeholder_body_reads_back [of 0 v p "Suc p" r "[]"] by (simp add: placeholder_ok_def)
  then show "\<exists>sp p'. next_token \<lparr>lpos = p, rest = ''{'' @ v @ ''}'' @ r\<rparr> =
      (Inr (token_new (Placeholder v) sp), \<lparr>lpos = p', rest = r\<rparr>)"
    using skip_spaces_id [of "''{'' @ v @ ''}'' @ r" p] start
    by (auto simp: next_token_def lex_placeholder_def lex_peek_def bump_def Let_def)
qed simp

end
