(* ===== verification/Reparse.thy ===== *)
theory Reparse
  imports Relex
begin

text \<open>
  What the parser makes of tokens of given kinds. The spans of the tokens only end up in the spans of the syntax
  tree, so a function of the parser is followed on the list of the kinds that remain; trees are compared
  with their spans erased.
\<close>

subsection \<open>States by the kinds of their tokens\<close>

definition at :: "nat \<Rightarrow> TokenKind list \<Rightarrow> Parser \<Rightarrow> bool" where
  "at d ks ps \<longleftrightarrow> ps_ok ps \<and> depth ps = d \<and> map kind (ptoks ps) = ks"

definition gives :: "'a parsed \<Rightarrow> ('a \<Rightarrow> bool) \<Rightarrow> (Parser \<Rightarrow> bool) \<Rightarrow> bool" where
  "gives r P S \<longleftrightarrow> (\<exists>x ps. r = Inr (x, ps) \<and> P x \<and> S ps)"

lemma gives_ret: "P x \<Longrightarrow> S ps \<Longrightarrow> gives (Inr (x, ps)) P S"
  by (auto simp: gives_def)

lemma gives_then:
  assumes "gives r P S" and "\<And>x ps. P x \<Longrightarrow> S ps \<Longrightarrow> gives (f x ps) Q T"
  shows "gives (and_then r f) Q T"
  using assms by (auto simp: gives_def and_then_def)

lemma gives_weaken: "gives r P S \<Longrightarrow> (\<And>x. P x \<Longrightarrow> Q x) \<Longrightarrow> (\<And>ps. S ps \<Longrightarrow> T ps) \<Longrightarrow> gives r Q T"
  by (auto simp: gives_def)

lemma at_ok: "at d ks ps \<Longrightarrow> ps_ok ps"
  by (simp add: at_def)

lemma at_peek [simp]: "at d (k # ks) ps \<Longrightarrow> peek_kind ps = k" "at d (k # ks) ps \<Longrightarrow> kind (tok_peek ps) = k"
  by (auto simp: at_def peek_kind_def tok_peek_def split: list.splits)

definition kind_text :: "TokenKind \<Rightarrow> string" where
  "kind_text k = (case k of Ident s \<Rightarrow> s | QuotedString s \<Rightarrow> s | Placeholder s \<Rightarrow> s | _ \<Rightarrow> [])"

lemma kind_text_simps [simp]:
  "kind_text (Ident s) = s" "kind_text (QuotedString s) = s" "kind_text (Placeholder s) = s"
  "kind_text Newline = []" "kind_text RBrace = []" "kind_text LBrace = []" "kind_text DotDot = []"
  "kind_text Semicolon = []" "kind_text (Comment c) = []" "kind_text Eof = []"
  by (simp_all add: kind_text_def)

lemma at_text [simp]: "at d (k # ks) ps \<Longrightarrow> tok_text (tok_peek ps) = kind_text k"
  using at_peek(2) [of d k ks ps] by (simp add: tok_text_def kind_text_def)

lemma at_ident [simp]: "at d (k # ks) ps \<Longrightarrow> is_ident n (tok_peek ps) \<longleftrightarrow> k = Ident n"
  using at_peek(2) [of d k ks ps] by (auto simp: is_ident_def split: TokenKind.splits)

lemma at_end_simp [simp]: "at d (k # ks) ps \<Longrightarrow> at_end ps \<longleftrightarrow> k = Eof"
  by (simp add: at_end_def)

lemma at_advance: "at d (k # ks) ps \<Longrightarrow> ks \<noteq> [] \<Longrightarrow> at d ks (advance ps)"
  by (cases "ptoks ps") (auto simp: at_def ps_ok_def advance_def)

lemma at_dropWhile:
  assumes "at d ks ps" and "\<not> P Eof"
  shows "at d (dropWhile P ks) (ps\<lparr>ptoks := dropWhile (\<lambda>t. P (kind t)) (ptoks ps)\<rparr>)"
proof -
  have "after_eq ps (ps\<lparr>ptoks := dropWhile (\<lambda>t. P (kind t)) (ptoks ps)\<rparr>)"
    using assms by (intro skip_after_eq) (auto simp: at_def)
  then show ?thesis using assms(1) by (auto simp: at_def after_eq_def dropWhile_map comp_def)
qed

lemma at_skip_newlines: "at d ks ps \<Longrightarrow> at d (dropWhile (\<lambda>k. k = Newline) ks) (skip_newlines ps)"
  unfolding skip_newlines_def by (rule at_dropWhile) simp_all

lemma at_skip_terminators:
  "at d ks ps \<Longrightarrow> at d (dropWhile (\<lambda>k. k = Semicolon \<or> k = Newline) ks) (skip_terminators ps)"
  unfolding skip_terminators_def by (rule at_dropWhile [where P = "\<lambda>k. k = Semicolon \<or> k = Newline"]) simp_all

subsection \<open>Reading single tokens\<close>

lemma gives_expect_ident: "at d (Ident n # ks) ps \<Longrightarrow> ks \<noteq> [] \<Longrightarrow> gives (expect_ident n ps) (\<lambda>_. True) (at d ks)"
  by (auto simp: expect_ident_def Let_def intro!: gives_ret at_advance)

lemma gives_expect_kind:
  assumes "at d ks ps" and "dropWhile (\<lambda>k. k = Newline) ks = k # ls" and "ls \<noteq> []"
  shows "gives (expect_kind k ps) (\<lambda>_. True) (at d ls)"
proof -
  have "at d (k # ls) (skip_newlines ps)" using at_skip_newlines [OF assms(1)] assms(2) by simp
  with assms(3) show ?thesis by (auto simp: expect_kind_def Let_def intro!: gives_ret at_advance)
qed

lemma gives_lbrace: "at d (LBrace # ks) ps \<Longrightarrow> ks \<noteq> [] \<Longrightarrow> gives (expect_lbrace ps) (\<lambda>_. True) (at d ks)"
  unfolding expect_lbrace_def by (rule gives_expect_kind [of d "LBrace # ks"]) auto

lemma gives_rbrace: "at d (RBrace # ks) ps \<Longrightarrow> ks \<noteq> [] \<Longrightarrow> gives (expect_rbrace ps) (\<lambda>_. True) (at d ks)"
  unfolding expect_rbrace_def by (rule gives_expect_kind [of d "RBrace # ks"]) auto

definition unspan :: "StringValue \<Rightarrow> StringValue" where
  "unspan v = v\<lparr>sv_span := span_empty 0\<rparr>"

lemma unspan_eq: "unspan w = unspan v \<longleftrightarrow>
    sv_value w = sv_value v \<and> sv_quoted w = sv_quoted v \<and> sv_placeholder w = sv_placeholder v"
  by (cases w; cases v) (simp add: unspan_def)

definition value_kind :: "StringValue \<Rightarrow> TokenKind" where
  "value_kind v =
     (if sv_placeholder v then Placeholder (sv_value v)
      else if sv_quoted v then QuotedString (sv_value v) else Ident (sv_value v))"

lemma gives_value:
  assumes "at d (value_kind v # ks) ps" and "ks \<noteq> []" and "\<not> (sv_placeholder v \<and> sv_quoted v)"
  shows "gives (read_string_value ps) (\<lambda>w. unspan w = unspan v) (at d ks)"
  using assms at_peek(2) [OF assms(1)] at_advance [OF assms(1,2)]
  by (auto simp: read_string_value_def Let_def string_value_def value_kind_def unspan_def
      intro!: gives_ret split: if_splits)

lemma value_kind_token [simp]:
  "value_kind v \<noteq> Newline" "value_kind v \<noteq> Semicolon" "value_kind v \<noteq> RBrace" "value_kind v \<noteq> LBrace"
  "value_kind v \<noteq> Eof" "value_kind v \<noteq> DotDot" "value_kind v \<noteq> Comment c"
  by (auto simp: value_kind_def)

lemma is_value_at [simp]:
  "at d (k # ks) ps \<Longrightarrow> is_value_token ps \<longleftrightarrow> (\<exists>s. k = Ident s \<or> k = QuotedString s \<or> k = Placeholder s)"
  by (simp add: is_value_token_def split: TokenKind.splits)

subsection \<open>Loops\<close>

lemma gives_loop:
  assumes go: "\<And>s ps. ps_ok ps \<Longrightarrow> goes_on ps (body s ps)"
    and ok: "\<And>xs ps. S xs ps \<Longrightarrow> ps_ok ps"
    and step: "\<And>x xs acc ps. S (x # xs) ps \<Longrightarrow>
      gives (body acc ps) (\<lambda>r. \<exists>ys. r = Continue (acc @ ys) \<and> R x ys) (S xs)"
    and stop: "\<And>acc ps. S [] ps \<Longrightarrow> gives (body acc ps) (\<lambda>r. r = Break acc) T"
    and start: "S xs ps"
  shows "gives (p_loop body acc ps) (\<lambda>r. \<exists>yss. r = acc @ concat yss \<and> list_all2 R xs yss) T"
  using start
proof (induction xs arbitrary: acc ps)
  case Nil
  from stop [OF Nil] obtain ps' where "body acc ps = Inr (Break acc, ps')" "T ps'"
    by (auto simp: gives_def)
  then show ?case by (subst p_loop.simps) (auto intro!: gives_ret exI [of _ "[]"])
next
  case (Cons x xs)
  from step [OF Cons.prems, of acc] obtain ys ps' where b: "body acc ps = Inr (Continue (acc @ ys), ps')"
    and y: "R x ys" "S xs ps'" by (auto simp: gives_def)
  from go [OF ok [OF Cons.prems], of acc] b have "length (ptoks ps') < length (ptoks ps)"
    by (simp add: after_def)
  then have "p_loop body acc ps = p_loop body (acc @ ys) ps'"
    using b by (subst p_loop.simps) simp
  moreover from Cons.IH [OF y(2), of "acc @ ys"] obtain yss ps2 where
    "p_loop body (acc @ ys) ps' = Inr ((acc @ ys) @ concat yss, ps2)" "list_all2 R xs yss" "T ps2"
    by (auto simp: gives_def)
  ultimately show ?case
    using y(1) by (auto intro!: gives_ret exI [of _ "ys # yss"])
qed

subsection \<open>Directives\<close>

text \<open>
  An argument is written as one token, or, when it came from an unquoted range, as a word, the range
  operator and a word.
\<close>

definition range_value :: "StringValue \<Rightarrow> string \<Rightarrow> string \<Rightarrow> bool" where
  "range_value v a b \<longleftrightarrow> \<not> sv_placeholder v \<and> \<not> sv_quoted v \<and> sv_value v = a @ ''..'' @ b"

definition value_ok :: "StringValue \<Rightarrow> bool" where
  "value_ok v \<longleftrightarrow>
     (if sv_placeholder v then \<not> sv_quoted v \<and> placeholder_ok (sv_value v)
      else sv_quoted v \<or> (word_ok (sv_value v) \<and> sv_value v \<noteq> []))"

datatype arg_shape = Single StringValue | Ranged StringValue string string

fun arg_value :: "arg_shape \<Rightarrow> StringValue" where
  "arg_value (Single v) = v"
| "arg_value (Ranged v a b) = v"

fun arg_ok :: "arg_shape \<Rightarrow> bool" where
  "arg_ok (Single v) = value_ok v"
| "arg_ok (Ranged v a b) \<longleftrightarrow> range_value v a b \<and> word_ok a \<and> a \<noteq> [] \<and> last a \<noteq> CHR ''.'' \<and> word_ok b \<and> b \<noteq> []"

fun arg_kinds :: "arg_shape \<Rightarrow> TokenKind list" where
  "arg_kinds (Single v) = [value_kind v]"
| "arg_kinds (Ranged v a b) = [Ident a, DotDot, Ident b]"

lemma value_ok_flags: "value_ok v \<Longrightarrow> \<not> (sv_placeholder v \<and> sv_quoted v)"
  by (auto simp: value_ok_def split: if_splits)

lemma value_kind_cases: "\<exists>s. value_kind v = Ident s \<or> value_kind v = QuotedString s \<or> value_kind v = Placeholder s"
  by (auto simp: value_kind_def)

text \<open>What follows an argument: another, or a token that is neither a value nor the range operator.\<close>

definition ends_args :: "TokenKind list \<Rightarrow> bool" where
  "ends_args ks \<longleftrightarrow> ks \<noteq> [] \<and> (\<forall>s. hd ks \<noteq> Ident s \<and> hd ks \<noteq> QuotedString s \<and> hd ks \<noteq> Placeholder s) \<and> hd ks \<noteq> DotDot"

abbreviation args_kinds :: "arg_shape list \<Rightarrow> TokenKind list" where
  "args_kinds as \<equiv> concat (map arg_kinds as)"

lemma arg_kinds_hd: "arg_ok a \<Longrightarrow> \<exists>k ks. arg_kinds a = k # ks \<and> k \<noteq> DotDot \<and> (\<exists>s. k = Ident s \<or> k = QuotedString s \<or> k = Placeholder s)"
  using value_kind_cases by (cases a) auto

lemma args_not_dots:
  assumes "list_all arg_ok as" and "ends_args ks"
  shows "args_kinds as @ ks \<noteq> [] \<and> hd (args_kinds as @ ks) \<noteq> DotDot"
  using assms by (cases as) (auto simp: ends_args_def dest!: arg_kinds_hd)

lemma gives_directive_arg:
  assumes "at d (arg_kinds a @ ks) ps" and "arg_ok a" and "ks \<noteq> []" and "hd ks \<noteq> DotDot"
  shows "gives (directive_args acc ps) (\<lambda>r. \<exists>ys. r = Continue (acc @ ys) \<and> map unspan ys = [unspan (arg_value a)]) (at d ks)"
proof (cases a)
  case (Single v)
  with assms have at: "at d (value_kind v # ks) ps" and v: "value_ok v" by auto
  obtain k ls where ks: "ks = k # ls" using assms(3) by (cases ks) auto
  have "is_value_token ps" using at value_kind_cases [of v] by auto
  then show ?thesis
    unfolding directive_args_def
    using assms(4) ks Single
    by (auto intro!: gives_then [OF gives_value [OF at assms(3) value_ok_flags [OF v]]] gives_ret)
next
  case (Ranged v x y)
  with assms have at: "at d (Ident x # DotDot # Ident y # ks) ps" and v: "range_value v x y" by auto
  let ?v = "\<lambda>s. \<lparr>sv_value = s, sv_quoted = False, sv_placeholder = False, sv_span = span_empty 0\<rparr>"
  have vt: "is_value_token ps" using at by auto
  have one: "gives (read_string_value ps) (\<lambda>w. unspan w = unspan (?v x)) (at d (DotDot # Ident y # ks))"
    using at by (intro gives_value) (auto simp: value_kind_def)
  have two: "gives (read_string_value (advance q)) (\<lambda>w. unspan w = unspan (?v y)) (at d ks)"
    if "at d (DotDot # Ident y # ks) q" for q
    using at_advance [OF that] assms(3) by (intro gives_value) (auto simp: value_kind_def)
  show ?thesis
    unfolding directive_args_def using vt
    by (auto intro!: gives_then [OF one] gives_then [OF two] gives_ret
        simp: Ranged unspan_eq v [unfolded range_value_def])
qed

definition args_state :: "nat \<Rightarrow> TokenKind list \<Rightarrow> arg_shape list \<Rightarrow> Parser \<Rightarrow> bool" where
  "args_state d ks as ps \<longleftrightarrow> at d (args_kinds as @ ks) ps \<and> list_all arg_ok as \<and> ends_args ks"

lemma list_all2_single:
  "list_all2 (\<lambda>x ys. map f ys = [g x]) xs yss \<Longrightarrow> map f (concat yss) = map g xs"
  by (induction xs yss rule: list_all2_induct) auto

lemma gives_args:
  assumes "args_state d ks as ps"
  shows "gives (p_loop directive_args [] ps) (\<lambda>args. map unspan args = map (unspan \<circ> arg_value) as) (at d ks)"
proof -
  have "gives (p_loop directive_args [] ps)
      (\<lambda>r. \<exists>yss. r = [] @ concat yss \<and> list_all2 (\<lambda>a ys. map unspan ys = [(unspan \<circ> arg_value) a]) as yss) (at d ks)"
  proof (rule gives_loop [where S = "args_state d ks", OF directive_args_goes_on _ _ _ assms])
    fix acc ps
    assume "args_state d ks [] ps"
    then have at: "at d ks ps" and e: "ends_args ks" by (auto simp: args_state_def)
    obtain k ls where ks: "ks = k # ls" using e by (cases ks) (auto simp: ends_args_def)
    have "\<not> is_value_token ps" using at e by (auto simp: ks ends_args_def)
    with at show "gives (directive_args acc ps) (\<lambda>r. r = Break acc) (at d ks)"
      by (auto simp: directive_args_def intro!: gives_ret)
  next
    fix a as acc ps
    assume s: "args_state d ks (a # as) ps"
    then have "gives (directive_args acc ps) (\<lambda>r. \<exists>ys. r = Continue (acc @ ys) \<and> map unspan ys = [unspan (arg_value a)])
        (at d (args_kinds as @ ks))"
      using args_not_dots [of as ks] by (intro gives_directive_arg) (auto simp: args_state_def)
    with s show "gives (directive_args acc ps)
        (\<lambda>r. \<exists>ys. r = Continue (acc @ ys) \<and> map unspan ys = [(unspan \<circ> arg_value) a]) (args_state d ks as)"
      by (auto elim!: gives_weaken simp: args_state_def)
  qed (auto simp: args_state_def at_def)
  then show ?thesis by (rule gives_weaken) (auto dest: list_all2_single)
qed

text \<open>A directive with the shapes of its arguments, and its tokens.\<close>

record shaped =
  s_key :: StringValue
  s_args :: "arg_shape list"

definition shaped_ok :: "shaped \<Rightarrow> bool" where
  "shaped_ok s \<longleftrightarrow> value_ok (s_key s) \<and> list_all arg_ok (s_args s)"

definition shape_of :: "Directive \<Rightarrow> shaped \<Rightarrow> bool" where
  "shape_of d s \<longleftrightarrow> s_key s = d_key d \<and> map arg_value (s_args s) = d_args d"

definition shaped_kinds :: "shaped \<Rightarrow> TokenKind list" where
  "shaped_kinds s = value_kind (s_key s) # args_kinds (s_args s)"

definition unspan_d :: "Directive \<Rightarrow> Directive" where
  "unspan_d d = \<lparr>d_key = unspan (d_key d), d_args = map unspan (d_args d), d_span = span_empty 0\<rparr>"

abbreviation past_terminators :: "TokenKind list \<Rightarrow> TokenKind list" where
  "past_terminators ks \<equiv> dropWhile (\<lambda>k. k = Semicolon \<or> k = Newline) ks"

lemma gives_directive:
  assumes "at lv (shaped_kinds s @ ks) ps" and "shape_of d s" and "shaped_ok s" and "ends_args ks"
  shows "gives (parse_directive ps) (\<lambda>d'. unspan_d d' = unspan_d d) (at lv (past_terminators ks))"
  unfolding parse_directive_def Let_def
proof (rule gives_then)
  show "gives (read_string_value ps) (\<lambda>w. unspan w = unspan (s_key s)) (at lv (args_kinds (s_args s) @ ks))"
    using assms by (intro gives_value value_ok_flags)
      (auto simp: shaped_kinds_def shaped_ok_def ends_args_def)
  fix key ps
  assume k: "unspan key = unspan (s_key s)" and at: "at lv (args_kinds (s_args s) @ ks) ps"
  have "args_state lv ks (s_args s) ps" using at assms by (auto simp: args_state_def shaped_ok_def)
  from gives_args [OF this] k assms(2)
  show "gives (and_then (p_loop directive_args [] ps)
      (\<lambda>args ps. Inr (\<lparr>d_key = key, d_args = args, d_span = span_merge (sv_span key) (last_span args (sv_span key))\<rparr>,
        skip_terminators ps)))
      (\<lambda>d'. unspan_d d' = unspan_d d) (at lv (past_terminators ks))"
    by (auto elim!: gives_then intro!: gives_ret at_skip_terminators simp: unspan_d_def shape_of_def)
      (metis list.map_comp)
qed

text \<open>A list of directives, each on a line of its own, up to the closing brace.\<close>

definition lines_kinds :: "shaped list \<Rightarrow> TokenKind list" where
  "lines_kinds ss = concat (map (\<lambda>s. shaped_kinds s @ [Newline]) ss)"

abbreviation past_newlines :: "TokenKind list \<Rightarrow> TokenKind list" where
  "past_newlines ks \<equiv> dropWhile (\<lambda>k. k = Newline) ks"

definition lines_state :: "nat \<Rightarrow> TokenKind list \<Rightarrow> (Directive \<times> shaped) list \<Rightarrow> Parser \<Rightarrow> bool" where
  "lines_state lv tail ds ps \<longleftrightarrow>
     (\<exists>ks. at lv ks ps \<and> past_newlines ks = lines_kinds (map snd ds) @ RBrace # tail) \<and>
     list_all (\<lambda>(d, s). shape_of d s \<and> shaped_ok s) ds"

lemma lines_kinds_simps [simp]:
  "lines_kinds [] = []" "lines_kinds (s # ss) = shaped_kinds s @ Newline # lines_kinds ss"
  by (simp_all add: lines_kinds_def)

lemma shaped_kinds_hd: "\<exists>s' ks. shaped_kinds s = value_kind s' # ks"
  by (auto simp: shaped_kinds_def)

lemma past_lines: "past_terminators (lines_kinds ss @ RBrace # tail) = lines_kinds ss @ RBrace # tail"
  "past_newlines (lines_kinds ss @ RBrace # tail) = lines_kinds ss @ RBrace # tail"
  by (cases ss; auto simp: shaped_kinds_def)+

lemma at_rbrace_at [simp]: "at d (k # ks) ps \<Longrightarrow> at_rbrace ps \<longleftrightarrow> k = RBrace \<or> k = Eof"
  by (simp add: at_rbrace_def)

lemma is_comment_at [simp]: "at d (k # ks) ps \<Longrightarrow> is_comment ps \<longleftrightarrow> (\<exists>c. k = Comment c)"
  by (simp add: is_comment_def split: TokenKind.splits)

lemma gives_lines:
  assumes "lines_state lv tail ds ps"
  shows "gives (parse_directives_until_rbrace ps) (\<lambda>ds'. map unspan_d ds' = map (unspan_d \<circ> fst) ds) (at lv (RBrace # tail))"
proof -
  have "gives (p_loop directives_body [] ps)
      (\<lambda>r. \<exists>yss. r = [] @ concat yss \<and> list_all2 (\<lambda>x ys. map unspan_d ys = [(unspan_d \<circ> fst) x]) ds yss)
      (at lv (RBrace # tail))"
  proof (rule gives_loop [where S = "lines_state lv tail", OF directives_body_goes_on _ _ _ assms])
    fix acc ps
    assume "lines_state lv tail [] ps"
    then have "at lv (RBrace # tail) (skip_newlines ps)"
      by (auto simp: lines_state_def dest: at_skip_newlines)
    then show "gives (directives_body acc ps) (\<lambda>r. r = Break acc) (at lv (RBrace # tail))"
      by (auto simp: directives_body_def Let_def intro!: gives_ret)
  next
    fix x ds acc ps
    assume s: "lines_state lv tail (x # ds) ps"
    obtain d sh where x: "x = (d, sh)" by (cases x)
    let ?more = "lines_kinds (map snd ds) @ RBrace # tail"
    from s x have at: "at lv (shaped_kinds sh @ Newline # ?more) (skip_newlines ps)"
      by (auto simp: lines_state_def dest: at_skip_newlines)
    then obtain k ks where k: "at lv (value_kind k # ks) (skip_newlines ps)"
      by (auto simp: shaped_kinds_def)
    have "gives (parse_directive (skip_newlines ps)) (\<lambda>d'. unspan_d d' = unspan_d d) (at lv ?more)"
      using gives_directive [OF at, of d] s x past_lines(1) [of "map snd ds" tail]
      by (auto simp: lines_state_def ends_args_def)
    then show "gives (directives_body acc ps)
        (\<lambda>r. \<exists>ys. r = Continue (acc @ ys) \<and> map unspan_d ys = [(unspan_d \<circ> fst) x]) (lines_state lv tail ds)"
      using k s x past_lines(2) [of "map snd ds" tail]
      by (auto simp: directives_body_def Let_def lines_state_def elim!: gives_then intro!: gives_ret)
  qed (auto simp: lines_state_def at_def)
  then show ?thesis
    unfolding parse_directives_until_rbrace_def by (rule gives_weaken) (auto dest: list_all2_single)
qed

subsection \<open>Schedules\<close>

definition time_ok :: "TimeValue \<Rightarrow> bool" where
  "time_ok t \<longleftrightarrow> tv_hour t \<le> 23 \<and> tv_minute t \<le> 59 \<and>
     (case split_on (CHR '':'') (tv_raw t) of
        [h, m] \<Rightarrow> parse_unsigned 255 h = Some (tv_hour t) \<and> parse_unsigned 255 m = Some (tv_minute t)
      | _ \<Rightarrow> False)"

definition unspan_time :: "TimeValue \<Rightarrow> TimeValue" where
  "unspan_time t = t\<lparr>tv_span := span_empty 0\<rparr>"

lemma unspan_time_eq: "unspan_time s = unspan_time t \<longleftrightarrow>
    tv_hour s = tv_hour t \<and> tv_minute s = tv_minute t \<and> tv_raw s = tv_raw t"
  by (cases s; cases t) (simp add: unspan_time_def)

lemma gives_time:
  assumes "at d (Ident (tv_raw t) # ks) ps" and "ks \<noteq> []" and "time_ok t"
  shows "gives (parse_time_value ps) (\<lambda>t'. unspan_time t' = unspan_time t) (at d ks)"
  using assms at_advance [OF assms(1,2)]
  by (auto simp: parse_time_value_def Let_def time_ok_def unspan_time_eq split: list.splits intro!: gives_ret)

fun ordinal_ok :: "MonthOrdinal \<Rightarrow> bool" where
  "ordinal_ok (MO_Day d) \<longleftrightarrow> 1 \<le> d \<and> d \<le> 31"
| "ordinal_ok MO_Last \<longleftrightarrow> True"

fun kind_ok :: "ScheduleKind \<Rightarrow> bool" where
  "kind_ok (K_Interval n u) \<longleftrightarrow> n \<le> U32_MAX"
| "kind_ok (K_Daily t) \<longleftrightarrow> time_ok t"
| "kind_ok (K_Weekdays days t) \<longleftrightarrow> days \<noteq> [] \<and> time_ok t"
| "kind_ok (K_Monthly ords t) \<longleftrightarrow> ords \<noteq> [] \<and> list_all ordinal_ok ords \<and> time_ok t"
| "kind_ok (K_Once v) \<longleftrightarrow> value_ok v"
| "kind_ok K_Disabled \<longleftrightarrow> True"

fun unspan_kind :: "ScheduleKind \<Rightarrow> ScheduleKind" where
  "unspan_kind (K_Daily t) = K_Daily (unspan_time t)"
| "unspan_kind (K_Weekdays days t) = K_Weekdays days (unspan_time t)"
| "unspan_kind (K_Monthly ords t) = K_Monthly ords (unspan_time t)"
| "unspan_kind (K_Once v) = K_Once (unspan v)"
| "unspan_kind k = k"

text \<open>The days of a schedule in the order of the week, which is how they are written.\<close>

definition week_order :: "Weekday list \<Rightarrow> Weekday list" where
  "week_order days = filter (\<lambda>d. d \<in> set days) WEEK_ALL"

fun canonical :: "ScheduleKind \<Rightarrow> ScheduleKind" where
  "canonical (K_Weekdays days t) = K_Weekdays (week_order days) t"
| "canonical k = k"

lemma short_names:
  "weekday_parse (weekday_short d) = Some d \<and> parse_group (weekday_short d) = None \<and> is_day_name (weekday_short d) \<and>
   word_ok (weekday_short d) \<and> last (weekday_short d) \<noteq> CHR ''.''"
proof -
  have "list_all (\<lambda>d. weekday_parse (weekday_short d) = Some d \<and> parse_group (weekday_short d) = None \<and>
      is_day_name (weekday_short d) \<and> word_ok (weekday_short d) \<and> last (weekday_short d) \<noteq> CHR ''.'') WEEK_ALL"
    by code_simp
  moreover have "d \<in> set WEEK_ALL" by (cases d) (simp_all add: WEEK_ALL_def)
  ultimately show ?thesis by (simp only: list_all_iff) blast
qed

lemma group_names:
  "parse_group ''weekday'' = Some (take 5 WEEK_ALL)" "parse_group ''weekend'' = Some (drop 5 WEEK_ALL)"
  "is_day_name ''weekday''" "is_day_name ''weekend''" "\<not> is_day_name ''at''" "\<not> is_day_name ''day''" "\<not> is_day_name []"
  by code_simp+

lemma week_walk_range:
  assumes "s \<le> f" and "f < 7"
  shows "week_walk f s [] = map (\<lambda>i. WEEK_ALL ! i) [s ..< Suc f]"
proof -
  have "list_all (\<lambda>f. list_all (\<lambda>s. week_walk f s [] = map (\<lambda>i. WEEK_ALL ! i) [s ..< Suc f]) [0 ..< Suc f]) [0 ..< 7]"
    by code_simp
  moreover have "f \<in> set [0 ..< 7]" "s \<in> set [0 ..< Suc f]" using assms by auto
  ultimately show ?thesis by (simp only: list_all_iff)
qed

lemma digit_ident_char: "is_ascii_digit c \<Longrightarrow> is_ident_char c \<and> c \<noteq> CHR ''.''"
  by (auto simp: is_ident_char_def less_eq_char_def is_ascii_digit_def)

lemma digit_no_day:
  assumes "is_ascii_digit c"
  shows "\<not> is_day_name (c # s)"
proof -
  have l: "to_ascii_lower c = c"
    using assms by (auto simp: to_ascii_lower_def less_eq_char_def is_ascii_digit_def)
  have "c \<noteq> CHR ''m''" "c \<noteq> CHR ''t''" "c \<noteq> CHR ''w''" "c \<noteq> CHR ''f''" "c \<noteq> CHR ''s''"
    using assms by (auto simp: is_ascii_digit_def)
  with l show ?thesis
    by (simp add: is_day_name_def parse_token_def parse_group_def weekday_parse_def to_ascii_lowercase_def)
qed

lemma word_ok_digits: "list_all is_ascii_digit ds \<Longrightarrow> word_ok s \<Longrightarrow> word_ok (ds @ s)"
  by (induction ds) (auto dest: digit_ident_char)

lemma show_nat_hd: "\<exists>c s. show_nat n = c # s \<and> is_ascii_digit c"
  using show_nat_hd_digit [of n] by (cases "show_nat n") auto

lemma ordinal_names:
  assumes "1 \<le> d" and "d \<le> 31"
  shows "\<exists>s. or_else (strip_suffix (format_ordinal d) ''st'') (or_else (strip_suffix (format_ordinal d) ''nd'')
      (or_else (strip_suffix (format_ordinal d) ''rd'') (strip_suffix (format_ordinal d) ''th''))) = Some s \<and>
      parse_unsigned 255 s = Some d"
    "is_ordinal (format_ordinal d) \<and> format_ordinal d \<noteq> ''last'' \<and> format_ordinal d \<noteq> ''day''"
proof -
  let ?f = "\<lambda>d. or_else (strip_suffix (format_ordinal d) ''st'') (or_else (strip_suffix (format_ordinal d) ''nd'')
      (or_else (strip_suffix (format_ordinal d) ''rd'') (strip_suffix (format_ordinal d) ''th'')))"
  let ?g = "\<lambda>d. is_ordinal (format_ordinal d) \<and> format_ordinal d \<noteq> ''last'' \<and> format_ordinal d \<noteq> ''day''"
  have d: "d \<in> set [1 ..< 32]" using assms by auto
  have "list_all (\<lambda>d. Option.bind (?f d) (parse_unsigned 255) = Some d) [1 ..< 32]" by code_simp
  with d have "Option.bind (?f d) (parse_unsigned 255) = Some d" by (simp only: list_all_iff)
  then show "\<exists>s. ?f d = Some s \<and> parse_unsigned 255 s = Some d" by (simp add: bind_eq_Some_conv)
  have "list_all ?g [1 ..< 32]" by code_simp
  with d show "?g d" unfolding list_all_iff by blast
qed

lemma format_ordinal_word: "word_ok (format_ordinal d) \<and> \<not> is_day_name (format_ordinal d) \<and> format_ordinal d \<noteq> []"
proof -
  have "word_ok s" if "s \<in> {''st'', ''nd'', ''rd'', ''th''}" for s
    using that by (auto simp: is_ident_char_def less_eq_char_def of_char_def)
  then have "word_ok (format_ordinal d)"
    unfolding format_ordinal_def by (intro word_ok_digits) simp_all
  moreover obtain c s where "format_ordinal d = c # s" "is_ascii_digit c"
    using show_nat_hd [of d] by (auto simp: format_ordinal_def)
  ultimately show ?thesis by (simp add: digit_no_day)
qed

text \<open>The units a list of days is written in.\<close>

datatype day_unit = U_Day Weekday | U_Range Weekday Weekday | U_Weekday | U_Weekend

fun unit_kinds :: "day_unit \<Rightarrow> TokenKind list" where
  "unit_kinds (U_Day d) = [Ident (weekday_short d)]"
| "unit_kinds (U_Range a b) = [Ident (weekday_short a), DotDot, Ident (weekday_short b)]"
| "unit_kinds U_Weekday = [Ident ''weekday'']"
| "unit_kinds U_Weekend = [Ident ''weekend'']"

fun unit_days :: "day_unit \<Rightarrow> Weekday list" where
  "unit_days (U_Day d) = [d]"
| "unit_days (U_Range a b) = weekday_range a b"
| "unit_days U_Weekday = take 5 WEEK_ALL"
| "unit_days U_Weekend = drop 5 WEEK_ALL"

definition days_state :: "nat \<Rightarrow> TokenKind list \<Rightarrow> day_unit list \<Rightarrow> Parser \<Rightarrow> bool" where
  "days_state d ks us ps \<longleftrightarrow> at d (concat (map unit_kinds us) @ ks) ps \<and> ks \<noteq> [] \<and> \<not> is_day_name (kind_text (hd ks)) \<and>
     hd ks \<noteq> DotDot"

lemma gives_day_unit:
  assumes "at d (unit_kinds u @ ls) ps" and "ls \<noteq> []" and "hd ls \<noteq> DotDot"
  shows "gives (weekdays_body acc ps) (\<lambda>r. \<exists>ys. r = Continue (acc @ ys) \<and> ys = unit_days u) (at d ls)"
proof (cases u)
  case (U_Day a)
  with assms have at: "at d (Ident (weekday_short a) # ls) ps" by simp
  obtain k ks where "ls = k # ks" using assms(2) by (cases ls) auto
  with at_advance [OF at assms(2)] assms(3) at short_names [of a] U_Day show ?thesis
    by (auto simp: weekdays_body_def Let_def intro!: gives_ret)
next
  case (U_Range a b)
  with assms have at: "at d (Ident (weekday_short a) # DotDot # Ident (weekday_short b) # ls) ps" by simp
  from at_advance [OF at] have at1: "at d (DotDot # Ident (weekday_short b) # ls) (advance ps)" by simp
  from at_advance [OF at1] have at2: "at d (Ident (weekday_short b) # ls) (advance (advance ps))" by simp
  from at_advance [OF at2 assms(2)] at at1 at2 short_names [of a] short_names [of b] U_Range show ?thesis
    by (auto simp: weekdays_body_def Let_def intro!: gives_ret)
next
  case U_Weekday
  with assms have at: "at d (Ident ''weekday'' # ls) ps" by simp
  from at_advance [OF at assms(2)] at U_Weekday show ?thesis
    by (auto simp: weekdays_body_def Let_def group_names intro!: gives_ret)
next
  case U_Weekend
  with assms have at: "at d (Ident ''weekend'' # ls) ps" by simp
  from at_advance [OF at assms(2)] at U_Weekend show ?thesis
    by (auto simp: weekdays_body_def Let_def group_names intro!: gives_ret)
qed

lemma list_all2_eq_map: "list_all2 (\<lambda>x ys. ys = f x) xs yss \<Longrightarrow> concat yss = concat (map f xs)"
  by (induction xs yss rule: list_all2_induct) auto

lemma gives_days:
  assumes "days_state d ks us ps"
  shows "gives (p_loop weekdays_body [] ps) (\<lambda>days. days = concat (map unit_days us)) (at d ks)"
proof -
  have "gives (p_loop weekdays_body [] ps)
      (\<lambda>r. \<exists>yss. r = [] @ concat yss \<and> list_all2 (\<lambda>u ys. ys = unit_days u) us yss) (at d ks)"
  proof (rule gives_loop [where S = "days_state d ks", OF weekdays_body_goes_on _ _ _ assms])
    fix acc ps
    assume s: "days_state d ks [] ps"
    then obtain k ls where "at d (k # ls) ps" "ks = k # ls" "\<not> is_day_name (kind_text k)"
      by (cases ks) (auto simp: days_state_def)
    with s show "gives (weekdays_body acc ps) (\<lambda>r. r = Break acc) (at d ks)"
      by (auto simp: weekdays_body_def Let_def days_state_def intro!: gives_ret)
  next
    fix u us acc ps
    assume s: "days_state d ks (u # us) ps"
    let ?ls = "concat (map unit_kinds us) @ ks"
    have "at d (unit_kinds u @ ?ls) ps" using s by (simp add: days_state_def)
    moreover have "?ls \<noteq> [] \<and> hd ?ls \<noteq> DotDot"
      using s by (cases us; cases "hd us") (auto simp: days_state_def)
    ultimately have "gives (weekdays_body acc ps) (\<lambda>r. \<exists>ys. r = Continue (acc @ ys) \<and> ys = unit_days u) (at d ?ls)"
      by (intro gives_day_unit) auto
    then show "gives (weekdays_body acc ps) (\<lambda>r. \<exists>ys. r = Continue (acc @ ys) \<and> ys = unit_days u) (days_state d ks us)"
      using s by (auto elim!: gives_weaken simp: days_state_def)
  qed (auto simp: days_state_def at_def)
  then show ?thesis by (rule gives_weaken) (auto dest: list_all2_eq_map)
qed

definition ords_state :: "nat \<Rightarrow> TokenKind list \<Rightarrow> MonthOrdinal list \<Rightarrow> Parser \<Rightarrow> bool" where
  "ords_state d ks os ps \<longleftrightarrow> at d (map (Ident \<circ> ordinal_text) os @ Ident ''of'' # ks) ps \<and> list_all ordinal_ok os"

lemma gives_ordinal:
  assumes "at d (Ident (ordinal_text m) # ls) ps" and "ls \<noteq> []" and "ordinal_ok m"
  shows "gives (ordinals_body acc ps) (\<lambda>r. \<exists>ys. r = Continue (acc @ ys) \<and> ys = [m]) (at d ls)"
proof (cases m)
  case (MO_Day n)
  with assms(3) ordinal_names [of n] at_advance [OF assms(1,2)] assms(1) show ?thesis
    by (auto simp: ordinals_body_def parse_ordinal_def Let_def and_then_def intro!: gives_ret)
next
  case MO_Last
  with at_advance [OF assms(1,2)] assms(1) show ?thesis
    by (auto simp: ordinals_body_def parse_ordinal_def Let_def and_then_def is_ordinal_def intro!: gives_ret)
qed

lemma gives_ordinals:
  assumes "ords_state d ks os ps"
  shows "gives (p_loop ordinals_body [] ps) (\<lambda>r. r = os) (at d (Ident ''of'' # ks))"
proof -
  have "gives (p_loop ordinals_body [] ps)
      (\<lambda>r. \<exists>yss. r = [] @ concat yss \<and> list_all2 (\<lambda>m ys. ys = [m]) os yss) (at d (Ident ''of'' # ks))"
  proof (rule gives_loop [where S = "ords_state d ks", OF ordinals_body_goes_on _ _ _ assms])
    fix acc ps
    assume "ords_state d ks [] ps"
    then show "gives (ordinals_body acc ps) (\<lambda>r. r = Break acc) (at d (Ident ''of'' # ks))"
      by (auto simp: ordinals_body_def ords_state_def is_ordinal_def ends_with_def strip_suffix_def intro!: gives_ret)
  next
    fix m os acc ps
    assume s: "ords_state d ks (m # os) ps"
    then have "gives (ordinals_body acc ps) (\<lambda>r. \<exists>ys. r = Continue (acc @ ys) \<and> ys = [m])
        (at d (map (Ident \<circ> ordinal_text) os @ Ident ''of'' # ks))"
      by (intro gives_ordinal) (auto simp: ords_state_def)
    then show "gives (ordinals_body acc ps) (\<lambda>r. \<exists>ys. r = Continue (acc @ ys) \<and> ys = [m]) (ords_state d ks os)"
      using s by (auto elim!: gives_weaken simp: ords_state_def)
  qed (auto simp: ords_state_def at_def)
  then show ?thesis by (rule gives_weaken) (auto dest: list_all2_eq_map)
qed

end
