(* ===== verification/Reschedule.thy ===== *)
theory Reschedule
  imports Reparse
begin

text \<open>
  Schedules written and read back: the tokens a schedule line lexes to, and the schedule the parser
  makes of them.
\<close>

subsection \<open>Days of the week\<close>

abbreviation day_at :: "nat \<Rightarrow> Weekday" where
  "day_at i \<equiv> WEEK_ALL ! i"

definition run_units :: "nat \<Rightarrow> nat \<Rightarrow> day_unit list" where
  "run_units s f = (if f - s + 1 \<ge> 3 then [U_Range (day_at s) (day_at f)] else map (\<lambda>i. U_Day (day_at i)) [s ..< Suc f])"

fun runs_units :: "nat \<Rightarrow> nat \<Rightarrow> nat list \<Rightarrow> day_unit list" where
  "runs_units s f [] = run_units s f"
| "runs_units s f (i # is) = (if i = f + 1 then runs_units s i is else run_units s f @ runs_units i i is)"

definition day_indices :: "Weekday list \<Rightarrow> nat list" where
  "day_indices days = filter (\<lambda>i. day_at i \<in> set days) [0 ..< 7]"

definition day_units :: "Weekday list \<Rightarrow> day_unit list" where
  "day_units days =
     (let is = day_indices days
      in if is = [0, 1, 2, 3, 4] then [U_Weekday] else if is = [5, 6] then [U_Weekend]
         else runs_units (is ! 0) (is ! 0) (tl is))"

lemma weekday_idx_at: "i < 7 \<Longrightarrow> weekday_idx (day_at i) = i"
proof -
  assume "i < 7"
  then have "i \<in> {0, 1, 2, 3, 4, 5, 6}" by auto
  then show ?thesis by (auto simp: WEEK_ALL_def)
qed

lemma run_days:
  assumes "s \<le> f" and "f < 7"
  shows "concat (map unit_days (run_units s f)) = map day_at [s ..< Suc f]"
  using assms week_walk_range [OF assms]
  by (simp add: run_units_def weekday_range_def weekday_idx_at comp_def del: upt_Suc)

lemma runs_days:
  "s \<le> f \<Longrightarrow> sorted_wrt (<) (f # is) \<Longrightarrow> \<forall>i \<in> set (f # is). i < 7 \<Longrightarrow>
     concat (map unit_days (runs_units s f is)) = map day_at ([s ..< Suc f] @ is)"
proof (induction s f "is" rule: runs_units.induct)
  case (1 s f)
  then show ?case by (simp add: run_days del: upt_Suc)
next
  case (2 s f i "is")
  show ?case
  proof (cases "i = f + 1")
    case True
    with 2 show ?thesis by simp
  next
    case False
    with 2 show ?thesis by (simp add: run_days del: upt_Suc) simp
  qed
qed

lemma week_order_indices: "week_order days = map day_at (day_indices days)"
proof -
  have w: "map day_at [0 ..< 7] = WEEK_ALL" by (simp add: WEEK_ALL_def upt_rec)
  have "filter (\<lambda>d. d \<in> set days) (map day_at [0 ..< 7]) = map day_at (filter (\<lambda>i. day_at i \<in> set days) [0 ..< 7])"
    by (simp only: filter_map comp_def)
  then show ?thesis by (simp only: w week_order_def day_indices_def)
qed

lemma day_indices_ok:
  assumes "days \<noteq> []"
  shows "day_indices days \<noteq> []" "sorted_wrt (<) (day_indices days)" "\<forall>i \<in> set (day_indices days). i < 7"
proof -
  obtain d ds where "days = d # ds" using assms by (cases days) auto
  then have "weekday_idx d \<in> set (day_indices days)"
    using weekday_nth [of d] by (auto simp: day_indices_def)
  then show "day_indices days \<noteq> []" by auto
qed (auto simp: day_indices_def intro: sorted_wrt_filter)

lemma day_units_days:
  assumes "days \<noteq> []"
  shows "concat (map unit_days (day_units days)) = week_order days"
proof -
  let ?is = "day_indices days"
  obtain i "is" where i: "?is = i # is" using day_indices_ok(1) [OF assms] by (cases ?is) auto
  have "concat (map unit_days (runs_units i i is)) = map day_at (i # is)"
    using day_indices_ok(2,3) [OF assms] i by (subst runs_days) auto
  moreover have "take 5 WEEK_ALL = map day_at [0, 1, 2, 3, 4]" "drop 5 WEEK_ALL = map day_at [5, 6]"
    by (simp_all add: WEEK_ALL_def)
  ultimately show ?thesis
    using i by (auto simp: day_units_def Let_def week_order_indices)
qed

subsection \<open>The tokens of a schedule\<close>

fun line_kinds :: "ScheduleKind \<Rightarrow> TokenKind list" where
  "line_kinds (K_Interval n u) =
     [Ident ''every'', Ident (show_nat n), Ident (unit_str u @ (if n = 1 then [] else ''s''))]"
| "line_kinds (K_Daily t) = [Ident ''every'', Ident ''day'', Ident ''at'', Ident (tv_raw t)]"
| "line_kinds (K_Weekdays days t) =
     Ident ''every'' # concat (map unit_kinds (day_units days)) @ [Ident ''at'', Ident (tv_raw t)]"
| "line_kinds (K_Monthly ords t) =
     Ident ''every'' # map (Ident \<circ> ordinal_text) ords @ [Ident ''of'', Ident ''month'', Ident ''at'', Ident (tv_raw t)]"
| "line_kinds (K_Once v) = [Ident ''once'', Ident ''at'', value_kind v]"
| "line_kinds K_Disabled = [Ident ''disabled'']"

definition options_kinds :: "shaped list \<Rightarrow> TokenKind list" where
  "options_kinds ss = (if ss = [] then [] else LBrace # Newline # lines_kinds ss @ [RBrace])"

fun mode_kinds :: "ScheduleMode option \<Rightarrow> TokenKind list" where
  "mode_kinds (Some Ephemeral) = [Ident ''ephemeral'']"
| "mode_kinds (Some Queued) = [Ident ''queued'']"
| "mode_kinds None = []"

fun takes_options :: "ScheduleKind \<Rightarrow> bool" where
  "takes_options (K_Once _) = False"
| "takes_options K_Disabled = False"
| "takes_options _ = True"

abbreviation shaped_all :: "(Directive \<times> shaped) list \<Rightarrow> bool" where
  "shaped_all \<equiv> list_all (\<lambda>(d, s). shape_of d s \<and> shaped_ok s)"

definition node_read :: "ScheduleKind \<Rightarrow> (Directive \<times> shaped) list \<Rightarrow> ScheduleNode \<Rightarrow> bool" where
  "node_read k opts n \<longleftrightarrow> unspan_kind (sn_kind n) = unspan_kind k \<and> map unspan_d (sn_options n) = map (unspan_d \<circ> fst) opts"

lemma gives_options:
  assumes "at d (options_kinds (map snd opts) @ Newline # ks) ps" and "shaped_all opts"
  shows "gives (parse_optional_schedule_block l ps) (\<lambda>(ds, _). map unspan_d ds = map (unspan_d \<circ> fst) opts) (at d (Newline # ks))"
proof (cases "opts = []")
  case True
  with assms(1) show ?thesis
    by (auto simp: options_kinds_def parse_optional_schedule_block_def intro!: gives_ret)
next
  case False
  with assms(1) have at: "at d (LBrace # Newline # lines_kinds (map snd opts) @ RBrace # Newline # ks) ps"
    by (simp add: options_kinds_def)
  have "lines_state d (Newline # ks) opts q"
    if "at d (Newline # lines_kinds (map snd opts) @ RBrace # Newline # ks) q" for q
    using that assms(2) past_lines(2) [of "map snd opts" "Newline # ks"] by (auto simp: lines_state_def)
  with at show ?thesis
    unfolding parse_optional_schedule_block_def
    by (auto intro!: gives_then [OF gives_lbrace [OF at]] gives_then [OF gives_lines] gives_then [OF gives_rbrace]
        gives_ret)
qed

lemma gives_node:
  assumes "at d (options_kinds (map snd opts) @ Newline # ks) ps" and "shaped_all opts"
    and "unspan_kind k' = unspan_kind k"
  shows "gives (schedule_node a l k' ps) (node_read k opts) (at d (Newline # ks))"
  unfolding schedule_node_def
  by (rule gives_then [OF gives_options [OF assms(1,2)]])
    (auto simp: node_read_def assms(3) intro!: gives_ret)

subsection \<open>Reading a schedule\<close>

lemma show_nat_no_suffix:
  assumes "suf \<noteq> []" and "\<not> is_ascii_digit (last suf)"
  shows "strip_suffix (show_nat n) suf = None"
proof (cases "strip_suffix (show_nat n) suf")
  case (Some r)
  then have "last (show_nat n) = last suf" using assms(1) by (auto simp: strip_suffix_Some)
  moreover have "is_ascii_digit (last (show_nat n))"
    using show_nat_digits [of n] show_nat_nonempty [of n] by (simp add: list_all_iff)
  ultimately show ?thesis using assms(2) by simp
qed

lemma count_word:
  "parse_compact_interval (show_nat n) = None" "\<not> is_ordinal (show_nat n)" "\<not> is_day_name (show_nat n)"
  "show_nat n \<noteq> ''day''"
proof -
  note no = show_nat_no_suffix [of _ n]
  obtain c s where c: "show_nat n = c # s" "is_ascii_digit c" using show_nat_hd by blast
  then have ne: "show_nat n \<noteq> ''last''" "show_nat n \<noteq> ''day''" by (auto simp: is_ascii_digit_def)
  show "parse_compact_interval (show_nat n) = None" by (simp add: parse_compact_interval_def no is_ascii_digit_def)
  show "\<not> is_ordinal (show_nat n)" using ne by (simp add: is_ordinal_def ends_with_def no is_ascii_digit_def)
  show "\<not> is_day_name (show_nat n)" using c by (simp add: digit_no_day)
  show "show_nat n \<noteq> ''day''" by (rule ne)
qed

lemma interval_unit_text: "interval_unit (unit_str u) = Some u" "interval_unit (unit_str u @ ''s'') = Some u"
  by (cases u; simp add: interval_unit_def)+

text \<open>
  The state after the keyword of a repeated schedule, by what its first word is. \<open>every_at\<close> is the function that
  reads the rest of the line.
\<close>

definition every_at :: "Span \<Rightarrow> Parser \<Rightarrow> ScheduleNode parsed" where
  "every_at start ps =
     (let next = tok_peek ps
      in if is_day_name (tok_text next) then parse_schedule_weekdays start ps
         else if is_ident ''day'' next then parse_schedule_daily start ps
         else if is_ordinal (tok_text next) then parse_schedule_monthly start ps
         else parse_schedule_interval start ps)"

lemma every_at: "parse_schedule_every ps = and_then (expect_ident ''every'' ps) every_at"
  by (simp add: parse_schedule_every_def every_at_def [abs_def])

lemma gives_interval:
  assumes at: "at d (Ident (show_nat n) # Ident w # options_kinds (map snd opts) @ Newline # ks) ps"
    and "interval_unit w = Some u" and "shaped_all opts" and "n \<le> U32_MAX"
  shows "gives (every_at a ps) (node_read (K_Interval n u) opts) (at d (Newline # ks))"
proof -
  from at_advance [OF at] have at1: "at d (Ident w # options_kinds (map snd opts) @ Newline # ks) (advance ps)" by simp
  from at_advance [OF at1] have at2: "at d (options_kinds (map snd opts) @ Newline # ks) (advance (advance ps))" by simp
  from gives_node [OF at2 assms(3) refl [of "unspan_kind (K_Interval n u)"]]
  show ?thesis
    using at at1 count_word [of n] parse_unsigned_show_nat [OF assms(4)]
    by (simp add: every_at_def Let_def parse_schedule_interval_def assms(2))
qed

lemma gives_at_time:
  assumes "at d (Ident ''at'' # Ident (tv_raw t) # options_kinds (map snd opts) @ Newline # ks) ps"
    and "shaped_all opts" and "time_ok t" and "\<And>t'. unspan_time t' = unspan_time t \<Longrightarrow> unspan_kind (c t') = unspan_kind k"
  shows "gives (and_then (expect_ident ''at'' ps) (\<lambda>_ ps. and_then (parse_time_value ps)
      (\<lambda>time ps. schedule_node a (tv_span time) (c time) ps))) (node_read k opts) (at d (Newline # ks))"
proof (rule gives_then [OF gives_expect_ident [OF assms(1)]])
  fix x ps
  assume at: "at d (Ident (tv_raw t) # options_kinds (map snd opts) @ Newline # ks) ps"
  show "gives (and_then (parse_time_value ps) (\<lambda>time ps. schedule_node a (tv_span time) (c time) ps))
      (node_read k opts) (at d (Newline # ks))"
    by (rule gives_then [OF gives_time [OF at _ assms(3)]]) (auto intro!: gives_node assms(2,4))
qed simp

lemma gives_daily:
  assumes "at d (Ident ''day'' # Ident ''at'' # Ident (tv_raw t) # options_kinds (map snd opts) @ Newline # ks) ps"
    and "shaped_all opts" and "time_ok t"
  shows "gives (every_at a ps) (node_read (K_Daily t) opts) (at d (Newline # ks))"
proof -
  have "every_at a ps = parse_schedule_daily a ps"
    using assms(1) by (simp add: every_at_def Let_def group_names)
  then show ?thesis
    unfolding parse_schedule_daily_def
    by (auto intro!: gives_then [OF gives_expect_ident [OF assms(1)]] gives_at_time assms(2,3))
qed

lemma day_units_ne: "days \<noteq> [] \<Longrightarrow> day_units days \<noteq> []"
proof -
  have "runs_units s f is \<noteq> []" if "s \<le> f" for s f "is"
    using that by (induction s f "is" rule: runs_units.induct) (auto simp: run_units_def)
  then show "days \<noteq> [] \<Longrightarrow> ?thesis" by (auto simp: day_units_def Let_def)
qed

lemma unit_kinds_hd: "\<exists>w ls. unit_kinds u = Ident w # ls \<and> is_day_name w"
  using short_names group_names by (cases u) auto

lemma gives_weekdays:
  assumes "at d (concat (map unit_kinds (day_units days)) @ Ident ''at'' # Ident (tv_raw t) #
      options_kinds (map snd opts) @ Newline # ks) ps"
    and "shaped_all opts" and "time_ok t" and "days \<noteq> []"
  shows "gives (every_at a ps) (node_read (K_Weekdays (week_order days) t) opts) (at d (Newline # ks))"
proof -
  let ?tail = "Ident ''at'' # Ident (tv_raw t) # options_kinds (map snd opts) @ Newline # ks"
  obtain u us where u: "day_units days = u # us" using day_units_ne [OF assms(4)] by (cases "day_units days") auto
  have "every_at a ps = parse_schedule_weekdays a ps"
    using assms(1) unit_kinds_hd [of u] u by (auto simp: every_at_def Let_def)
  moreover have s: "days_state d ?tail (day_units days) ps"
    using assms(1) by (simp add: days_state_def group_names)
  ultimately show ?thesis
    unfolding parse_schedule_weekdays_def
    by (auto intro!: gives_then [OF gives_days [OF s]] gives_at_time assms(2,3) simp: day_units_days [OF assms(4)])
qed

lemma last_word: "\<not> is_day_name ''last''" "is_ordinal ''last''" "word_ok ''last''"
  by code_simp+

lemma gives_monthly:
  assumes "at d (map (Ident \<circ> ordinal_text) ords @ Ident ''of'' # Ident ''month'' # Ident ''at'' # Ident (tv_raw t) #
      options_kinds (map snd opts) @ Newline # ks) ps"
    and "shaped_all opts" and "time_ok t" and "ords \<noteq> []" and "list_all ordinal_ok ords"
  shows "gives (every_at a ps) (node_read (K_Monthly ords t) opts) (at d (Newline # ks))"
proof -
  let ?tail = "Ident ''month'' # Ident ''at'' # Ident (tv_raw t) # options_kinds (map snd opts) @ Newline # ks"
  have s: "ords_state d ?tail ords ps" using assms(1,5) by (simp add: ords_state_def)
  obtain m ms where m: "ords = m # ms" using assms(4) by (cases ords) auto
  have "\<not> is_day_name (ordinal_text m)" "ordinal_text m \<noteq> ''day''" "is_ordinal (ordinal_text m)"
    using assms(5) m ordinal_names format_ordinal_word last_word by (cases m; auto)+
  then have every: "every_at a ps = parse_schedule_monthly a ps"
    using assms(1) m by (simp add: every_at_def Let_def)
  have tail: "gives (and_then (expect_ident ''of'' p) (\<lambda>_ ps. and_then (expect_ident ''month'' ps) (\<lambda>_ ps.
      and_then (expect_ident ''at'' ps) (\<lambda>_ ps. and_then (parse_time_value ps) (\<lambda>time ps.
        schedule_node a (tv_span time) (K_Monthly ords time) ps)))))
      (node_read (K_Monthly ords t) opts) (at d (Newline # ks))" if p: "at d (Ident ''of'' # ?tail) p" for p
  proof (rule gives_then [OF gives_expect_ident [OF p]])
    fix x q
    assume q: "at d ?tail q"
    show "gives (and_then (expect_ident ''month'' q) (\<lambda>_ ps. and_then (expect_ident ''at'' ps) (\<lambda>_ ps.
        and_then (parse_time_value ps) (\<lambda>time ps. schedule_node a (tv_span time) (K_Monthly ords time) ps))))
        (node_read (K_Monthly ords t) opts) (at d (Newline # ks))"
      by (rule gives_then [OF gives_expect_ident [OF q]]) (auto intro: gives_at_time assms(2,3))
  qed simp
  show ?thesis
    unfolding every parse_schedule_monthly_def
    by (rule gives_then [OF gives_ordinals [OF s]]) (use tail in blast)
qed

lemma gives_every:
  assumes "at d (line_kinds k @ options_kinds (map snd opts) @ Newline # ks) ps" and "kind_ok k" and "shaped_all opts"
    and "takes_options k"
  shows "gives (parse_schedule_every ps) (node_read (canonical k) opts) (at d (Newline # ks))"
proof -
  let ?tail = "options_kinds (map snd opts) @ Newline # ks"
  obtain ls where ls: "line_kinds k = Ident ''every'' # ls" "ls \<noteq> []" using assms(4) by (cases k) auto
  have "gives (every_at a q) (node_read (canonical k) opts) (at d (Newline # ks))" if q: "at d (ls @ ?tail) q" for a q
  proof (cases k)
    case (K_Interval n u)
    with q ls assms(2,3) show ?thesis
      by (auto intro!: gives_interval simp: interval_unit_text)
  next
    case (K_Daily t)
    with q ls assms(2,3) show ?thesis by (auto intro!: gives_daily)
  next
    case (K_Weekdays days t)
    with q ls assms(2,3) show ?thesis by (auto intro!: gives_weekdays)
  next
    case (K_Monthly ords t)
    with q ls assms(2,3) show ?thesis by (auto intro!: gives_monthly)
  qed (use assms(4) in auto)
  moreover have "gives (expect_ident ''every'' ps) (\<lambda>_. True) (at d (ls @ ?tail))"
    using assms(1) ls by (intro gives_expect_ident) auto
  ultimately show ?thesis unfolding every_at by (blast intro: gives_then)
qed

lemma gives_once:
  assumes "at d (Ident ''once'' # Ident ''at'' # value_kind v # Newline # ks) ps" and "value_ok v"
  shows "gives (parse_schedule_once ps) (node_read (K_Once v) []) (at d (Newline # ks))"
  unfolding parse_schedule_once_def
proof (rule gives_then [OF gives_expect_ident [OF assms(1)]])
  fix x q
  assume q: "at d (Ident ''at'' # value_kind v # Newline # ks) q"
  show "gives (and_then (expect_ident ''at'' q) (\<lambda>_ ps. and_then (read_string_value ps) (\<lambda>datetime ps.
      Inr (\<lparr>sn_kind = K_Once datetime, sn_mode = None, sn_options = [], sn_span = span_merge x (sv_span datetime)\<rparr>, ps))))
      (node_read (K_Once v) []) (at d (Newline # ks))"
    using q value_ok_flags [OF assms(2)]
    by (auto intro!: gives_then [OF gives_expect_ident [OF q]] gives_then [OF gives_value] gives_ret
        simp: node_read_def)
qed simp

abbreviation options_fit :: "ScheduleKind \<Rightarrow> (Directive \<times> shaped) list \<Rightarrow> bool" where
  "options_fit k opts \<equiv> shaped_all opts \<and> (opts = [] \<or> takes_options k)"

text \<open>Reading a schedule node in the form the formatter writes it.\<close>

lemma gives_schedule:
  assumes "at d (mode_kinds m @ line_kinds k @ options_kinds (map snd opts) @ Newline # ks) ps0" and "kind_ok k"
    and "options_fit k opts"
  shows "gives (parse_schedule ps0) (\<lambda>n. node_read (canonical k) opts n \<and> sn_mode n = m) (at d (Newline # ks))"
proof -
  let ?line = "line_kinds k @ options_kinds (map snd opts) @ Newline # ks"
  obtain w ls where w: "line_kinds k = Ident w # ls" "w \<in> {''every'', ''once'', ''disabled''}" by (cases k) auto
  define mode where "mode = schedule_mode (tok_text (tok_peek ps0))"
  define ps where "ps = (if mode = None then ps0 else advance ps0)"
  have m: "mode = m \<and> at d ?line ps"
  proof (cases m)
    case None
    with assms(1) w show ?thesis by (auto simp: mode_def ps_def schedule_mode_def)
  next
    case (Some e)
    with assms(1) w have "at d (Ident (if e = Ephemeral then ''ephemeral'' else ''queued'') # ?line) ps0"
      by (cases e) auto
    from this at_advance [OF this] w Some show ?thesis
      by (cases e) (auto simp: mode_def ps_def schedule_mode_def)
  qed
  let ?r = "if tok_text (tok_peek ps) = ''disabled'' then
      Inr (\<lparr>sn_kind = K_Disabled, sn_mode = None, sn_options = [], sn_span = tspan (tok_peek ps)\<rparr>, advance ps)
    else if tok_text (tok_peek ps) = ''once'' then parse_schedule_once ps
    else if tok_text (tok_peek ps) = ''every'' then parse_schedule_every ps
    else Inl (General (''expected '' @ quoted ''every'' @ '', '' @ quoted ''once'' @ '', or '' @ quoted ''disabled'')
      (tspan (tok_peek ps)))"
  have tt: "tok_text (tok_peek ps) = w" using m w by auto
  have body: "gives ?r (node_read (canonical k) opts) (at d (Newline # ks))"
  proof -
    consider (line) "takes_options k" | (once) v where "k = K_Once v" | (off) "k = K_Disabled" by (cases k) auto
    then show ?thesis
    proof cases
      case line
      then have "w = ''every''" using w by (cases k) auto
      moreover have "gives (parse_schedule_every ps) (node_read (canonical k) opts) (at d (Newline # ks))"
        using m assms(2,3) line by (intro gives_every) auto
      ultimately show ?thesis using tt by simp
    next
      case (once v)
      with m assms(3) have "at d (Ident ''once'' # Ident ''at'' # value_kind v # Newline # ks) ps"
        by (auto simp: options_kinds_def)
      from gives_once [OF this] once assms(2,3) tt w show ?thesis by auto
    next
      case off
      with m assms(3) have "at d (Ident ''disabled'' # Newline # ks) ps" by (auto simp: options_kinds_def)
      from this at_advance [OF this] off assms(3) show ?thesis by (auto simp: node_read_def intro!: gives_ret)
    qed
  qed
  have eq: "parse_schedule ps0 = and_then ?r (\<lambda>node ps. Inr (node\<lparr>sn_mode := mode\<rparr>, ps))"
    unfolding parse_schedule_def Let_def mode_def [symmetric] ps_def [symmetric] ..
  show ?thesis
    unfolding eq by (rule gives_then [OF body]) (use m in \<open>auto intro!: gives_ret simp: node_read_def\<close>)
qed

subsection \<open>Writing a schedule\<close>

lemma lexes_value:
  assumes "value_ok v" and "stops r"
  shows "lexes (format_string_value v @ r) [value_kind v] r"
  using assms lexes_placeholder [of "sv_value v" r] lexes_quote [of "sv_value v" r] lexes_word [of "sv_value v" r]
  by (auto simp: format_string_value_def value_kind_def value_ok_def split: if_splits)

lemma stops_simps [simp]: "stops (CHR '' '' # s)" "stops (NL # s)" "stops (CHR '';'' # s)" "stops []"
  by (simp_all add: stops_def is_ident_char_def less_eq_char_def of_char_def)

lemma lexes_word_space:
  assumes "word_ok w" and "w \<noteq> []" and "lexes r ks t"
  shows "lexes (w @ CHR '' '' # r) (Ident w # ks) t"
  using lexes_Cons [OF lexes_word [OF assms(1,2), of "CHR '' '' # r"] lexes_space [OF assms(3)]] by simp

lemma keyword_words:
  "word_ok ''every''" "word_ok ''day''" "word_ok ''at''" "word_ok ''once''" "word_ok ''disabled''" "word_ok ''of''"
  "word_ok ''month''" "word_ok ''weekday''" "word_ok ''weekend''" "word_ok ''ephemeral''" "word_ok ''queued''"
  "word_ok ''second''" "word_ok ''minute''" "word_ok ''hour''" "word_ok ''seconds''" "word_ok ''minutes''" "word_ok ''hours''"
  by code_simp+

lemma unit_word: "word_ok (unit_str u)" "word_ok (unit_str u @ ''s'')"
  using keyword_words by (cases u; simp)+

lemma lexes_last_word: "word_ok w \<Longrightarrow> w \<noteq> [] \<Longrightarrow> stops r \<Longrightarrow> lexes (w @ r) [Ident w] r"
  by (rule lexes_word)

text \<open>A time of day is written with digits, an optional sign and the colon.\<close>

lemma parse_unsigned_chars: "parse_unsigned mx s = Some n \<Longrightarrow> s \<noteq> [] \<and> (\<forall>c \<in> set s. is_ascii_digit c \<or> c = CHR ''+'')"
  by (cases s) (auto simp: parse_unsigned_def Let_def list_all_iff split: if_splits)

lemma split_on_concat: "\<exists>p ps. split_on sep s = p # ps \<and> s = p @ concat (map (\<lambda>q. sep # q) ps)"
proof (induction s)
  case (Cons c cs)
  then obtain p ps where "split_on sep cs = p # ps" "cs = p @ concat (map (\<lambda>q. sep # q) ps)" by blast
  then show ?case by (cases "c = sep") auto
qed simp

lemma split_on_join: "split_on sep s = [a, b] \<Longrightarrow> s = a @ sep # b"
  using split_on_concat [of sep s] by auto

lemma word_ok_no_dot: "\<forall>c \<in> set s. is_ident_char c \<and> c \<noteq> CHR ''.'' \<Longrightarrow> word_ok s"
  by (induction s) auto

lemma time_word:
  assumes "time_ok t"
  shows "word_ok (tv_raw t)" "tv_raw t \<noteq> []"
proof -
  from assms obtain h m where s: "split_on (CHR '':'') (tv_raw t) = [h, m]"
    and p: "parse_unsigned 255 h = Some (tv_hour t)" "parse_unsigned 255 m = Some (tv_minute t)"
    by (auto simp: time_ok_def split: list.splits)
  have raw: "tv_raw t = h @ CHR '':'' # m" by (rule split_on_join [OF s])
  have i: "is_ident_char (CHR ''+'')" "is_ident_char (CHR '':'')" by code_simp+
  have "is_ident_char c \<and> c \<noteq> CHR ''.''" if "is_ascii_digit c \<or> c = CHR ''+'' \<or> c = CHR '':''" for c
    using that i digit_ident_char [of c] by (elim disjE) simp_all
  moreover have "\<forall>c \<in> set (tv_raw t). is_ascii_digit c \<or> c = CHR ''+'' \<or> c = CHR '':''"
    unfolding raw using parse_unsigned_chars [OF p(1)] parse_unsigned_chars [OF p(2)] by auto
  ultimately show "word_ok (tv_raw t)" by (blast intro: word_ok_no_dot)
  show "tv_raw t \<noteq> []" by (simp add: raw)
qed

text \<open>Parts joined by blanks, each of which lexes to its tokens wherever an identifier would end.\<close>

lemma lexes_join:
  assumes "\<And>x r. x \<in> set xs \<Longrightarrow> stops r \<Longrightarrow> lexes (f x @ r) (g x) r" and "stops r"
  shows "lexes (join '' '' (map f xs) @ r) (concat (map g xs)) r"
  using assms(1)
proof (induction xs rule: induct_list012)
  case 1
  then show ?case by simp
next
  case (2 x)
  then show ?case using assms(2) by simp
next
  case (3 x y ys)
  have "lexes (f x @ CHR '' '' # join '' '' (map f (y # ys)) @ r) (g x) (CHR '' '' # join '' '' (map f (y # ys)) @ r)"
    using "3.prems" by (intro "3.prems") simp_all
  moreover have "lexes (join '' '' (map f (y # ys)) @ r) (concat (map g (y # ys))) r"
    using "3.prems" by (intro "3.IH"(2)) auto
  ultimately show ?case using lexes_trans [OF _ lexes_space] by fastforce
qed

lemma lexes_unit:
  assumes "stops r"
  shows "lexes (emit_run s f @ r) (concat (map unit_kinds (run_units s f))) r"
proof (cases "f - s + 1 \<ge> 3")
  case True
  have "lexes (weekday_short (day_at s) @ ''..'' @ weekday_short (day_at f) @ r)
      ([Ident (weekday_short (day_at s))] @ [DotDot] @ [Ident (weekday_short (day_at f))]) r"
    using short_names [of "day_at s"] short_names [of "day_at f"] assms
    by (intro lexes_trans [OF lexes_word_dots] lexes_trans [OF lexes_dots] lexes_word) (auto dest: is_day_name_text)
  with True show ?thesis by (simp add: emit_run_def run_units_def)
next
  case False
  have "lexes (join '' '' (map (\<lambda>i. weekday_short (day_at i)) [s ..< Suc f]) @ r)
      (concat (map (\<lambda>i. [Ident (weekday_short (day_at i))]) [s ..< Suc f])) r"
    by (rule lexes_join [OF _ assms]) (use short_names in \<open>auto intro!: lexes_word dest: is_day_name_text\<close>)
  with False show ?thesis by (simp add: emit_run_def run_units_def comp_def del: upt_Suc)
qed

fun run_list :: "nat \<Rightarrow> nat \<Rightarrow> nat list \<Rightarrow> (nat \<times> nat) list" where
  "run_list s f [] = [(s, f)]"
| "run_list s f (i # is) = (if i = f + 1 then run_list s i is else (s, f) # run_list i i is)"

lemma run_list_text: "week_runs s f is = map (\<lambda>(a, b). emit_run a b) (run_list s f is)"
  by (induction s f "is" rule: run_list.induct) auto

lemma run_list_units: "runs_units s f is = concat (map (\<lambda>(a, b). run_units a b) (run_list s f is))"
  by (induction s f "is" rule: run_list.induct) auto

lemma concat_map_concat: "concat (map u (concat xss)) = concat (map (\<lambda>xs. concat (map u xs)) xss)"
  by (induction xss) auto

lemma lexes_days:
  assumes "days \<noteq> []" and "stops r"
  shows "lexes (format_weekday_list days @ r) (concat (map unit_kinds (day_units days))) r"
proof -
  let ?is = "day_indices days"
  have runs: "lexes (join '' '' (week_runs i i is) @ r) (concat (map unit_kinds (runs_units i i is))) r" for i "is"
  proof -
    have "lexes (join '' '' (map (\<lambda>(a, b). emit_run a b) (run_list i i is)) @ r)
        (concat (map (\<lambda>(a, b). concat (map unit_kinds (run_units a b))) (run_list i i is))) r"
      by (rule lexes_join [OF _ assms(2)]) (auto intro: lexes_unit)
    moreover have "concat (map unit_kinds (runs_units i i is)) =
        concat (map (\<lambda>(a, b). concat (map unit_kinds (run_units a b))) (run_list i i is))"
      by (simp add: run_list_units concat_map_concat case_prod_unfold comp_def)
    ultimately show ?thesis by (simp add: run_list_text)
  qed
  show ?thesis
    unfolding format_weekday_list_def day_units_def Let_def day_indices_def [symmetric]
    using assms runs lexes_word [OF keyword_words(8)] lexes_word [OF keyword_words(9)] by simp
qed

lemma lexes_words_then:
  assumes "word_ok w" and "w \<noteq> []" and "lexes s ks r" and "\<exists>b s'. s = CHR '' '' # s'"
  shows "lexes (w @ s) (Ident w # ks) r"
  using assms by (intro lexes_Cons [OF lexes_word [of w s]]) auto

lemma lexes_time:
  assumes "time_ok t" and "stops r"
  shows "lexes ('' at '' @ tv_raw t @ r) [Ident ''at'', Ident (tv_raw t)] r"
  using lexes_space [OF lexes_word_space [OF keyword_words(3) _ lexes_word [OF time_word [OF assms(1)] assms(2)]]]
  by simp

lemma lexes_interval:
  assumes "stops r"
  shows "lexes (show_nat n @ '' '' @ unit_str u @ (if n = 1 then [] else ''s'') @ r)
    [Ident (show_nat n), Ident (unit_str u @ (if n = 1 then [] else ''s''))] r"
proof -
  have "word_ok (unit_str u @ (if n = 1 then [] else ''s''))" using unit_word by simp
  moreover have "unit_str u @ (if n = 1 then [] else ''s'') \<noteq> []" by (cases u) simp_all
  ultimately have "lexes ((unit_str u @ (if n = 1 then [] else ''s'')) @ r) [Ident (unit_str u @ (if n = 1 then [] else ''s''))] r"
    using assms by (intro lexes_word)
  from lexes_word_space [OF _ show_nat_nonempty [of n] this] word_ok_digits [of "show_nat n" "[]"] show ?thesis by simp
qed

text \<open>The text of a schedule line lexes to the tokens the parser lemmas start from.\<close>

lemma lexes_line:
  assumes "kind_ok k" and "stops r"
  shows "lexes (format_schedule_line k @ r) (line_kinds k) r"
proof (cases k)
  case (K_Interval n u)
  from lexes_word_space [OF keyword_words(1) _ lexes_interval [OF assms(2), of n u]] K_Interval show ?thesis
    by (simp add: interval_phrase_def)
next
  case (K_Daily t)
  with assms have "lexes ('' at '' @ tv_raw t @ r) [Ident ''at'', Ident (tv_raw t)] r" by (intro lexes_time) auto
  from lexes_word_space [OF keyword_words(1) _ lexes_words_then [OF keyword_words(2) _ this]] K_Daily show ?thesis by simp
next
  case (K_Weekdays days t)
  with assms have at: "lexes ('' at '' @ tv_raw t @ r) [Ident ''at'', Ident (tv_raw t)] r" by (intro lexes_time) auto
  have "lexes (format_weekday_list days @ '' at '' @ tv_raw t @ r)
      (concat (map unit_kinds (day_units days)) @ [Ident ''at'', Ident (tv_raw t)]) r"
    using K_Weekdays assms by (intro lexes_trans [OF lexes_days at]) auto
  from lexes_word_space [OF keyword_words(1) _ this] K_Weekdays show ?thesis by simp
next
  case (K_Monthly ords t)
  with assms have at: "lexes ('' at '' @ tv_raw t @ r) [Ident ''at'', Ident (tv_raw t)] r" by (intro lexes_time) auto
  have tail: "lexes ('' of month at '' @ tv_raw t @ r) [Ident ''of'', Ident ''month'', Ident ''at'', Ident (tv_raw t)] r"
    using lexes_space [OF lexes_word_space [OF keyword_words(6) _ lexes_words_then [OF keyword_words(7) _ at]]] by simp
  have ords: "lexes (join '' '' (map ordinal_text ords) @ '' of month at '' @ tv_raw t @ r)
      (concat (map (\<lambda>m. [Ident (ordinal_text m)]) ords)) ('' of month at '' @ tv_raw t @ r)"
  proof (rule lexes_join)
    fix m and r' :: string
    assume "stops r'"
    then show "lexes (ordinal_text m @ r') [Ident (ordinal_text m)] r'"
      using format_ordinal_word lexes_word [OF last_word(3), of r'] by (cases m) (auto intro!: lexes_word)
  qed simp
  have "concat (map (\<lambda>m. [Ident (ordinal_text m)]) ords) = map (Ident \<circ> ordinal_text) ords" by (induction ords) auto
  with lexes_word_space [OF keyword_words(1) _ lexes_trans [OF ords tail]] K_Monthly show ?thesis by (simp add: comp_def)
next
  case (K_Once v)
  with assms have "lexes (format_string_value v @ r) [value_kind v] r" by (intro lexes_value) auto
  from lexes_word_space [OF keyword_words(4) _ lexes_word_space [OF keyword_words(3) _ this]] K_Once show ?thesis by simp
next
  case K_Disabled
  with lexes_word [OF keyword_words(5) _ assms(2)] show ?thesis by simp
qed

subsection \<open>A schedule expression on its own\<close>

lemma gives_loop_continue:
  assumes "gives (body s ps) (\<lambda>r. \<exists>s'. r = Continue s' \<and> P s') S" and "ps_ok ps" and "goes_on ps (body s ps)"
    and "\<And>s' ps'. P s' \<Longrightarrow> S ps' \<Longrightarrow> gives (p_loop body s' ps') Q T"
  shows "gives (p_loop body s ps) Q T"
proof -
  from assms(1) obtain s' ps' where b: "body s ps = Inr (Continue s', ps')" "P s'" "S ps'" by (auto simp: gives_def)
  with assms(3) have "length (ptoks ps') < length (ptoks ps)" by (simp add: after_def)
  with b assms(4) [OF b(2,3)] show ?thesis by (subst p_loop.simps) simp
qed

lemma gives_loop_break:
  "gives (body s ps) (\<lambda>r. \<exists>s'. r = Break s' \<and> P s') S \<Longrightarrow> gives (p_loop body s ps) P S"
  by (subst p_loop.simps) (auto simp: gives_def)

lemma gives_job_schedule:
  assumes "at d (Newline # mode_kinds m @ line_kinds k @ options_kinds (map snd opts) @ Newline # ks) ps" and "kind_ok k"
    and "options_fit k opts"
  shows "gives (job_step (None, ds) ps)
    (\<lambda>r. \<exists>n. r = Continue (Some n, ds) \<and> node_read (canonical k) opts n \<and> sn_mode n = m) (at d (Newline # ks))"
proof -
  let ?ks = "mode_kinds m @ line_kinds k @ options_kinds (map snd opts) @ Newline # ks"
  obtain w ls where w: "?ks = Ident w # ls"
    "w \<in> {''every'', ''once'', ''disabled'', ''ephemeral'', ''queued''}"
    by (cases m; cases "the m"; cases k) auto
  then have at: "at d ?ks (skip_newlines ps)" using at_skip_newlines [OF assms(1)] by simp
  then have at': "at d (Ident w # ls) (skip_newlines ps)" using w by simp
  have "is_schedule_start (skip_newlines ps)" using at' w(2) by (auto simp: is_schedule_start_def Let_def)
  then show ?thesis
    using at' by (auto simp: job_step_def Let_def intro!: gives_then [OF gives_schedule [OF at assms(2,3)]] gives_ret)
qed

lemma gives_job_end:
  assumes "at d ks ps" and "past_newlines ks = RBrace # ls"
  shows "gives (p_loop job_step b ps) (\<lambda>b'. b' = b) (at d (RBrace # ls))"
proof (rule gives_loop_break)
  have "at d (RBrace # ls) (skip_newlines ps)" using at_skip_newlines [OF assms(1)] assms(2) by simp
  then show "gives (job_step b ps) (\<lambda>r. \<exists>s'. r = Break s' \<and> s' = b) (at d (RBrace # ls))"
    by (cases b) (auto simp: job_step_def Let_def intro!: gives_ret)
qed

abbreviation probe_kinds :: "ScheduleKind \<Rightarrow> TokenKind list" where
  "probe_kinds k \<equiv> [Ident ''job'', Ident ''__sched__:__probe__'', LBrace, Newline] @ line_kinds k @
     [Newline, RBrace, Newline]"

lemma line_not_blank: "\<exists>c s. format_schedule_line k = c # s \<and> \<not> blank c"
  by (cases k) auto

lemma lexes_probe:
  assumes "kind_ok k"
  shows "lexes (''job __sched__:__probe__ {'' @ [NL] @ format_schedule_line k @ [NL] @ ''}'' @ [NL]) (probe_kinds k) []"
proof -
  have w: "word_ok ''job''" "word_ok ''__sched__:__probe__''" by code_simp+
  have fin: "lexes (NL # CHR ''}'' # [NL]) [Newline, RBrace, Newline] []"
    using lexes_newline [OF lexes_Cons [OF lexes_rbrace lexes_newline [of "[]" "[]" "[]" 0]], of 0]
    by (simp add: indent_str_def)
  have "lexes (format_schedule_line k @ NL # CHR ''}'' # [NL]) (line_kinds k @ [Newline, RBrace, Newline]) []"
    using assms by (intro lexes_trans [OF lexes_line fin]) simp_all
  from lexes_newline [OF this, of 0] line_not_blank [of k]
  have "lexes (NL # format_schedule_line k @ NL # CHR ''}'' # [NL]) (Newline # line_kinds k @ [Newline, RBrace, Newline]) []"
    by (auto simp: indent_str_def)
  from lexes_Cons [OF lexes_lbrace this]
  have "lexes (CHR ''{'' # NL # format_schedule_line k @ NL # CHR ''}'' # [NL])
      (LBrace # Newline # line_kinds k @ [Newline, RBrace, Newline]) []" by simp
  from lexes_word_space [OF w(1) _ lexes_word_space [OF w(2) _ this]] show ?thesis by simp
qed

lemma gives_job_key:
  assumes "at d (Ident w # ks) ps" and "ks \<noteq> []" and "length (split_on (CHR '':'') w) \<in> {2, 3}"
  shows "gives (parse_job_key ps) (\<lambda>key. jk_raw key = w) (at d ks)"
  using assms at_advance [OF assms(1,2)] by (auto simp: parse_job_key_def Let_def intro!: gives_ret)

lemma gives_probe_job:
  assumes "at d (probe_kinds k @ ks) ps" and "kind_ok k" and "ks \<noteq> []"
  shows "gives (parse_job ps) (\<lambda>j. \<exists>n. jb_schedule j = Some n \<and> unspan_kind (sn_kind n) = unspan_kind (canonical k))
    (at d (Newline # ks))"
proof -
  let ?a = "Newline # line_kinds k @ Newline # RBrace # Newline # ks"
  have body: "gives (p_loop job_step (None, []) q)
      (\<lambda>b. \<exists>n. fst b = Some n \<and> unspan_kind (sn_kind n) = unspan_kind (canonical k)) (at d (RBrace # Newline # ks))"
    if q: "at d ?a q" for q
  proof (rule gives_loop_continue [where body = job_step])
    show "ps_ok q" by (rule at_ok [OF q])
    then show "goes_on q (job_step (None, []) q)" by (rule job_step_goes_on)
    show "gives (job_step (None, []) q)
        (\<lambda>r. \<exists>s'. r = Continue s' \<and> (\<exists>n. s' = (Some n, []) \<and> node_read (canonical k) [] n))
        (at d (Newline # RBrace # Newline # ks))"
      using gives_job_schedule [of d None k "[]" "RBrace # Newline # ks" q "[]"] q assms(2)
      by (auto simp: options_kinds_def elim!: gives_weaken)
    fix s' :: job_body and q'
    assume s: "\<exists>n. s' = (Some n, []) \<and> node_read (canonical k) [] n" and q': "at d (Newline # RBrace # Newline # ks) q'"
    from gives_job_end [OF q', of "Newline # ks" s'] s
    show "gives (p_loop job_step s' q')
        (\<lambda>b. \<exists>n. fst b = Some n \<and> unspan_kind (sn_kind n) = unspan_kind (canonical k)) (at d (RBrace # Newline # ks))"
      by (auto elim!: gives_weaken simp: node_read_def)
  qed
  have key: "length (split_on (CHR '':'') ''__sched__:__probe__'') = 2" by code_simp
  show ?thesis
    unfolding parse_job_def
  proof (rule gives_then [OF gives_expect_ident [OF assms(1) [simplified]]])
    fix x q1
    assume q1: "at d (Ident ''__sched__:__probe__'' # LBrace # ?a) q1"
    show "gives (and_then (parse_job_key q1) (\<lambda>key ps. and_then (expect_lbrace ps) (\<lambda>_ ps.
        and_then (p_loop job_step (None, []) ps) (\<lambda>(sched, ds) ps. and_then (expect_rbrace ps) (\<lambda>fin ps.
        Inr (\<lparr>jb_key = key, jb_schedule = sched, jb_directives = ds, jb_span = span_merge x fin\<rparr>, ps))))))
        (\<lambda>j. \<exists>n. jb_schedule j = Some n \<and> unspan_kind (sn_kind n) = unspan_kind (canonical k)) (at d (Newline # ks))"
      using assms(3)
      by (auto intro!: gives_then [OF gives_job_key [OF q1]] gives_then [OF gives_lbrace] gives_then [OF body]
          gives_then [OF gives_rbrace] gives_ret simp: key)
  qed simp
qed

lemma parse_schedule_expr_reads:
  assumes "kind_ok k"
  shows "\<exists>k'. parse_schedule_expr (format_schedule_line k) = Inr k' \<and> unspan_kind k' = unspan_kind (canonical k)"
proof -
  define src where "src = ''job __sched__:__probe__ {'' @ [NL] @ format_schedule_line k @ [NL] @ ''}'' @ [NL]"
  from lexes_tokens [OF lexes_probe [OF assms]] src_def obtain toks where
    t: "tokenize src = Inr toks" "map kind toks = probe_kinds k @ [Eof]" by auto
  let ?ps = "\<lparr>ptoks = toks, depth = 0\<rparr>"
  have at: "at 0 (probe_kinds k @ [Eof]) ?ps" using t tokenize_ok [OF t(1)] by (simp add: at_def)
  have skip: "at 0 (probe_kinds k @ [Eof]) (skip_terminators ?ps)" using at_skip_terminators [OF at] by simp
  have skip2: "at 0 (probe_kinds k @ [Eof]) (skip_terminators (skip_terminators ?ps))"
    using at_skip_terminators [OF skip] by simp
  let ?good = "\<lambda>items. \<exists>j n. items = [I_Job j] \<and> jb_schedule j = Some n \<and>
      unspan_kind (sn_kind n) = unspan_kind (canonical k)"
  have item: "gives (parse_item (skip_terminators ?ps)) (\<lambda>i. ?good [i]) (at 0 [Newline, Eof])"
  proof -
    have "kind (tok_peek (skip_terminators (skip_terminators ?ps))) = Ident ''job''" using skip2 by simp
    then have "parse_item (skip_terminators ?ps) = item_of I_Job (parse_job (skip_terminators (skip_terminators ?ps)))"
      by (simp add: parse_item_def)
    then show ?thesis
      unfolding item_of_def using gives_probe_job [OF skip2 assms]
      by (auto elim!: gives_then intro!: gives_ret)
  qed
  have "gives (p_loop items_body [] ?ps) ?good (\<lambda>_. True)"
  proof (rule gives_loop_continue [where body = items_body and P = ?good and S = "at 0 [Newline, Eof]"])
    show "ps_ok ?ps" by (rule at_ok [OF at])
    then show "goes_on ?ps (items_body [] ?ps)" by (rule items_body_goes_on)
    show "gives (items_body [] ?ps) (\<lambda>r. \<exists>s'. r = Continue s' \<and> ?good s') (at 0 [Newline, Eof])"
      using skip by (auto simp: items_body_def Let_def intro!: gives_then [OF item] gives_ret)
    fix items q
    assume g: "?good items" and q: "at 0 [Newline, Eof] q"
    from at_skip_terminators [OF q] have "at_end (skip_terminators q)" by simp
    with g show "gives (p_loop items_body items q) ?good (\<lambda>_. True)"
      by (intro gives_loop_break) (auto simp: items_body_def Let_def intro!: gives_ret)
  qed
  then obtain items ps' where l: "p_loop items_body [] ?ps = Inr (items, ps')" and g: "?good items"
    by (auto simp: gives_def)
  then have "\<exists>ast. parse src = Inr ast \<and> cf_items ast = items"
    by (simp add: parse_def t(1) parse_croniqfile_def Let_def and_then_def)
  with g show ?thesis unfolding parse_schedule_expr_def src_def [symmetric] by auto
qed

end
