(* ===== verification/Config_Schedule.thy ===== *)
theory Config_Schedule
  imports Reschedule
begin

text \<open>
  The compiled schedule of a job, \<^verbatim>\<open>croniq-config/src/schedule.rs\<close>: built from the syntax tree, summarised
  for people, and written as the canonical line that is stored and read back when the scheduler rebuilds a trigger.
  Seconds, counts, hours and minutes are natural numbers; the cast to 32 bits is written out.
\<close>

datatype CompiledSchedule =
    CS_Interval nat
  | CS_Daily nat nat
  | CS_Weekdays "Weekday list" nat nat
  | CS_Monthly "MonthOrdinal list" nat nat
  | CS_Once string
  | CS_Disabled

fun compiled_from_ast :: "ScheduleKind \<Rightarrow> CompiledSchedule" where
  "compiled_from_ast (K_Interval n unit) =
     CS_Interval (case unit of Seconds \<Rightarrow> n | Minutes \<Rightarrow> n * 60 | Hours \<Rightarrow> n * 3600)"
| "compiled_from_ast (K_Daily time) = CS_Daily (tv_hour time) (tv_minute time)"
| "compiled_from_ast (K_Weekdays days time) = CS_Weekdays days (tv_hour time) (tv_minute time)"
| "compiled_from_ast (K_Monthly ordinals time) = CS_Monthly ordinals (tv_hour time) (tv_minute time)"
| "compiled_from_ast (K_Once w) = CS_Once (sv_value w)"
| "compiled_from_ast K_Disabled = CS_Disabled"

definition hm_text :: "nat \<Rightarrow> nat \<Rightarrow> string" where
  "hm_text hour minute = two_digits hour @ '':'' @ two_digits minute"

fun compiled_summary :: "CompiledSchedule \<Rightarrow> string" where
  "compiled_summary (CS_Interval secs) =
     ''every '' @
     (if secs \<ge> 3600 \<and> secs mod 3600 = 0 then interval_phrase (secs div 3600) ''hour''
      else if secs \<ge> 60 \<and> secs mod 60 = 0 then interval_phrase (secs div 60) ''minute''
      else interval_phrase secs ''second'')"
| "compiled_summary (CS_Daily hour minute) = ''every day at '' @ hm_text hour minute"
| "compiled_summary (CS_Weekdays days hour minute) =
     ''every '' @ join '', '' (map weekday_as_str days) @ '' at '' @ hm_text hour minute"
| "compiled_summary (CS_Monthly ordinals hour minute) =
     ''every '' @ join '', '' (map (\<lambda>m. case m of MO_Day d \<Rightarrow> show_nat d | MO_Last \<Rightarrow> ''last'') ordinals) @
     '' of month at '' @ hm_text hour minute"
| "compiled_summary (CS_Once w) = ''once at '' @ w"
| "compiled_summary CS_Disabled = ''disabled''"

definition time_value :: "nat \<Rightarrow> nat \<Rightarrow> TimeValue" where
  "time_value hour minute =
     \<lparr>tv_hour = hour, tv_minute = minute, tv_raw = hm_text hour minute, tv_span = span_empty 0\<rparr>"

fun to_schedule_kind :: "CompiledSchedule \<Rightarrow> ScheduleKind" where
  "to_schedule_kind (CS_Interval secs) =
     (if secs \<ge> 3600 \<and> secs mod 3600 = 0 then K_Interval (u64_as_u32 (secs div 3600)) Hours
      else if secs \<ge> 60 \<and> secs mod 60 = 0 then K_Interval (u64_as_u32 (secs div 60)) Minutes
      else K_Interval (u64_as_u32 secs) Seconds)"
| "to_schedule_kind (CS_Daily hour minute) = K_Daily (time_value hour minute)"
| "to_schedule_kind (CS_Weekdays days hour minute) = K_Weekdays days (time_value hour minute)"
| "to_schedule_kind (CS_Monthly ordinals hour minute) = K_Monthly ordinals (time_value hour minute)"
| "to_schedule_kind (CS_Once w) =
     K_Once \<lparr>sv_value = w, sv_quoted = True, sv_placeholder = False, sv_span = span_empty 0\<rparr>"
| "to_schedule_kind CS_Disabled = K_Disabled"

definition to_dsl :: "CompiledSchedule \<Rightarrow> string" where
  "to_dsl s = format_schedule_line (to_schedule_kind s)"

subsection \<open>Well-formed schedules\<close>

text \<open>
  What the compiler makes of a schedule the parser accepted. An interval is a 32-bit count of one of the three units;
  \<open>interval_fits\<close> says so of the number of seconds.
\<close>

definition interval_fits :: "nat \<Rightarrow> bool" where
  "interval_fits secs \<longleftrightarrow>
     secs \<le> U32_MAX \<or> (secs mod 60 = 0 \<and> secs div 60 \<le> U32_MAX) \<or> (secs mod 3600 = 0 \<and> secs div 3600 \<le> U32_MAX)"

fun compiled_ok :: "CompiledSchedule \<Rightarrow> bool" where
  "compiled_ok (CS_Interval secs) \<longleftrightarrow> interval_fits secs"
| "compiled_ok (CS_Daily hour minute) \<longleftrightarrow> hour \<le> 23 \<and> minute \<le> 59"
| "compiled_ok (CS_Weekdays days hour minute) \<longleftrightarrow> days \<noteq> [] \<and> hour \<le> 23 \<and> minute \<le> 59"
| "compiled_ok (CS_Monthly ordinals hour minute) \<longleftrightarrow>
     ordinals \<noteq> [] \<and> list_all ordinal_ok ordinals \<and> hour \<le> 23 \<and> minute \<le> 59"
| "compiled_ok (CS_Once w) \<longleftrightarrow> True"
| "compiled_ok CS_Disabled \<longleftrightarrow> True"

fun in_week_order :: "CompiledSchedule \<Rightarrow> CompiledSchedule" where
  "in_week_order (CS_Weekdays days hour minute) = CS_Weekdays (week_order days) hour minute"
| "in_week_order s = s"

lemma compiled_unspan: "unspan_kind k = unspan_kind k' \<Longrightarrow> compiled_from_ast k = compiled_from_ast k'"
  by (cases k; cases k') (auto simp: unspan_eq unspan_time_eq)

lemma compiled_canonical: "compiled_from_ast (canonical k) = in_week_order (compiled_from_ast k)"
  by (cases k) auto

lemma digit_no_colon: "list_all is_ascii_digit s \<Longrightarrow> CHR '':'' \<notin> set s"
  by (auto simp: list_all_iff is_ascii_digit_def)

lemma split_on_two: "CHR '':'' \<notin> set a \<Longrightarrow> CHR '':'' \<notin> set b \<Longrightarrow> split_on (CHR '':'') (a @ CHR '':'' # b) = [a, b]"
proof -
  have one: "CHR '':'' \<notin> set s \<Longrightarrow> split_on (CHR '':'') s = [s]" for s by (induction s) auto
  show "CHR '':'' \<notin> set a \<Longrightarrow> CHR '':'' \<notin> set b \<Longrightarrow> ?thesis" by (induction a) (auto simp: one)
qed

lemma two_digits_read:
  assumes "n < 100"
  shows "list_all is_ascii_digit (two_digits n) \<and> parse_unsigned 255 (two_digits n) = Some n"
proof -
  have digit: "is_ascii_digit (CHR ''0'')" by (simp add: is_ascii_digit_def)
  have "digits_value (CHR ''0'' # show_nat n) = n"
    using digits_value_show_nat [of n] by (simp add: digits_value_def digit_val_def)
  then have "parse_unsigned 255 (CHR ''0'' # show_nat n) = Some n"
    using assms digit parse_unsigned_digits [of "CHR ''0'' # show_nat n" 255] by simp
  with assms digit show ?thesis by (simp add: two_digits_def parse_unsigned_show_nat)
qed

lemma time_value_ok: "hour \<le> 23 \<Longrightarrow> minute \<le> 59 \<Longrightarrow> time_ok (time_value hour minute)"
  using two_digits_read [of hour] two_digits_read [of minute]
  by (simp add: time_ok_def time_value_def hm_text_def split_on_two digit_no_colon)

lemma u32_cast: "n \<le> U32_MAX \<Longrightarrow> u64_as_u32 n = n"
  by (simp add: u64_as_u32_def U32_MAX_def)

lemma interval_fits_count:
  assumes "interval_fits secs"
  shows "secs \<ge> 3600 \<Longrightarrow> secs mod 3600 = 0 \<Longrightarrow> secs div 3600 \<le> U32_MAX"
    and "\<not> (secs \<ge> 3600 \<and> secs mod 3600 = 0) \<Longrightarrow> secs \<ge> 60 \<Longrightarrow> secs mod 60 = 0 \<Longrightarrow> secs div 60 \<le> U32_MAX"
    and "\<not> (secs \<ge> 3600 \<and> secs mod 3600 = 0) \<Longrightarrow> \<not> (secs \<ge> 60 \<and> secs mod 60 = 0) \<Longrightarrow> secs \<le> U32_MAX"
proof -
  have "secs div 3600 \<le> secs div 60" "secs div 60 \<le> secs" by (simp_all add: div_le_mono2)
  then show "secs \<ge> 3600 \<Longrightarrow> secs mod 3600 = 0 \<Longrightarrow> secs div 3600 \<le> U32_MAX"
    and "\<not> (secs \<ge> 3600 \<and> secs mod 3600 = 0) \<Longrightarrow> secs \<ge> 60 \<Longrightarrow> secs mod 60 = 0 \<Longrightarrow> secs div 60 \<le> U32_MAX"
    and "\<not> (secs \<ge> 3600 \<and> secs mod 3600 = 0) \<Longrightarrow> \<not> (secs \<ge> 60 \<and> secs mod 60 = 0) \<Longrightarrow> secs \<le> U32_MAX"
    using assms unfolding interval_fits_def U32_MAX_def by auto
qed

lemma schedule_kind_ok:
  assumes "compiled_ok s"
  shows "kind_ok (to_schedule_kind s) \<and> compiled_from_ast (to_schedule_kind s) = s"
proof (cases s)
  case (CS_Interval secs)
  with assms have fits: "interval_fits secs" by simp
  show ?thesis
    using interval_fits_count [OF fits] by (auto simp: CS_Interval u32_cast)
next
  case (CS_Once w)
  then show ?thesis by (simp add: value_ok_def)
qed (use assms time_value_ok in \<open>auto simp: time_value_def\<close>)

lemma to_dsl_reads:
  assumes "compiled_ok s"
  shows "\<exists>k. parse_schedule_expr (to_dsl s) = Inr k \<and> compiled_from_ast k = in_week_order s"
proof -
  obtain k where "parse_schedule_expr (to_dsl s) = Inr k"
    and "unspan_kind k = unspan_kind (canonical (to_schedule_kind s))"
    using parse_schedule_expr_reads schedule_kind_ok [OF assms] unfolding to_dsl_def by blast
  then show ?thesis
    using compiled_unspan compiled_canonical schedule_kind_ok [OF assms] by metis
qed

subsection \<open>What the parser accepts compiles to a well-formed schedule\<close>

lemma week_walk_nonempty: "week_walk e i out \<noteq> []"
proof (induction e i out rule: week_walk.induct)
  case (1 e i out)
  then show ?case by (simp add: week_walk.simps [of e i out] Let_def)
qed

lemma parse_group_nonempty: "parse_group s = Some ds \<Longrightarrow> ds \<noteq> []"
  by (auto simp: parse_group_def Let_def WEEK_ALL_def split: if_splits)

lemma p_loop_first:
  assumes "p_loop body s ps = Inr (t, ps')"
  obtains "body s ps = Inr (Break t, ps')"
  | s' q where "body s ps = Inr (Continue s', q)" and "p_loop body s' q = Inr (t, ps')"
  using assms by (auto simp: p_loop.simps [of body s ps] split: sum.splits flow.splits if_splits)

lemma weekdays_body_continue: "weekdays_body days ps = Inr (Continue days', ps') \<Longrightarrow> days' \<noteq> []"
  by (auto simp: weekdays_body_def Let_def weekday_range_def week_walk_nonempty
      split: if_splits option.splits dest: parse_group_nonempty)

lemma weekdays_body_break:
  "weekdays_body days ps = Inr (Break days', ps') \<Longrightarrow> days' = days \<and> \<not> is_day_name (tok_text (tok_peek ps))"
  by (auto simp: weekdays_body_def Let_def split: if_splits option.splits)

lemma weekdays_loop_nonempty:
  assumes "is_day_name (tok_text (tok_peek ps))" and "p_loop weekdays_body [] ps = Inr (days, ps')"
  shows "days \<noteq> []"
  using assms(2)
proof (cases rule: p_loop_first)
  case (2 days' q)
  show ?thesis
    by (rule p_loop_inv [where P = "\<lambda>ds. ds \<noteq> []", OF _ _ _ 2(2)])
      (use 2(1) in \<open>auto dest: weekdays_body_continue weekdays_body_break\<close>)
qed (use assms(1) weekdays_body_break in blast)

lemma parse_ordinal_ok: "parse_ordinal ps = Inr (m, ps') \<Longrightarrow> ordinal_ok m"
  by (auto simp: parse_ordinal_def Let_def split: if_splits option.splits)

lemma ordinals_body_continue:
  "ordinals_body ords ps = Inr (Continue ords', ps') \<Longrightarrow> list_all ordinal_ok ords \<Longrightarrow>
     ords' \<noteq> [] \<and> list_all ordinal_ok ords'"
  by (auto simp: ordinals_body_def and_then_Inr split: if_splits dest: parse_ordinal_ok)

lemma ordinals_body_break:
  "ordinals_body ords ps = Inr (Break ords', ps') \<Longrightarrow> ords' = ords \<and> \<not> is_ordinal (tok_text (tok_peek ps))"
  by (auto simp: ordinals_body_def and_then_Inr split: if_splits)

lemma ordinals_loop_ok:
  assumes "is_ordinal (tok_text (tok_peek ps))" and "p_loop ordinals_body [] ps = Inr (ords, ps')"
  shows "ords \<noteq> [] \<and> list_all ordinal_ok ords"
  using assms(2)
proof (cases rule: p_loop_first)
  case (2 ords' q)
  show ?thesis
    by (rule p_loop_inv [where P = "\<lambda>os. os \<noteq> [] \<and> list_all ordinal_ok os", OF _ _ _ 2(2)])
      (use 2(1) in \<open>auto dest: ordinals_body_continue ordinals_body_break\<close>)
qed (use assms(1) ordinals_body_break in blast)

lemma parse_time_ok: "parse_time_value ps = Inr (t, ps') \<Longrightarrow> tv_hour t \<le> 23 \<and> tv_minute t \<le> 59"
  by (auto simp: parse_time_value_def Let_def split: if_splits option.splits list.splits)

lemma schedule_node_kind: "schedule_node a l k ps = Inr (n, ps') \<Longrightarrow> sn_kind n = k"
  by (auto simp: schedule_node_def and_then_Inr)

lemma compiled_interval_ok:
  assumes "n \<le> U32_MAX"
  shows "compiled_ok (compiled_from_ast (K_Interval n u))"
  using assms by (cases u) (auto simp: interval_fits_def)

lemma parse_schedule_interval_ok: "parse_schedule_interval a ps = Inr (n, ps') \<Longrightarrow> compiled_ok (compiled_from_ast (sn_kind n))"
  by (auto simp: parse_schedule_interval_def parse_compact_interval_def Let_def
      split: option.splits if_splits dest!: schedule_node_kind parse_unsigned_bound intro!: compiled_interval_ok
      simp del: compiled_from_ast.simps)

lemma parse_schedule_every_ok: "parse_schedule_every ps = Inr (n, ps') \<Longrightarrow> compiled_ok (compiled_from_ast (sn_kind n))"
  by (auto simp: parse_schedule_every_def and_then_Inr Let_def parse_schedule_weekdays_def parse_schedule_daily_def
      parse_schedule_monthly_def split: if_splits
      dest!: schedule_node_kind parse_time_ok dest: weekdays_loop_nonempty ordinals_loop_ok
      intro: parse_schedule_interval_ok)

lemma parse_schedule_ok: "parse_schedule ps = Inr (n, ps') \<Longrightarrow> compiled_ok (compiled_from_ast (sn_kind n))"
  by (auto simp: parse_schedule_def parse_schedule_once_def and_then_Inr Let_def split: if_splits
      dest: parse_schedule_every_ok)

definition item_schedule_ok :: "Item \<Rightarrow> bool" where
  "item_schedule_ok item =
     (case item of
        I_Job j \<Rightarrow> (case jb_schedule j of None \<Rightarrow> True | Some n \<Rightarrow> compiled_ok (compiled_from_ast (sn_kind n)))
      | _ \<Rightarrow> True)"

lemma job_step_schedule_ok:
  assumes "job_step b ps = Inr (r, ps')" and "\<forall>n. fst b = Some n \<longrightarrow> compiled_ok (compiled_from_ast (sn_kind n))"
    and "r = Continue b' \<or> r = Break b'"
  shows "\<forall>n. fst b' = Some n \<longrightarrow> compiled_ok (compiled_from_ast (sn_kind n))"
  using assms
  by (cases b; cases "peek_kind (skip_newlines ps)")
    (auto simp: job_step_def Let_def and_then_Inr split: if_splits dest: parse_schedule_ok)

lemma parse_job_schedule_ok:
  assumes "parse_job ps = Inr (j, ps')" and "jb_schedule j = Some n"
  shows "compiled_ok (compiled_from_ast (sn_kind n))"
proof -
  from assms obtain ds p p' where l: "p_loop job_step (None, []) p = Inr ((Some n, ds), p')"
    by (auto simp: parse_job_def and_then_Inr)
  have "\<forall>m. fst (Some n, ds) = Some m \<longrightarrow> compiled_ok (compiled_from_ast (sn_kind m))"
    by (rule p_loop_inv [where P = "\<lambda>b. \<forall>m. fst b = Some m \<longrightarrow> compiled_ok (compiled_from_ast (sn_kind m))", OF _ _ _ l])
      (auto dest: job_step_schedule_ok)
  then show ?thesis by simp
qed

lemma parse_item_schedule_ok: "parse_item ps = Inr (item, ps') \<Longrightarrow> item_schedule_ok item"
  unfolding parse_item_def Let_def
  by (cases "kind (tok_peek (skip_terminators ps))")
    (auto simp: item_of_def and_then_Inr item_schedule_ok_def split: if_splits option.splits dest: parse_job_schedule_ok)

lemma parse_schedules_ok:
  assumes "parse source = Inr ast" and "I_Job j \<in> set (cf_items ast)" and "jb_schedule j = Some n"
  shows "compiled_ok (compiled_from_ast (sn_kind n))"
proof -
  from assms(1) obtain p p' where l: "p_loop items_body [] p = Inr (cf_items ast, p')"
    by (auto simp: parse_def parse_croniqfile_def Let_def and_then_Inr split: sum.splits)
  have "\<forall>i \<in> set (cf_items ast). item_schedule_ok i"
    by (rule p_loop_inv [where P = "\<lambda>is. \<forall>i \<in> set is. item_schedule_ok i", OF _ _ _ l])
      (auto simp: items_body_def Let_def and_then_Inr split: if_splits dest: parse_item_schedule_ok)
  with assms(2,3) show ?thesis by (force simp: item_schedule_ok_def)
qed

text \<open>C35: The stored schedule line reads back. For every job with a schedule in a file the parser accepts, the line
  written from its compiled schedule is accepted by \<open>parse_schedule_expr\<close>, and what it reads compiles to the same
  schedule, with the weekdays in the order of the week: the same interval in seconds (the cast to 32 bits in between
  loses nothing), the same hour and minute, the same days of the month in the same order and the same instant.\<close>

theorem schedule_dsl_roundtrip:
  assumes "parse source = Inr ast" and "I_Job j \<in> set (cf_items ast)" and "jb_schedule j = Some n"
  shows "\<exists>k. parse_schedule_expr (to_dsl (compiled_from_ast (sn_kind n))) = Inr k \<and>
    compiled_from_ast k = in_week_order (compiled_from_ast (sn_kind n))"
  using to_dsl_reads parse_schedules_ok [OF assms] by blast

theorem schedule_dsl_roundtrip_witness:
  "\<exists>ast j n k. parse ''job a:b { every fri mon at 9:05 }'' = Inr ast \<and> I_Job j \<in> set (cf_items ast) \<and>
     jb_schedule j = Some n \<and> compiled_from_ast (sn_kind n) = CS_Weekdays [Friday, Monday] 9 5 \<and>
     parse_schedule_expr (to_dsl (compiled_from_ast (sn_kind n))) = Inr k \<and>
     compiled_from_ast k = CS_Weekdays [Monday, Friday] 9 5"
proof -
  let ?r = "parse ''job a:b { every fri mon at 9:05 }''"
  have "isl ?r = False \<and>
      map (\<lambda>i. case i of I_Job j \<Rightarrow> map_option (\<lambda>n. compiled_from_ast (sn_kind n)) (jb_schedule j) | _ \<Rightarrow> None)
        (cf_items (projr ?r)) = [Some (CS_Weekdays [Friday, Monday] 9 5)]" by code_simp
  then obtain ast j n where p: "?r = Inr ast" "I_Job j \<in> set (cf_items ast)" "jb_schedule j = Some n"
    and c: "compiled_from_ast (sn_kind n) = CS_Weekdays [Friday, Monday] 9 5"
    by (cases ?r) (auto split: Item.splits)
  moreover have "week_order [Friday, Monday] = [Monday, Friday]" by code_simp
  ultimately show ?thesis using schedule_dsl_roundtrip [OF p] by auto
qed

end
