(* ===== verification/Store.thy ===== *)
theory Store
  imports Prelude "HOL-Library.Char_ord" "HOL-Library.List_Lexorder"
begin

text \<open>
  The persistent store: the entities of \<^verbatim>\<open>croniq-store/src/models.rs\<close> and what the statements of
  \<^verbatim>\<open>croniq-store/src/sqlite.rs\<close> do to the tables of job states, executions, dead letters, execution logs, runner
  identities and failure streaks.

  A table is the list of its rows in insertion order, and an SQL statement a function on that list. Every statement may
  fail for a reason of the database's own; \<open>db i = Some e\<close> says that the \<open>i\<close>-th statement of a call fails with the text
  \<open>e\<close>. A failed statement changes nothing and a transaction that is not committed is rolled back, as SQLite documents.
  A UUID is its 128-bit number, which orders like its text; timestamps are stored as RFC 3339 texts in UTC, which order
  like the instants they denote, and are modelled by these. JSON columns hold the value they encode.
\<close>

subsection \<open>Entities\<close>

type_synonym Uuid = nat
type_synonym metadata_map = "string \<rightharpoonup> string"
type_synonym faults = "nat \<Rightarrow> string option"

datatype StoreError = NotFound string | Conflict string | Database string

datatype JobStatus = JS_Active | JS_Paused | JS_Disabled | JS_Exhausted

record JobState =
  js_job_key :: string
  js_next_fire_at :: "instant option"
  js_last_fired_at :: "instant option"
  js_fire_count :: u64
  js_status :: JobStatus
  js_updated_at :: instant

record JobRegisterFire =
  rf_job_key :: string
  rf_config_hash :: string
  rf_fired_at :: instant

datatype ExecutionState = ES_Queued | ES_Claimed | ES_Completed | ES_Failed | ES_Dead | ES_Cancelled

record Execution =
  ex_id :: Uuid
  ex_job_key :: string
  ex_fire_at :: instant
  ex_scheduled_for :: instant
  ex_attempt :: u32
  ex_state :: ExecutionState
  ex_runner_id :: "string option"
  ex_claimed_at :: "instant option"
  ex_started_at :: "instant option"
  ex_completed_at :: "instant option"
  ex_duration_ms :: "int option"
  ex_error :: "string option"
  ex_dead_reason :: "string option"
  ex_idempotency_key :: "string option"
  ex_metadata :: metadata_map
  ex_created_at :: instant

record DeadLetter =
  dl_id :: Uuid
  dl_execution_id :: Uuid
  dl_job_key :: string
  dl_fire_at :: instant
  dl_scheduled_for :: instant
  dl_attempt :: u32
  dl_error :: string
  dl_dead_reason :: string
  dl_metadata :: metadata_map
  dl_created_at :: instant
  dl_expires_at :: "instant option"

record ExecutionLogEntry =
  lg_id :: Uuid
  lg_execution_id :: Uuid
  lg_timestamp :: instant
  lg_level :: string
  lg_message :: string
  lg_fields :: metadata_map
  lg_seq :: int

record JobFailureStreak =
  fs_job_key :: string
  fs_consecutive :: nat
  fs_since :: instant
  fs_last_execution_id :: string
  fs_last_error :: string
  fs_last_failed_at :: instant

record ExecutionFilter =
  ef_job_key :: "string option"
  ef_job_key_contains :: "string option"
  ef_job_keys :: "string list option"
  ef_states :: "ExecutionState list"
  ef_runner_id :: "string option"
  ef_since :: "instant option"
  ef_until :: "instant option"
  ef_until_id :: "Uuid option"
  ef_limit :: "nat option"

definition CONCURRENCY_GROUP_METADATA_KEY :: string where
  "CONCURRENCY_GROUP_METADATA_KEY = ''__concurrency_group''"

definition concurrency_group_of :: "Execution \<Rightarrow> string option" where
  "concurrency_group_of ex =
     (case ex_metadata ex CONCURRENCY_GROUP_METADATA_KEY of
        None \<Rightarrow> None
      | Some g \<Rightarrow> if g = [] then None else Some g)"

fun state_to_str :: "ExecutionState \<Rightarrow> string" where
  "state_to_str ES_Queued = ''queued''"
| "state_to_str ES_Claimed = ''claimed''"
| "state_to_str ES_Completed = ''completed''"
| "state_to_str ES_Failed = ''failed''"
| "state_to_str ES_Dead = ''dead''"
| "state_to_str ES_Cancelled = ''cancelled''"

definition parse_execution_state :: "string \<Rightarrow> ExecutionState" where
  "parse_execution_state s =
     (if s = ''queued'' then ES_Queued
      else if s = ''claimed'' then ES_Claimed
      else if s = ''completed'' then ES_Completed
      else if s = ''failed'' then ES_Failed
      else if s = ''dead'' then ES_Dead
      else if s = ''cancelled'' then ES_Cancelled
      else ES_Queued)"

subsection \<open>Tables\<close>

text \<open>A row of the execution table is the execution with the group column its insert fills in.\<close>

record ExecRow = Execution +
  col_concurrency_group :: "string option"

record Store =
  executions :: "ExecRow list"
  dead_letters :: "DeadLetter list"
  job_states :: "JobState list"
  register_fires :: "JobRegisterFire list"
  execution_logs :: "ExecutionLogEntry list"
  runner_identities :: "(string \<times> string \<times> instant) list"
  failure_streaks :: "JobFailureStreak list"

definition empty_store :: Store where
  "empty_store =
     \<lparr>executions = [], dead_letters = [], job_states = [], register_fires = [], execution_logs = [],
      runner_identities = [], failure_streaks = []\<rparr>"

definition sql_update :: "('r \<Rightarrow> bool) \<Rightarrow> ('r \<Rightarrow> 'r) \<Rightarrow> 'r list \<Rightarrow> nat \<times> 'r list" where
  "sql_update P f rows = (length (filter P rows), map (\<lambda>r. if P r then f r else r) rows)"

definition sql_delete :: "('r \<Rightarrow> bool) \<Rightarrow> 'r list \<Rightarrow> nat \<times> 'r list" where
  "sql_delete P rows = (length (filter P rows), filter (\<lambda>r. \<not> P r) rows)"

definition sql_upsert :: "('r \<Rightarrow> 'k) \<Rightarrow> ('r \<Rightarrow> 'r) \<Rightarrow> 'r \<Rightarrow> 'r list \<Rightarrow> 'r list" where
  "sql_upsert key f r rows =
     (if list_ex (\<lambda>x. key x = key r) rows then map (\<lambda>x. if key x = key r then f x else x) rows
      else rows @ [r])"

text \<open>One statement of a call: the database's own failure, or the statement's result.\<close>

definition stmt :: "string option \<Rightarrow> (StoreError + 'a) \<Rightarrow> StoreError + 'a" where
  "stmt fault r = (case fault of Some e \<Rightarrow> Inl (Database e) | None \<Rightarrow> r)"

definition bind_db :: "(StoreError + 'a) \<Rightarrow> ('a \<Rightarrow> StoreError + 'b) \<Rightarrow> StoreError + 'b" where
  "bind_db r f = (case r of Inl e \<Rightarrow> Inl e | Inr x \<Rightarrow> f x)"

text \<open>What a call leaves behind: its writes when it succeeds, nothing when it fails.\<close>

definition commit :: "Store \<Rightarrow> (StoreError + 'a \<times> Store) \<Rightarrow> (StoreError + 'a) \<times> Store" where
  "commit st r = (case r of Inl e \<Rightarrow> (Inl e, st) | Inr (x, st') \<Rightarrow> (Inr x, st'))"

definition read_db :: "faults \<Rightarrow> Store \<Rightarrow> 'a \<Rightarrow> (StoreError + 'a) \<times> Store" where
  "read_db db st x = commit st (stmt (db 0) (Inr (x, st)))"

subsection \<open>Job states\<close>

definition get_job_state :: "faults \<Rightarrow> string \<Rightarrow> Store \<Rightarrow> (StoreError + JobState option) \<times> Store" where
  "get_job_state db k st = read_db db st (find (\<lambda>r. js_job_key r = k) (job_states st))"

definition upsert_job_state_with :: "string option \<Rightarrow> JobState \<Rightarrow> Store \<Rightarrow> StoreError + Store" where
  "upsert_job_state_with fault s st =
     stmt fault (Inr (st\<lparr>job_states :=
       sql_upsert js_job_key
         (\<lambda>r. r\<lparr>js_next_fire_at := js_next_fire_at s, js_last_fired_at := js_last_fired_at s,
                js_fire_count := js_fire_count s, js_status := js_status s, js_updated_at := js_updated_at s\<rparr>)
         s (job_states st)\<rparr>))"

definition upsert_job_state :: "faults \<Rightarrow> JobState \<Rightarrow> Store \<Rightarrow> (StoreError + unit) \<times> Store" where
  "upsert_job_state db s st = commit st (bind_db (upsert_job_state_with (db 0) s st) (\<lambda>st'. Inr ((), st')))"

definition list_job_states :: "faults \<Rightarrow> Store \<Rightarrow> (StoreError + JobState list) \<times> Store" where
  "list_job_states db st = read_db db st (sort_key js_job_key (job_states st))"

definition list_register_fires :: "faults \<Rightarrow> Store \<Rightarrow> (StoreError + JobRegisterFire list) \<times> Store" where
  "list_register_fires db st = read_db db st (sort_key rf_job_key (register_fires st))"

definition upsert_register_fire :: "faults \<Rightarrow> JobRegisterFire \<Rightarrow> Store \<Rightarrow> (StoreError + unit) \<times> Store" where
  "upsert_register_fire db r st =
     commit st (stmt (db 0) (Inr ((), st\<lparr>register_fires :=
       sql_upsert rf_job_key (\<lambda>x. x\<lparr>rf_config_hash := rf_config_hash r, rf_fired_at := rf_fired_at r\<rparr>)
         r (register_fires st)\<rparr>)))"

definition delete_register_fire :: "faults \<Rightarrow> string \<Rightarrow> Store \<Rightarrow> (StoreError + unit) \<times> Store" where
  "delete_register_fire db k st =
     commit st (stmt (db 0)
       (Inr ((), st\<lparr>register_fires := snd (sql_delete (\<lambda>r. rf_job_key r = k) (register_fires st))\<rparr>)))"

definition delete_job_state :: "faults \<Rightarrow> string \<Rightarrow> Store \<Rightarrow> (StoreError + unit) \<times> Store" where
  "delete_job_state db k st =
     commit st (stmt (db 0)
       (Inr ((), st\<lparr>job_states := snd (sql_delete (\<lambda>r. js_job_key r = k) (job_states st))\<rparr>)))"

subsection \<open>Executions\<close>

definition insert_execution_with :: "string option \<Rightarrow> Execution \<Rightarrow> Store \<Rightarrow> StoreError + Store" where
  "insert_execution_with fault ex st =
     stmt fault
       (if list_ex (\<lambda>r. ex_id r = ex_id ex) (executions st)
        then Inl (Database ''UNIQUE constraint failed: executions.id'')
        else Inr (st\<lparr>executions := executions st @ [Execution.extend ex
               (ExecRow.fields (concurrency_group_of ex))]\<rparr>))"

definition row_to_execution :: "ExecRow \<Rightarrow> Execution" where
  "row_to_execution r = Execution.truncate r"

definition create_execution :: "faults \<Rightarrow> Execution \<Rightarrow> Store \<Rightarrow> (StoreError + unit) \<times> Store" where
  "create_execution db ex st = commit st (bind_db (insert_execution_with (db 0) ex st) (\<lambda>st'. Inr ((), st')))"

definition create_execution_and_advance_job_state ::
  "faults \<Rightarrow> Execution \<Rightarrow> JobState \<Rightarrow> Store \<Rightarrow> (StoreError + unit) \<times> Store" where
  "create_execution_and_advance_job_state db ex s st =
     commit st
       (bind_db (stmt (db 0) (Inr st)) (\<lambda>tx.
        bind_db (insert_execution_with (db 1) ex tx) (\<lambda>tx.
        bind_db (upsert_job_state_with (db 2) s tx) (\<lambda>tx.
          stmt (db 3) (Inr ((), tx))))))"

definition get_execution :: "faults \<Rightarrow> Uuid \<Rightarrow> Store \<Rightarrow> (StoreError + Execution option) \<times> Store" where
  "get_execution db i st =
     read_db db st (map_option row_to_execution (find (\<lambda>r. ex_id r = i) (executions st)))"

text \<open>
  Claiming is two calls on the connection: the update, which is statement 0, and the read of the claimed row, which is
  statement 1. A failure of the second does not undo the first.
\<close>

definition claim_update :: "string \<Rightarrow> instant \<Rightarrow> ExecRow \<Rightarrow> ExecRow" where
  "claim_update rid now r =
     r\<lparr>ex_state := ES_Claimed, ex_runner_id := Some rid, ex_claimed_at := Some now, ex_started_at := Some now\<rparr>"

definition claim_execution ::
  "(Uuid \<Rightarrow> string) \<Rightarrow> faults \<Rightarrow> Uuid \<Rightarrow> string \<Rightarrow> instant \<Rightarrow> Store \<Rightarrow> (StoreError + Execution) \<times> Store" where
  "claim_execution uuid_text db i rid now st =
     (case sql_update (\<lambda>r. ex_id r = i \<and> ex_state r = ES_Queued) (claim_update rid now) (executions st) of
        (affected, rows) \<Rightarrow>
          (case db 0 of
             Some e \<Rightarrow> (Inl (Database e), st)
           | None \<Rightarrow>
               if affected = 0 then (Inl (Conflict (''execution '' @ uuid_text i @ '' is not in queued state'')), st)
               else
                 (case get_execution (\<lambda>n. db (Suc n)) i (st\<lparr>executions := rows\<rparr>) of
                    (Inl e, st') \<Rightarrow> (Inl e, st')
                  | (Inr None, st') \<Rightarrow> (Inl (NotFound (''execution '' @ uuid_text i)), st')
                  | (Inr (Some ex), st') \<Rightarrow> (Inr ex, st'))))"

text \<open>A row answers to the fence when there is none or when it names the row's runner.\<close>

definition fence_ok :: "string option \<Rightarrow> ExecRow \<Rightarrow> bool" where
  "fence_ok rid r \<longleftrightarrow> rid = None \<or> ex_runner_id r = rid"

definition complete_execution ::
  "faults \<Rightarrow> Uuid \<Rightarrow> string option \<Rightarrow> ExecutionState \<Rightarrow> int option \<Rightarrow> string option \<Rightarrow> string option \<Rightarrow>
   instant \<Rightarrow> Store \<Rightarrow> (StoreError + bool) \<times> Store" where
  "complete_execution db i rid s duration err reason now st =
     (case sql_update (\<lambda>r. ex_id r = i \<and> ex_state r = ES_Claimed \<and> fence_ok rid r)
             (\<lambda>r. r\<lparr>ex_state := s, ex_completed_at := Some now, ex_duration_ms := duration, ex_error := err,
                    ex_dead_reason := reason\<rparr>) (executions st) of
        (affected, rows) \<Rightarrow> commit st (stmt (db 0) (Inr (affected > 0, st\<lparr>executions := rows\<rparr>))))"

definition find_queued_executions :: "faults \<Rightarrow> nat \<Rightarrow> Store \<Rightarrow> (StoreError + Execution list) \<times> Store" where
  "find_queued_executions db limit st =
     read_db db st (map row_to_execution
       (take limit (sort_key ex_fire_at (filter (\<lambda>r. ex_state r = ES_Queued) (executions st)))))"

definition requeue_update :: "ExecRow \<Rightarrow> ExecRow" where
  "requeue_update r =
     r\<lparr>ex_state := ES_Queued, ex_runner_id := None, ex_claimed_at := None, ex_started_at := None\<rparr>"

definition requeue_abandoned :: "faults \<Rightarrow> string \<Rightarrow> instant \<Rightarrow> Store \<Rightarrow> (StoreError + Uuid list) \<times> Store" where
  "requeue_abandoned db rid now st =
     (let held = (\<lambda>r. ex_runner_id r = Some rid \<and> ex_state r = ES_Claimed);
          ids = map ex_id (filter held (executions st))
      in commit st
           (bind_db (stmt (db 0) (Inr ids)) (\<lambda>ids.
              if ids = [] then Inr (ids, st)
              else stmt (db 1) (Inr (ids, st\<lparr>executions := snd (sql_update held requeue_update (executions st))\<rparr>)))))"

definition requeue_if_claimed :: "faults \<Rightarrow> Uuid \<Rightarrow> instant \<Rightarrow> Store \<Rightarrow> (StoreError + bool) \<times> Store" where
  "requeue_if_claimed db i now st =
     (case sql_update (\<lambda>r. ex_id r = i \<and> ex_state r = ES_Claimed) requeue_update (executions st) of
        (affected, rows) \<Rightarrow> commit st (stmt (db 0) (Inr (affected > 0, st\<lparr>executions := rows\<rparr>))))"

definition cancel_execution :: "faults \<Rightarrow> Uuid \<Rightarrow> instant \<Rightarrow> Store \<Rightarrow> (StoreError + unit) \<times> Store" where
  "cancel_execution db i now st =
     commit st (stmt (db 0) (Inr ((), st\<lparr>executions :=
       snd (sql_update (\<lambda>r. ex_id r = i \<and> ex_state r \<in> {ES_Queued, ES_Claimed})
              (\<lambda>r. r\<lparr>ex_state := ES_Cancelled, ex_completed_at := Some now\<rparr>) (executions st))\<rparr>)))"

definition list_claimed_older_than ::
  "faults \<Rightarrow> instant \<Rightarrow> nat \<Rightarrow> Store \<Rightarrow> (StoreError + Execution list) \<times> Store" where
  "list_claimed_older_than db cutoff limit st =
     (let rows = filter (\<lambda>r. ex_state r = ES_Claimed \<and>
                   (case ex_claimed_at r of None \<Rightarrow> True | Some t \<Rightarrow> t \<le> cutoff)) (executions st);
          nulls_first = filter (\<lambda>r. ex_claimed_at r = None) rows @
                        sort_key (\<lambda>r. the (ex_claimed_at r)) (filter (\<lambda>r. ex_claimed_at r \<noteq> None) rows)
      in read_db db st (map row_to_execution (take limit nulls_first)))"

definition find_execution_by_idempotency_key ::
  "faults \<Rightarrow> string \<Rightarrow> string \<Rightarrow> instant \<Rightarrow> Store \<Rightarrow> (StoreError + Execution option) \<times> Store" where
  "find_execution_by_idempotency_key db k key window_start st =
     (let rows = filter (\<lambda>r. ex_job_key r = k \<and> ex_idempotency_key r = Some key \<and>
                   (ex_state r \<in> {ES_Queued, ES_Claimed} \<or> ex_created_at r \<ge> window_start)) (executions st)
      in read_db db st
           (case sort_key (\<lambda>r. - ex_created_at r) rows of [] \<Rightarrow> None | r # _ \<Rightarrow> Some (row_to_execution r)))"

definition count_by_state :: "faults \<Rightarrow> Store \<Rightarrow> (StoreError + (ExecutionState \<rightharpoonup> nat)) \<times> Store" where
  "count_by_state db st =
     read_db db st (\<lambda>s. let n = length (filter (\<lambda>r. ex_state r = s) (executions st)) in if n = 0 then None else Some n)"

text \<open>The term the query carries so that the planner may use the partial index of rows in flight.\<close>

definition inflight_index_term :: "ExecutionState list \<Rightarrow> ExecRow \<Rightarrow> bool" where
  "inflight_index_term states r =
     (if list_all (\<lambda>s. s = ES_Queued \<or> s = ES_Claimed) states then ex_state r \<in> {ES_Queued, ES_Claimed} else True)"

definition count_executions_in_states ::
  "faults \<Rightarrow> string \<Rightarrow> ExecutionState list \<Rightarrow> Store \<Rightarrow> (StoreError + nat) \<times> Store" where
  "count_executions_in_states db k states st =
     (if states = [] then (Inr 0, st)
      else read_db db st (length (filter (\<lambda>r. ex_job_key r = k \<and> ex_state r \<in> set states \<and>
             inflight_index_term states r) (executions st))))"

definition count_executions_in_group_in_states ::
  "faults \<Rightarrow> string \<Rightarrow> ExecutionState list \<Rightarrow> Store \<Rightarrow> (StoreError + nat) \<times> Store" where
  "count_executions_in_group_in_states db g states st =
     (if states = [] then (Inr 0, st)
      else read_db db st (length (filter (\<lambda>r. col_concurrency_group r = Some g \<and> ex_state r \<in> set states)
             (executions st))))"

subsection \<open>Listing executions\<close>

definition MAX_EXECUTIONS_LIMIT :: nat where
  "MAX_EXECUTIONS_LIMIT = 100000"

definition replace_char :: "char \<Rightarrow> string \<Rightarrow> string \<Rightarrow> string" where
  "replace_char c b s = concat (map (\<lambda>x. if x = c then b else [x]) s)"

definition like_contains :: "string \<Rightarrow> string" where
  "like_contains needle =
     (let escaped = replace_char (CHR ''_'') [CHR 0x5C, CHR ''_'']
                      (replace_char (CHR ''%'') [CHR 0x5C, CHR ''%'']
                        (replace_char (CHR 0x5C) [CHR 0x5C, CHR 0x5C] needle))
      in ''%'' @ escaped @ ''%'')"

text \<open>
  SQLite's \<^verbatim>\<open>LIKE ... ESCAPE '\'\<close>: a percent sign stands for any text, an underscore for one character, a character
  after the escape for itself; letters of the ASCII alphabet match without regard to case.
\<close>

definition ascii_lower :: "char \<Rightarrow> char" where
  "ascii_lower c = (let n = (of_char c :: nat) in if 65 \<le> n \<and> n \<le> 90 then char_of (n + 32) else c)"

fun sql_like :: "string \<Rightarrow> string \<Rightarrow> bool" where
  "sql_like [] s \<longleftrightarrow> s = []"
| "sql_like (p # ps) s \<longleftrightarrow>
     (if p = CHR 0x5C then
        (case ps of
           [] \<Rightarrow> False
         | q # qs \<Rightarrow> (case s of [] \<Rightarrow> False | c # cs \<Rightarrow> ascii_lower c = ascii_lower q \<and> sql_like qs cs))
      else if p = CHR ''%'' then list_ex (\<lambda>n. sql_like ps (drop n s)) [0 ..< Suc (length s)]
      else
        (case s of
           [] \<Rightarrow> False
         | c # cs \<Rightarrow> (p = CHR ''_'' \<or> ascii_lower c = ascii_lower p) \<and> sql_like ps cs))"

definition filter_matches :: "ExecutionFilter \<Rightarrow> ExecRow \<Rightarrow> bool" where
  "filter_matches f r \<longleftrightarrow>
     (case ef_job_key f of None \<Rightarrow> True | Some k \<Rightarrow> ex_job_key r = k) \<and>
     (case ef_job_key_contains f of None \<Rightarrow> True | Some n \<Rightarrow> sql_like (like_contains n) (ex_job_key r)) \<and>
     (case ef_job_keys f of None \<Rightarrow> True | Some ks \<Rightarrow> if ks = [] then False else ex_job_key r \<in> set ks) \<and>
     (ef_states f = [] \<or> ex_state r \<in> set (ef_states f)) \<and>
     (case ef_runner_id f of None \<Rightarrow> True | Some rid \<Rightarrow> ex_runner_id r = Some rid) \<and>
     (case ef_since f of None \<Rightarrow> True | Some t \<Rightarrow> ex_created_at r \<ge> t) \<and>
     (case ef_until f of
        None \<Rightarrow> True
      | Some t \<Rightarrow>
          (case ef_until_id f of
             Some i \<Rightarrow> ex_created_at r < t \<or> (ex_created_at r = t \<and> ex_id r < i)
           | None \<Rightarrow> ex_created_at r \<le> t))"

definition newest_first :: "ExecRow list \<Rightarrow> ExecRow list" where
  "newest_first rows = sort_key (\<lambda>r. - ex_created_at r) (sort_key (\<lambda>r. - int (ex_id r)) rows)"

definition list_executions ::
  "faults \<Rightarrow> ExecutionFilter \<Rightarrow> Store \<Rightarrow> (StoreError + Execution list) \<times> Store" where
  "list_executions db f st =
     (let limit = min (case ef_limit f of None \<Rightarrow> 100 | Some n \<Rightarrow> n) MAX_EXECUTIONS_LIMIT
      in read_db db st (map row_to_execution (take limit (newest_first (filter (filter_matches f) (executions st))))))"

subsection \<open>Retention\<close>

definition deletable_execution :: "Store \<Rightarrow> ExecRow \<Rightarrow> bool" where
  "deletable_execution st r \<longleftrightarrow>
     ex_state r \<noteq> ES_Dead \<or> \<not> list_ex (\<lambda>dl. dl_execution_id dl = ex_id r) (dead_letters st)"

definition delete_selected :: "faults \<Rightarrow> Uuid list \<Rightarrow> Store \<Rightarrow> (StoreError + nat) \<times> Store" where
  "delete_selected db selection st =
     commit st
       (bind_db (stmt (db 0) (Inr st)) (\<lambda>tx.
        bind_db (stmt (db 1) (Inr (tx\<lparr>execution_logs :=
          snd (sql_delete (\<lambda>l. lg_execution_id l \<in> set selection) (execution_logs tx))\<rparr>))) (\<lambda>tx.
        bind_db (stmt (db 2) (Inr (sql_delete (\<lambda>r. ex_id r \<in> set selection) (executions tx)))) (\<lambda>(affected, rows).
          stmt (db 3) (Inr (affected, tx\<lparr>executions := rows\<rparr>))))))"

definition older_selection :: "instant \<Rightarrow> nat \<Rightarrow> Store \<Rightarrow> ExecRow list" where
  "older_selection cutoff limit st =
     (let rows = filter (\<lambda>r. (case ex_completed_at r of None \<Rightarrow> False | Some t \<Rightarrow> t \<le> cutoff) \<and>
                              deletable_execution st r) (executions st)
      in take limit (sort_key (\<lambda>r. the (ex_completed_at r)) (sort_key ex_id rows)))"

definition prune_executions_older_than :: "faults \<Rightarrow> instant \<Rightarrow> nat \<Rightarrow> Store \<Rightarrow> (StoreError + nat) \<times> Store" where
  "prune_executions_older_than db cutoff limit st =
     delete_selected db (map ex_id (older_selection cutoff limit st)) st"

definition beyond_last_selection :: "string \<Rightarrow> nat \<Rightarrow> nat \<Rightarrow> Store \<Rightarrow> ExecRow list" where
  "beyond_last_selection k keep_last limit st =
     (let rows = filter (\<lambda>r. ex_job_key r = k \<and> ex_completed_at r \<noteq> None \<and> deletable_execution st r) (executions st)
      in take limit (drop keep_last
           (sort_key (\<lambda>r. - the (ex_completed_at r)) (sort_key (\<lambda>r. - int (ex_id r)) rows))))"

definition prune_executions_keep_last ::
  "faults \<Rightarrow> string \<Rightarrow> nat \<Rightarrow> nat \<Rightarrow> Store \<Rightarrow> (StoreError + nat) \<times> Store" where
  "prune_executions_keep_last db k keep_last limit st =
     delete_selected db (map ex_id (beyond_last_selection k keep_last limit st)) st"

subsection \<open>Runner identities\<close>

definition runner_identity_bind ::
  "faults \<Rightarrow> string \<Rightarrow> string \<Rightarrow> instant \<Rightarrow> Store \<Rightarrow> (StoreError + string) \<times> Store" where
  "runner_identity_bind db rid owner now st =
     (let st' = st\<lparr>runner_identities := sql_upsert fst id (rid, owner, now) (runner_identities st)\<rparr>
      in case db 0 of
           Some e \<Rightarrow> (Inl (Database e), st)
         | None \<Rightarrow>
             (stmt (db 1) (case find (\<lambda>r. fst r = rid) (runner_identities st') of
                             None \<Rightarrow> Inl (Database ''Query returned no rows'')
                           | Some (_, o', _) \<Rightarrow> Inr o'), st'))"

definition runner_identity_owner :: "faults \<Rightarrow> string \<Rightarrow> Store \<Rightarrow> (StoreError + string option) \<times> Store" where
  "runner_identity_owner db rid st =
     read_db db st (map_option (\<lambda>(_, owner, _). owner) (find (\<lambda>r. fst r = rid) (runner_identities st)))"

definition runner_identity_release :: "faults \<Rightarrow> string \<Rightarrow> Store \<Rightarrow> (StoreError + unit) \<times> Store" where
  "runner_identity_release db rid st =
     commit st (stmt (db 0)
       (Inr ((), st\<lparr>runner_identities := snd (sql_delete (\<lambda>r. fst r = rid) (runner_identities st))\<rparr>)))"

subsection \<open>Dead letters\<close>

definition MAX_PAGE_LIMIT :: nat where
  "MAX_PAGE_LIMIT = 1000"

definition insert_dead_letter_with :: "string option \<Rightarrow> DeadLetter \<Rightarrow> Store \<Rightarrow> StoreError + Store" where
  "insert_dead_letter_with fault dl st =
     stmt fault
       (if list_ex (\<lambda>r. dl_id r = dl_id dl) (dead_letters st)
        then Inl (Database ''UNIQUE constraint failed: dead_letters.id'')
        else Inr (st\<lparr>dead_letters := dead_letters st @ [dl]\<rparr>))"

definition update_to_dead_with ::
  "string option \<Rightarrow> Uuid \<Rightarrow> string option \<Rightarrow> int option \<Rightarrow> string option \<Rightarrow> string option \<Rightarrow> instant \<Rightarrow>
   Store \<Rightarrow> StoreError + bool \<times> Store" where
  "update_to_dead_with fault i rid duration err reason now st =
     (case sql_update (\<lambda>r. ex_id r = i \<and> ex_state r \<in> {ES_Claimed, ES_Failed} \<and> fence_ok rid r)
             (\<lambda>r. r\<lparr>ex_state := ES_Dead, ex_completed_at := Some now, ex_duration_ms := duration, ex_error := err,
                    ex_dead_reason := reason\<rparr>) (executions st) of
        (affected, rows) \<Rightarrow> stmt fault (Inr (affected > 0, st\<lparr>executions := rows\<rparr>)))"

definition add_dead_letter :: "faults \<Rightarrow> DeadLetter \<Rightarrow> Store \<Rightarrow> (StoreError + unit) \<times> Store" where
  "add_dead_letter db dl st = commit st (bind_db (insert_dead_letter_with (db 0) dl st) (\<lambda>st'. Inr ((), st')))"

definition complete_as_dead ::
  "faults \<Rightarrow> Uuid \<Rightarrow> string option \<Rightarrow> int option \<Rightarrow> string option \<Rightarrow> DeadLetter \<Rightarrow> instant \<Rightarrow> Store \<Rightarrow>
   (StoreError + bool) \<times> Store" where
  "complete_as_dead db i rid duration err dl now st =
     commit st
       (bind_db (stmt (db 0) (Inr st)) (\<lambda>tx.
        bind_db (update_to_dead_with (db 1) i rid duration err (Some (dl_dead_reason dl)) now tx) (\<lambda>(updated, tx).
          if \<not> updated then Inr (False, st)
          else
            bind_db (insert_dead_letter_with (db 2) dl tx) (\<lambda>tx.
              stmt (db 3) (Inr (True, tx))))))"

definition replay_dead_letter ::
  "(Uuid \<Rightarrow> string) \<Rightarrow> faults \<Rightarrow> Uuid \<Rightarrow> Execution \<Rightarrow> Store \<Rightarrow> (StoreError + unit) \<times> Store" where
  "replay_dead_letter uuid_text db i ex st =
     commit st
       (bind_db (stmt (db 0) (Inr st)) (\<lambda>tx.
        bind_db (stmt (db 1) (Inr (sql_delete (\<lambda>dl. dl_id dl = i) (dead_letters tx)))) (\<lambda>(affected, rows).
          if affected = 0 then Inl (NotFound (''dead letter '' @ uuid_text i))
          else
            bind_db (insert_execution_with (db 2) ex (tx\<lparr>dead_letters := rows\<rparr>)) (\<lambda>tx.
              stmt (db 3) (Inr ((), tx))))))"

definition get_dead_letter :: "faults \<Rightarrow> Uuid \<Rightarrow> Store \<Rightarrow> (StoreError + DeadLetter option) \<times> Store" where
  "get_dead_letter db i st = read_db db st (find (\<lambda>dl. dl_id dl = i) (dead_letters st))"

definition list_dead_letters ::
  "faults \<Rightarrow> string option \<Rightarrow> nat option \<Rightarrow> Store \<Rightarrow> (StoreError + DeadLetter list) \<times> Store" where
  "list_dead_letters db k limit st =
     (let rows = filter (\<lambda>dl. case k of None \<Rightarrow> True | Some jk \<Rightarrow> dl_job_key dl = jk) (dead_letters st);
          n = min (case limit of None \<Rightarrow> 100 | Some n \<Rightarrow> n) MAX_PAGE_LIMIT
      in read_db db st (take n (sort_key (\<lambda>dl. - dl_created_at dl) rows)))"

definition count_dead_letters :: "faults \<Rightarrow> string option \<Rightarrow> Store \<Rightarrow> (StoreError + nat) \<times> Store" where
  "count_dead_letters db k st =
     read_db db st (length (case k of
                              Some jk \<Rightarrow> filter (\<lambda>dl. dl_job_key dl = jk) (dead_letters st)
                            | None \<Rightarrow> dead_letters st))"

definition delete_letters :: "faults \<Rightarrow> (DeadLetter \<Rightarrow> bool) \<Rightarrow> Store \<Rightarrow> (StoreError + nat) \<times> Store" where
  "delete_letters db P st =
     (case sql_delete P (dead_letters st) of
        (affected, rows) \<Rightarrow> commit st (stmt (db 0) (Inr (affected, st\<lparr>dead_letters := rows\<rparr>))))"

definition remove_dead_letter :: "faults \<Rightarrow> Uuid \<Rightarrow> Store \<Rightarrow> (StoreError + unit) \<times> Store" where
  "remove_dead_letter db i st =
     (case delete_letters db (\<lambda>dl. dl_id dl = i) st of (r, st') \<Rightarrow> (map_sum id (\<lambda>_. ()) r, st'))"

definition remove_dead_letters :: "faults \<Rightarrow> Uuid list \<Rightarrow> Store \<Rightarrow> (StoreError + nat) \<times> Store" where
  "remove_dead_letters db ids st =
     (if ids = [] then (Inr 0, st) else delete_letters db (\<lambda>dl. dl_id dl \<in> set ids) st)"

definition clear_dead_letters :: "faults \<Rightarrow> string option \<Rightarrow> Store \<Rightarrow> (StoreError + nat) \<times> Store" where
  "clear_dead_letters db k st =
     (case k of
        Some jk \<Rightarrow> delete_letters db (\<lambda>dl. dl_job_key dl = jk) st
      | None \<Rightarrow> delete_letters db (\<lambda>_. True) st)"

definition purge_expired :: "faults \<Rightarrow> instant \<Rightarrow> Store \<Rightarrow> (StoreError + nat) \<times> Store" where
  "purge_expired db now st =
     delete_letters db (\<lambda>dl. case dl_expires_at dl of None \<Rightarrow> False | Some t \<Rightarrow> t \<le> now) st"

subsection \<open>Execution logs\<close>

definition next_seq_for_execution :: "string option \<Rightarrow> Uuid \<Rightarrow> Store \<Rightarrow> StoreError + int" where
  "next_seq_for_execution fault i st =
     (let seqs = map lg_seq (filter (\<lambda>l. lg_execution_id l = i) (execution_logs st))
      in stmt fault (Inr (if seqs = [] then 0 else Max (set seqs) + 1)))"

definition insert_log_with :: "string option \<Rightarrow> ExecutionLogEntry \<Rightarrow> int \<Rightarrow> Store \<Rightarrow> StoreError + Store" where
  "insert_log_with fault entry seq st =
     stmt fault
       (if list_ex (\<lambda>l. lg_id l = lg_id entry) (execution_logs st)
        then Inl (Database ''UNIQUE constraint failed: execution_logs.id'')
        else if \<not> list_ex (\<lambda>r. ex_id r = lg_execution_id entry) (executions st)
        then Inl (Database ''FOREIGN KEY constraint failed'')
        else Inr (st\<lparr>execution_logs := execution_logs st @ [entry\<lparr>lg_seq := seq\<rparr>]\<rparr>))"

definition append_log :: "faults \<Rightarrow> ExecutionLogEntry \<Rightarrow> Store \<Rightarrow> (StoreError + unit) \<times> Store" where
  "append_log db entry st =
     commit st
       (bind_db (next_seq_for_execution (db 0) (lg_execution_id entry) st) (\<lambda>seq.
        bind_db (insert_log_with (db 1) entry seq st) (\<lambda>st'. Inr ((), st'))))"

fun append_entries ::
  "faults \<Rightarrow> ExecutionLogEntry list \<Rightarrow> (Uuid \<rightharpoonup> int) \<Rightarrow> Store \<Rightarrow> StoreError + Store" where
  "append_entries db [] seqs tx = Inr tx"
| "append_entries db (entry # rest) seqs tx =
     bind_db (case seqs (lg_execution_id entry) of
                Some n \<Rightarrow> Inr n
              | None \<Rightarrow> next_seq_for_execution (db 0) (lg_execution_id entry) tx) (\<lambda>seq.
     bind_db (insert_log_with (db 1) entry seq tx) (\<lambda>tx.
       append_entries (\<lambda>n. db (n + 2)) rest (seqs(lg_execution_id entry \<mapsto> seq + 1)) tx))"

definition append_logs_batch :: "faults \<Rightarrow> ExecutionLogEntry list \<Rightarrow> Store \<Rightarrow> (StoreError + unit) \<times> Store" where
  "append_logs_batch db entries st =
     (if entries = [] then (Inr (), st)
      else
        commit st
          (bind_db (stmt (db 0) (Inr st)) (\<lambda>tx.
           bind_db (append_entries (\<lambda>n. db (n + 2)) entries Map.empty tx) (\<lambda>tx.
             stmt (db 1) (Inr ((), tx))))))"

definition read_logs :: "faults \<Rightarrow> Uuid \<Rightarrow> nat \<Rightarrow> Store \<Rightarrow> (StoreError + ExecutionLogEntry list) \<times> Store" where
  "read_logs db i limit st =
     read_db db st (take limit (sort_key lg_timestamp (sort_key lg_seq
       (filter (\<lambda>l. lg_execution_id l = i) (execution_logs st)))))"

subsection \<open>Failure streaks\<close>

definition record_job_failure ::
  "faults \<Rightarrow> string \<Rightarrow> string \<Rightarrow> string \<Rightarrow> instant \<Rightarrow> Store \<Rightarrow> (StoreError + JobFailureStreak) \<times> Store" where
  "record_job_failure db k eid err now st =
     (let st' = st\<lparr>failure_streaks :=
            sql_upsert fs_job_key
              (\<lambda>r. r\<lparr>fs_consecutive := fs_consecutive r + 1, fs_last_execution_id := eid, fs_last_error := err,
                     fs_last_failed_at := now\<rparr>)
              \<lparr>fs_job_key = k, fs_consecutive = 1, fs_since = now, fs_last_execution_id = eid, fs_last_error = err,
               fs_last_failed_at = now\<rparr> (failure_streaks st)\<rparr>
      in case db 0 of
           Some e \<Rightarrow> (Inl (Database e), st)
         | None \<Rightarrow>
             (stmt (db 1) (case find (\<lambda>r. fs_job_key r = k) (failure_streaks st') of
                             None \<Rightarrow> Inl (Database ''Query returned no rows'')
                           | Some s \<Rightarrow> Inr s), st'))"

definition take_job_failure_streak ::
  "faults \<Rightarrow> string \<Rightarrow> Store \<Rightarrow> (StoreError + JobFailureStreak option) \<times> Store" where
  "take_job_failure_streak db k st =
     (let streak = find (\<lambda>r. fs_job_key r = k) (failure_streaks st)
      in commit st
           (bind_db (stmt (db 0) (Inr streak)) (\<lambda>streak.
              if streak = None then Inr (streak, st)
              else stmt (db 1) (Inr (streak,
                     st\<lparr>failure_streaks := snd (sql_delete (\<lambda>r. fs_job_key r = k) (failure_streaks st))\<rparr>)))))"

end
