(* ===== verification/Lifecycle.thy ===== *)
theory Lifecycle
  imports Store
begin

text \<open>
  What the operations of the store do to one execution. The abstract specification is the state machine of a single
  row, \<open>exec_trans\<close>; every operation, with every pattern of database failures, leaves each row alone, deletes it or
  moves it along that machine. The properties hold for every interleaving of operations, given as the list of calls in
  the order in which they get the connection.
\<close>

subsection \<open>The calls that change the store\<close>

datatype store_op =
    Op_Create Execution
  | Op_Create_Advance Execution JobState
  | Op_Claim Uuid string instant
  | Op_Complete Uuid "string option" ExecutionState "int option" "string option" "string option" instant
  | Op_Requeue_Abandoned string instant
  | Op_Requeue_If_Claimed Uuid instant
  | Op_Cancel Uuid instant
  | Op_Complete_As_Dead Uuid "string option" "int option" "string option" DeadLetter instant
  | Op_Replay Uuid Execution
  | Op_Remove_Letter Uuid
  | Op_Remove_Letters "Uuid list"
  | Op_Clear_Letters "string option"
  | Op_Purge_Expired instant
  | Op_Prune_Older instant nat
  | Op_Prune_Keep_Last string nat nat
  | Op_Append_Log ExecutionLogEntry
  | Op_Append_Logs "ExecutionLogEntry list"
  | Op_Upsert_Job_State JobState
  | Op_Delete_Job_State string
  | Op_Upsert_Register_Fire JobRegisterFire
  | Op_Delete_Register_Fire string
  | Op_Bind_Identity string string instant
  | Op_Release_Identity string
  | Op_Record_Failure string string string instant
  | Op_Take_Streak string

definition is_ok :: "(StoreError + 'a) \<times> Store \<Rightarrow> bool \<times> Store" where
  "is_ok r = (\<not> isl (fst r), snd r)"

definition is_true :: "(StoreError + bool) \<times> Store \<Rightarrow> bool \<times> Store" where
  "is_true r = (fst r = Inr True, snd r)"

text \<open>A call reports success when it returns a value, for the guarded ones the value true.\<close>

fun run_op :: "(Uuid \<Rightarrow> string) \<Rightarrow> faults \<Rightarrow> store_op \<Rightarrow> Store \<Rightarrow> bool \<times> Store" where
  "run_op ut db (Op_Create ex) st = is_ok (create_execution db ex st)"
| "run_op ut db (Op_Create_Advance ex s) st = is_ok (create_execution_and_advance_job_state db ex s st)"
| "run_op ut db (Op_Claim i rid now) st = is_ok (claim_execution ut db i rid now st)"
| "run_op ut db (Op_Complete i rid s d e r now) st = is_true (complete_execution db i rid s d e r now st)"
| "run_op ut db (Op_Requeue_Abandoned rid now) st = is_ok (requeue_abandoned db rid now st)"
| "run_op ut db (Op_Requeue_If_Claimed i now) st = is_true (requeue_if_claimed db i now st)"
| "run_op ut db (Op_Cancel i now) st = is_ok (cancel_execution db i now st)"
| "run_op ut db (Op_Complete_As_Dead i rid d e dl now) st = is_true (complete_as_dead db i rid d e dl now st)"
| "run_op ut db (Op_Replay i ex) st = is_ok (replay_dead_letter ut db i ex st)"
| "run_op ut db (Op_Remove_Letter i) st = is_ok (remove_dead_letter db i st)"
| "run_op ut db (Op_Remove_Letters is) st = is_ok (remove_dead_letters db is st)"
| "run_op ut db (Op_Clear_Letters k) st = is_ok (clear_dead_letters db k st)"
| "run_op ut db (Op_Purge_Expired now) st = is_ok (purge_expired db now st)"
| "run_op ut db (Op_Prune_Older cutoff n) st = is_ok (prune_executions_older_than db cutoff n st)"
| "run_op ut db (Op_Prune_Keep_Last k keep n) st = is_ok (prune_executions_keep_last db k keep n st)"
| "run_op ut db (Op_Append_Log l) st = is_ok (append_log db l st)"
| "run_op ut db (Op_Append_Logs ls) st = is_ok (append_logs_batch db ls st)"
| "run_op ut db (Op_Upsert_Job_State s) st = is_ok (upsert_job_state db s st)"
| "run_op ut db (Op_Delete_Job_State k) st = is_ok (delete_job_state db k st)"
| "run_op ut db (Op_Upsert_Register_Fire r) st = is_ok (upsert_register_fire db r st)"
| "run_op ut db (Op_Delete_Register_Fire k) st = is_ok (delete_register_fire db k st)"
| "run_op ut db (Op_Bind_Identity rid owner now) st = is_ok (runner_identity_bind db rid owner now st)"
| "run_op ut db (Op_Release_Identity rid) st = is_ok (runner_identity_release db rid st)"
| "run_op ut db (Op_Record_Failure k eid e now) st = is_ok (record_job_failure db k eid e now st)"
| "run_op ut db (Op_Take_Streak k) st = is_ok (take_job_failure_streak db k st)"

fun run_ops :: "(Uuid \<Rightarrow> string) \<Rightarrow> (faults \<times> store_op) list \<Rightarrow> Store \<Rightarrow> Store" where
  "run_ops ut [] st = st"
| "run_ops ut ((db, c) # cs) st = run_ops ut cs (snd (run_op ut db c st))"

text \<open>How often a call that satisfies \<open>P\<close> reports success along an interleaving.\<close>

fun successes :: "(store_op \<Rightarrow> bool) \<Rightarrow> (Uuid \<Rightarrow> string) \<Rightarrow> (faults \<times> store_op) list \<Rightarrow> Store \<Rightarrow> nat" where
  "successes P ut [] st = 0"
| "successes P ut ((db, c) # cs) st =
     (case run_op ut db c st of (ok, st') \<Rightarrow> (if P c \<and> ok then 1 else 0) + successes P ut cs st')"

subsection \<open>What the callers pass\<close>

text \<open>
  Every execution the code inserts is queued and unclaimed; \<open>complete_execution\<close> is called with a final state other
  than dead, and a dead letter names the execution it is written with. The store also offers \<open>add_dead_letter\<close>, an
  insert without a guard; only tests call it, the server writes letters through \<open>complete_as_dead\<close>, so it is not among
  the calls.
\<close>

definition terminal :: "ExecutionState \<Rightarrow> bool" where
  "terminal s \<longleftrightarrow> s \<in> {ES_Completed, ES_Failed, ES_Dead, ES_Cancelled}"

definition fresh_execution :: "Execution \<Rightarrow> bool" where
  "fresh_execution ex \<longleftrightarrow>
     ex_state ex = ES_Queued \<and> ex_runner_id ex = None \<and> ex_claimed_at ex = None \<and> ex_started_at ex = None \<and>
     ex_completed_at ex = None"

fun op_ok :: "store_op \<Rightarrow> bool" where
  "op_ok (Op_Create ex) = fresh_execution ex"
| "op_ok (Op_Create_Advance ex s) = fresh_execution ex"
| "op_ok (Op_Complete i rid s d e r now) \<longleftrightarrow> terminal s \<and> s \<noteq> ES_Dead"
| "op_ok (Op_Complete_As_Dead i rid d e dl now) \<longleftrightarrow> dl_execution_id dl = i"
| "op_ok (Op_Replay i ex) = fresh_execution ex"
| "op_ok _ = True"

fun created_ids :: "store_op \<Rightarrow> Uuid list" where
  "created_ids (Op_Create ex) = [ex_id ex]"
| "created_ids (Op_Create_Advance ex s) = [ex_id ex]"
| "created_ids (Op_Replay i ex) = [ex_id ex]"
| "created_ids _ = []"

text \<open>
  The ids an interleaving inserts. That they are pairwise different and not yet in use is what random UUIDs promise.
\<close>

definition all_created :: "(faults \<times> store_op) list \<Rightarrow> Uuid list" where
  "all_created cs = concat (map (\<lambda>(_, c). created_ids c) cs)"

definition ids_unused :: "(faults \<times> store_op) list \<Rightarrow> Store \<Rightarrow> bool" where
  "ids_unused cs st \<longleftrightarrow> distinct (map ex_id (executions st) @ all_created cs)"

subsection \<open>The state machine of one execution\<close>

fun requeues :: "Uuid \<Rightarrow> store_op \<Rightarrow> bool" where
  "requeues i (Op_Requeue_If_Claimed j now) \<longleftrightarrow> j = i"
| "requeues i (Op_Requeue_Abandoned rid now) \<longleftrightarrow> True"
| "requeues i _ \<longleftrightarrow> False"

text \<open>The flag says whether the call may give a claimed execution back.\<close>

inductive exec_trans :: "bool \<Rightarrow> ExecRow \<Rightarrow> ExecRow \<Rightarrow> bool" for rq where
  claimed: "ex_state r = ES_Queued \<Longrightarrow> exec_trans rq r (claim_update rid now r)"
| completed: "ex_state r = ES_Claimed \<Longrightarrow> terminal s \<Longrightarrow> s \<noteq> ES_Dead \<Longrightarrow>
    exec_trans rq r (r\<lparr>ex_state := s, ex_completed_at := Some now, ex_duration_ms := d, ex_error := e,
      ex_dead_reason := x\<rparr>)"
| requeued: "rq \<Longrightarrow> ex_state r = ES_Claimed \<Longrightarrow> exec_trans rq r (requeue_update r)"
| cancelled: "ex_state r \<in> {ES_Queued, ES_Claimed} \<Longrightarrow>
    exec_trans rq r (r\<lparr>ex_state := ES_Cancelled, ex_completed_at := Some now\<rparr>)"
| died: "ex_state r \<in> {ES_Claimed, ES_Failed} \<Longrightarrow>
    exec_trans rq r (r\<lparr>ex_state := ES_Dead, ex_completed_at := Some now, ex_duration_ms := d, ex_error := e,
      ex_dead_reason := x\<rparr>)"

inductive_cases exec_trans_E: "exec_trans rq r r'"

definition row_of :: "Store \<Rightarrow> Uuid \<Rightarrow> ExecRow option" where
  "row_of st i = find (\<lambda>r. ex_id r = i) (executions st)"

definition new_row :: "Execution \<Rightarrow> ExecRow" where
  "new_row ex = Execution.extend ex (ExecRow.fields (concurrency_group_of ex))"

text \<open>The rows the retention sweeps may delete.\<close>

definition prunable :: "Store \<Rightarrow> ExecRow \<Rightarrow> bool" where
  "prunable st r \<longleftrightarrow> r \<in> set (executions st) \<and> ex_completed_at r \<noteq> None \<and> deletable_execution st r"

text \<open>One call seen from one execution: unchanged, moved along the machine, deleted, or inserted.\<close>

definition row_step :: "store_op \<Rightarrow> Uuid \<Rightarrow> Store \<Rightarrow> Store \<Rightarrow> bool" where
  "row_step c i st st' \<longleftrightarrow>
     row_of st' i = row_of st i \<or>
     (\<exists>r r'. row_of st i = Some r \<and> row_of st' i = Some r' \<and> exec_trans (requeues i c) r r') \<or>
     (\<exists>r. row_of st i = Some r \<and> prunable st r \<and> row_of st' i = None) \<or>
     (\<exists>ex. row_of st i = None \<and> row_of st' i = Some (new_row ex) \<and> fresh_execution ex \<and> ex_id ex = i \<and>
        i \<in> set (created_ids c))"

subsection \<open>Lemmas: statements on rows\<close>

lemmas store_defs =
  commit_def stmt_def bind_db_def read_db_def is_ok_def is_true_def sql_update_def sql_delete_def

lemma find_update:
  assumes "\<And>r. ex_id (f r) = ex_id r"
  shows "find (\<lambda>r. ex_id r = i) (map (\<lambda>r. if P r then f r else r) rows) =
    map_option (\<lambda>r. if P r then f r else r) (find (\<lambda>r :: ExecRow. ex_id r = i) rows)"
  using assms by (induction rows) auto

lemma find_append: "find P (xs @ [x]) = (case find P xs of Some y \<Rightarrow> Some y | None \<Rightarrow> if P x then Some x else None)"
  by (induction xs) auto

lemma find_filter_ids:
  "find (\<lambda>r. ex_id r = i) (filter (\<lambda>r :: ExecRow. ex_id r \<notin> S) rows) =
     (if i \<in> S then None else find (\<lambda>r. ex_id r = i) rows)"
  by (induction rows) auto

lemma find_Some: "find P xs = Some x \<Longrightarrow> x \<in> set xs \<and> P x"
  by (induction xs) (auto split: if_splits)

lemma row_of_id: "row_of st i = Some r \<Longrightarrow> ex_id r = i \<and> r \<in> set (executions st)"
  unfolding row_of_def by (auto dest: find_Some)

lemma find_distinct:
  "distinct (map ex_id rows) \<Longrightarrow> r \<in> set rows \<Longrightarrow> find (\<lambda>x :: ExecRow. ex_id x = ex_id r) rows = Some r"
  by (induction rows) (auto simp: image_iff)

lemma row_of_mem: "distinct (map ex_id (executions st)) \<Longrightarrow> r \<in> set (executions st) \<Longrightarrow> row_of st (ex_id r) = Some r"
  unfolding row_of_def by (rule find_distinct)

lemma new_row_simps [simp]:
  "ex_id (new_row ex) = ex_id ex" "ex_state (new_row ex) = ex_state ex" "ex_completed_at (new_row ex) = ex_completed_at ex"
  "ex_runner_id (new_row ex) = ex_runner_id ex" "ex_claimed_at (new_row ex) = ex_claimed_at ex"
  "ex_job_key (new_row ex) = ex_job_key ex"
  by (simp_all add: new_row_def Execution.defs ExecRow.defs)

lemma update_simps [simp]:
  "ex_id (claim_update rid now r) = ex_id r" "ex_id (requeue_update r) = ex_id r"
  by (simp_all add: claim_update_def requeue_update_def)

subsection \<open>Lemmas: calls on rows\<close>

lemma insert_execution_Inr:
  "insert_execution_with fault ex st = Inr st' \<longleftrightarrow>
     fault = None \<and> (\<forall>r \<in> set (executions st). ex_id r \<noteq> ex_id ex) \<and>
     st' = st\<lparr>executions := executions st @ [new_row ex]\<rparr>"
  by (auto simp: insert_execution_with_def stmt_def new_row_def list_ex_iff split: option.splits)

lemma bind_db_Inr: "bind_db r f = Inr y \<longleftrightarrow> (\<exists>x. r = Inr x \<and> f x = Inr y)"
  by (auto simp: bind_db_def split: sum.splits)

lemma stmt_Inr: "stmt fault r = Inr y \<longleftrightarrow> fault = None \<and> r = Inr y"
  by (auto simp: stmt_def split: option.splits)

lemma upsert_job_state_executions:
  "upsert_job_state_with fault s st = Inr st' \<Longrightarrow> executions st' = executions st \<and> dead_letters st' = dead_letters st"
  by (auto simp: upsert_job_state_with_def stmt_Inr)

lemma commit_eq:
  "commit st r = (y, st') \<longleftrightarrow> (\<exists>e. r = Inl e \<and> y = Inl e \<and> st' = st) \<or> (\<exists>x. r = Inr (x, st') \<and> y = Inr x)"
  by (auto simp: commit_def split: sum.splits)

lemma is_eq:
  "is_ok r = (ok, st') \<longleftrightarrow> (\<exists>y. r = (y, st') \<and> ok = (\<not> isl y))"
  "is_true b = (ok, st') \<longleftrightarrow> (\<exists>y. b = (y, st') \<and> ok = (y = Inr True))"
  by (cases r; auto simp: is_ok_def) (cases b; auto simp: is_true_def)

lemmas call_steps = is_eq commit_eq bind_db_Inr stmt_Inr sql_delete_def sql_update_def

text \<open>The executions after a call: one execution appended, the rows of a set of ids deleted, or rows updated.\<close>

lemma executions_create:
  assumes "c = Op_Create ex \<or> c = Op_Create_Advance ex s \<or> c = Op_Replay j ex" and "run_op ut db c st = (ok, st')"
  shows "executions st' = executions st \<or>
    (\<forall>r \<in> set (executions st). ex_id r \<noteq> ex_id ex) \<and> executions st' = executions st @ [new_row ex]"
  using assms
  by (auto simp: call_steps create_execution_def create_execution_and_advance_job_state_def replay_dead_letter_def
      insert_execution_Inr dest!: upsert_job_state_executions split: if_splits)

lemma executions_claim:
  assumes "run_op ut db (Op_Claim i rid now) st = (ok, st')"
  shows "executions st' = executions st \<or>
    executions st' =
      map (\<lambda>r. if ex_id r = i \<and> ex_state r = ES_Queued then claim_update rid now r else r) (executions st)"
  using assms
  by (auto simp: call_steps claim_execution_def get_execution_def read_db_def
      split: option.splits sum.splits prod.splits if_splits)

lemma executions_complete:
  assumes "run_op ut db (Op_Complete i rid s d e x now) st = (ok, st')"
  shows "executions st' = executions st \<or>
    executions st' =
      map (\<lambda>r. if ex_id r = i \<and> ex_state r = ES_Claimed \<and> fence_ok rid r
               then r\<lparr>ex_state := s, ex_completed_at := Some now, ex_duration_ms := d, ex_error := e,
                      ex_dead_reason := x\<rparr> else r) (executions st)"
  using assms by (auto simp: call_steps complete_execution_def)

lemma executions_requeue:
  assumes "run_op ut db (Op_Requeue_Abandoned rid now) st = (ok, st')"
  shows "executions st' = executions st \<or>
    executions st' = map (\<lambda>r. if ex_runner_id r = Some rid \<and> ex_state r = ES_Claimed then requeue_update r else r)
      (executions st)"
  using assms by (auto simp: call_steps requeue_abandoned_def Let_def split: if_splits)

lemma executions_requeue_if:
  assumes "run_op ut db (Op_Requeue_If_Claimed i now) st = (ok, st')"
  shows "executions st' = executions st \<or>
    executions st' = map (\<lambda>r. if ex_id r = i \<and> ex_state r = ES_Claimed then requeue_update r else r) (executions st)"
  using assms by (auto simp: call_steps requeue_if_claimed_def)

lemma executions_cancel:
  assumes "run_op ut db (Op_Cancel i now) st = (ok, st')"
  shows "executions st' = executions st \<or>
    executions st' = map (\<lambda>r. if ex_id r = i \<and> ex_state r \<in> {ES_Queued, ES_Claimed}
      then r\<lparr>ex_state := ES_Cancelled, ex_completed_at := Some now\<rparr> else r) (executions st)"
  using assms by (auto simp: call_steps cancel_execution_def)

lemma insert_dead_letter_Inr:
  "insert_dead_letter_with fault dl st = Inr st' \<longleftrightarrow>
     fault = None \<and> (\<forall>x \<in> set (dead_letters st). dl_id x \<noteq> dl_id dl) \<and>
     st' = st\<lparr>dead_letters := dead_letters st @ [dl]\<rparr>"
  by (auto simp: insert_dead_letter_with_def stmt_Inr list_ex_iff)

lemma executions_dead:
  assumes "run_op ut db (Op_Complete_As_Dead i rid d e dl now) st = (ok, st')"
  shows "\<not> ok \<and> st' = st \<or>
    ok \<and> (\<exists>r \<in> set (executions st). ex_id r = i \<and> ex_state r \<in> {ES_Claimed, ES_Failed} \<and> fence_ok rid r) \<and>
    dead_letters st' = dead_letters st @ [dl] \<and>
    executions st' = map (\<lambda>r. if ex_id r = i \<and> ex_state r \<in> {ES_Claimed, ES_Failed} \<and> fence_ok rid r
      then r\<lparr>ex_state := ES_Dead, ex_completed_at := Some now, ex_duration_ms := d, ex_error := e,
             ex_dead_reason := Some (dl_dead_reason dl)\<rparr> else r) (executions st)"
  using assms
  by (auto simp: call_steps complete_as_dead_def update_to_dead_with_def insert_dead_letter_Inr filter_empty_conv
      split: if_splits)

lemma delete_selected_eq:
  assumes "delete_selected db ids st = (y, st')"
  shows "st' = st \<or> st' = st\<lparr>execution_logs := filter (\<lambda>l. lg_execution_id l \<notin> set ids) (execution_logs st),
    executions := filter (\<lambda>r. ex_id r \<notin> set ids) (executions st)\<rparr>"
  using assms by (auto simp: delete_selected_def call_steps)

lemma selection_prunable:
  "r \<in> set (older_selection t n st) \<Longrightarrow> prunable st r"
  "r \<in> set (beyond_last_selection k keep n st) \<Longrightarrow> prunable st r"
  by (auto simp: older_selection_def beyond_last_selection_def prunable_def Let_def split: option.splits
      dest!: in_set_takeD in_set_dropD)

lemma executions_prune:
  assumes "c = Op_Prune_Older t n \<or> c = Op_Prune_Keep_Last k keep n" and "run_op ut db c st = (ok, st')"
  obtains "st' = st"
  | rows where "\<forall>r \<in> set rows. prunable st r"
    and "st' = st\<lparr>execution_logs := filter (\<lambda>l. lg_execution_id l \<notin> ex_id ` set rows) (execution_logs st),
                 executions := filter (\<lambda>r. ex_id r \<notin> ex_id ` set rows) (executions st)\<rparr>"
proof -
  have "\<forall>r \<in> set (older_selection t n st). prunable st r" "\<forall>r \<in> set (beyond_last_selection k keep n st). prunable st r"
    by (simp_all add: selection_prunable)
  with assms obtain rows y where "delete_selected db (map ex_id rows) st = (y, st')" and "\<forall>r \<in> set rows. prunable st r"
    by (elim disjE) (simp_all add: is_eq prune_executions_older_than_def prune_executions_keep_last_def, blast+)
  with delete_selected_eq [of db "map ex_id rows" st y st'] that show thesis by auto
qed

fun touches_executions :: "store_op \<Rightarrow> bool" where
  "touches_executions (Op_Create ex) = True"
| "touches_executions (Op_Create_Advance ex s) = True"
| "touches_executions (Op_Claim i rid now) = True"
| "touches_executions (Op_Complete i rid s d e r now) = True"
| "touches_executions (Op_Requeue_Abandoned rid now) = True"
| "touches_executions (Op_Requeue_If_Claimed i now) = True"
| "touches_executions (Op_Cancel i now) = True"
| "touches_executions (Op_Complete_As_Dead i rid d e dl now) = True"
| "touches_executions (Op_Replay i ex) = True"
| "touches_executions (Op_Prune_Older t n) = True"
| "touches_executions (Op_Prune_Keep_Last k keep n) = True"
| "touches_executions _ = False"

lemma append_entries_keeps:
  "append_entries db ls seqs st = Inr st' \<Longrightarrow> executions st' = executions st \<and> dead_letters st' = dead_letters st"
proof (induction db ls seqs st arbitrary: st' rule: append_entries.induct)
  case (2 db l ls seqs st)
  from "2.prems" obtain n st1 where "insert_log_with (db 1) l n st = Inr st1"
    and rest: "append_entries (\<lambda>n. db (n + 2)) ls (seqs(lg_execution_id l \<mapsto> n + 1)) st1 = Inr st'"
    by (auto simp: bind_db_Inr)
  moreover from this(1) have "executions st1 = executions st \<and> dead_letters st1 = dead_letters st"
    by (auto simp: insert_log_with_def stmt_Inr split: if_splits)
  ultimately show ?case using "2.IH" [OF rest] by simp
qed simp

lemmas other_calls =
  remove_dead_letter_def remove_dead_letters_def clear_dead_letters_def purge_expired_def delete_letters_def
  append_log_def append_logs_batch_def insert_log_with_def upsert_job_state_def delete_job_state_def
  upsert_register_fire_def delete_register_fire_def runner_identity_bind_def runner_identity_release_def
  record_job_failure_def take_job_failure_streak_def

lemma executions_other:
  assumes "run_op ut db c st = (ok, st')" and "\<not> touches_executions c"
  shows "executions st' = executions st"
  using assms
  by (cases c)
    (auto simp: call_steps other_calls Let_def dest!: upsert_job_state_executions append_entries_keeps
      split: if_splits option.splits prod.splits)

text \<open>Each case of a call's effect, seen from one row.\<close>

lemma row_step_update:
  assumes "executions st' = map (\<lambda>r. if P r then f r else r) (executions st)"
    and "\<And>r. ex_id (f r) = ex_id r" and "\<And>r. P r \<Longrightarrow> ex_id r = i \<Longrightarrow> exec_trans (requeues i c) r (f r)"
  shows "row_step c i st st'"
proof -
  have "row_of st' i = map_option (\<lambda>r. if P r then f r else r) (row_of st i)"
    unfolding row_of_def assms(1) by (rule find_update) (rule assms(2))
  then show ?thesis
    using assms(3) row_of_id [of st i] by (cases "row_of st i") (auto simp: row_step_def)
qed

lemma row_step_same: "executions st' = executions st \<Longrightarrow> row_step c i st st'"
  by (simp add: row_step_def row_of_def)

lemma row_step_prune:
  assumes "\<forall>r \<in> set rows. prunable st r" and "executions st' = filter (\<lambda>r. ex_id r \<notin> ex_id ` set rows) (executions st)"
    and "distinct (map ex_id (executions st))"
  shows "row_step c i st st'"
proof (cases "i \<in> ex_id ` set rows")
  case True
  then obtain r where "r \<in> set rows" "i = ex_id r" by blast
  with assms have "row_of st i = Some r" and "prunable st r"
    by (auto simp: prunable_def row_of_mem)
  moreover have "row_of st' i = None"
    using True by (simp add: row_of_def assms(2) find_filter_ids)
  ultimately show ?thesis by (auto simp: row_step_def)
next
  case False
  then show ?thesis by (simp add: row_step_def row_of_def assms(2) find_filter_ids)
qed

lemma row_step_create:
  assumes "\<forall>r \<in> set (executions st). ex_id r \<noteq> ex_id ex" and "executions st' = executions st @ [new_row ex]"
    and "fresh_execution ex" and "ex_id ex \<in> set (created_ids c)"
  shows "row_step c i st st'"
proof (cases "i = ex_id ex")
  case True
  with assms(1) have "row_of st i = None" by (simp add: row_of_def find_None_iff)
  with True assms show ?thesis by (auto simp: row_step_def row_of_def find_append split: option.splits)
qed (simp add: row_step_def row_of_def assms(2) find_append split: option.splits)

lemma run_op_simulates:
  assumes call: "run_op ut db c st = (ok, st')" and "op_ok c" and "distinct (map ex_id (executions st))"
  shows "row_step c i st st'"
proof (cases c)
  case (Op_Create ex)
  with executions_create [of c ex _ _ ut db st ok st'] assms row_step_create row_step_same show ?thesis by fastforce
next
  case (Op_Create_Advance ex s)
  with executions_create [of c ex s _ ut db st ok st'] assms row_step_create row_step_same show ?thesis by fastforce
next
  case (Op_Replay j ex)
  with executions_create [of c ex _ j ut db st ok st'] assms row_step_create row_step_same show ?thesis by fastforce
next
  case (Op_Claim j rid now)
  from executions_claim [OF call [unfolded this]] show ?thesis
    by (elim disjE) (erule row_step_same, erule row_step_update, auto intro: exec_trans.claimed)
next
  case (Op_Complete j rid s d e x now)
  with assms(2) have "terminal s" "s \<noteq> ES_Dead" by auto
  with executions_complete [OF call [unfolded Op_Complete]] show ?thesis
    by (elim disjE) (erule row_step_same, erule row_step_update, auto intro: exec_trans.completed)
next
  case (Op_Requeue_Abandoned rid now)
  from executions_requeue [OF call [unfolded this]] show ?thesis
    by (elim disjE) (erule row_step_same, erule row_step_update, auto intro: exec_trans.requeued simp: Op_Requeue_Abandoned)
next
  case (Op_Requeue_If_Claimed j now)
  from executions_requeue_if [OF call [unfolded this]] show ?thesis
    by (elim disjE) (erule row_step_same, erule row_step_update, auto intro: exec_trans.requeued simp: Op_Requeue_If_Claimed)
next
  case (Op_Cancel j now)
  from executions_cancel [OF call [unfolded this]] show ?thesis
    by (elim disjE) (erule row_step_same, erule row_step_update, auto intro: exec_trans.cancelled)
next
  case (Op_Complete_As_Dead j rid d e dl now)
  from executions_dead [OF call [unfolded this]] show ?thesis
    by (elim disjE conjE) (simp add: row_step_same, erule row_step_update, auto intro: exec_trans.died)
next
  case (Op_Prune_Older t n)
  then have "c = Op_Prune_Older t n \<or> c = Op_Prune_Keep_Last k keep n" for k keep by simp
  from executions_prune [OF this call] show ?thesis
    by cases (simp add: row_step_same, erule row_step_prune, simp_all add: assms(3))
next
  case (Op_Prune_Keep_Last k keep n)
  then have "c = Op_Prune_Older t n \<or> c = Op_Prune_Keep_Last k keep n" for t by simp
  from executions_prune [OF this call] show ?thesis
    by cases (simp add: row_step_same, erule row_step_prune, simp_all add: assms(3))
qed (use executions_other [OF call] in \<open>simp_all add: row_step_same\<close>)

subsection \<open>Lemmas: interleavings\<close>

lemma ids_update:
  assumes "executions st' = map (\<lambda>r. if P r then f r else r) (executions st)" and "\<And>r. ex_id (f r) = ex_id r"
  shows "map ex_id (executions st') = map ex_id (executions st)"
  using assms by auto

lemma run_op_ids:
  assumes call: "run_op ut db c st = (ok, st')"
  shows "map ex_id (executions st') = map ex_id (executions st) @ created_ids c \<or>
    (\<exists>K. map ex_id (executions st') = filter K (map ex_id (executions st)))"
proof -
  have kept: ?thesis if "map ex_id (executions st') = map ex_id (executions st)"
    using that by (intro disjI2 exI [of _ "\<lambda>_. True"]) simp
  have pruned: ?thesis if c: "c = Op_Prune_Older t n \<or> c = Op_Prune_Keep_Last k keep n" for t k keep n
    using executions_prune [OF c call]
  proof cases
    case (2 rows)
    then have "map ex_id (executions st') = filter (\<lambda>i. i \<notin> ex_id ` set rows) (map ex_id (executions st))"
      by (simp add: filter_map comp_def)
    then show ?thesis by blast
  qed (use kept in simp)
  have created: ?thesis if c: "c = Op_Create ex \<or> c = Op_Create_Advance ex s \<or> c = Op_Replay j ex" for ex s j
    using executions_create [OF c call] c kept by auto
  show ?thesis
  proof (cases c)
    case (Op_Claim j rid now)
    from executions_claim [OF call [unfolded this]] show ?thesis
      by (elim disjE) (rule kept, simp, rule kept, erule ids_update, simp)
  next
    case (Op_Complete j rid s d e x now)
    from executions_complete [OF call [unfolded this]] show ?thesis
      by (elim disjE) (rule kept, simp, rule kept, erule ids_update, simp)
  next
    case (Op_Requeue_Abandoned rid now)
    from executions_requeue [OF call [unfolded this]] show ?thesis
      by (elim disjE) (rule kept, simp, rule kept, erule ids_update, simp)
  next
    case (Op_Requeue_If_Claimed j now)
    from executions_requeue_if [OF call [unfolded this]] show ?thesis
      by (elim disjE) (rule kept, simp, rule kept, erule ids_update, simp)
  next
    case (Op_Cancel j now)
    from executions_cancel [OF call [unfolded this]] show ?thesis
      by (elim disjE) (rule kept, simp, rule kept, erule ids_update, simp)
  next
    case (Op_Complete_As_Dead j rid d e dl now)
    from executions_dead [OF call [unfolded this]] show ?thesis
      by (elim disjE conjE) (rule kept, simp, rule kept, erule ids_update, simp)
  qed (use pruned created kept executions_other [OF call] in auto)
qed

lemma all_created_simps [simp]:
  "all_created [] = []" "all_created ((db, c) # cs) = created_ids c @ all_created cs"
  by (simp_all add: all_created_def)

lemma ids_unused_step:
  assumes "ids_unused ((db, c) # cs) st" and "run_op ut db c st = (ok, st')"
  shows "ids_unused cs st'" and "distinct (map ex_id (executions st))"
    and "set (created_ids c) \<inter> set (all_created cs) = {}" and "set (created_ids c) \<inter> ex_id ` set (executions st) = {}"
proof -
  from assms(1) have d: "distinct (map ex_id (executions st) @ created_ids c @ all_created cs)"
    by (simp add: ids_unused_def)
  then show "distinct (map ex_id (executions st))" "set (created_ids c) \<inter> set (all_created cs) = {}"
    "set (created_ids c) \<inter> ex_id ` set (executions st) = {}"
    by auto
  from run_op_ids [OF assms(2)] d show "ids_unused cs st'"
    unfolding ids_unused_def by (elim disjE exE) (auto simp del: set_map)
qed

text \<open>
  A budget for one execution: what is left of it in a state of the row bounds how often a kind of call can still
  succeed; some calls refill it.
\<close>

locale exec_budget =
  fixes hit :: "store_op \<Rightarrow> bool" and left :: "ExecRow \<Rightarrow> nat" and refill :: "store_op \<Rightarrow> nat" and i :: Uuid
  assumes left_new: "fresh_execution ex \<Longrightarrow> left (new_row ex) \<le> 1"
    and hit_row: "run_op ut db c st = (True, st') \<Longrightarrow> hit c \<Longrightarrow> distinct (map ex_id (executions st)) \<Longrightarrow>
      row_of st i \<noteq> None \<and> row_of st' i \<noteq> None"
    and spend: "run_op ut db c st = (ok, st') \<Longrightarrow> op_ok c \<Longrightarrow> distinct (map ex_id (executions st)) \<Longrightarrow>
      row_of st i = Some r \<Longrightarrow> row_of st' i = Some r' \<Longrightarrow> (if hit c \<and> ok then 1 else 0) + left r' \<le> left r + refill c"
begin

definition budget :: "(faults \<times> store_op) list \<Rightarrow> Store \<Rightarrow> nat" where
  "budget cs st =
     (case row_of st i of Some r \<Rightarrow> left r | None \<Rightarrow> if i \<in> set (all_created cs) then 1 else 0) +
     sum_list (map (refill \<circ> snd) cs)"

lemma budget_step:
  assumes call: "run_op ut db c st = (ok, st')" and "op_ok c" and unused: "ids_unused ((db, c) # cs) st"
  shows "(if hit c \<and> ok then 1 else 0) + budget cs st' \<le> budget ((db, c) # cs) st"
proof -
  note ids = ids_unused_step [OF unused call]
  have hit: "hit c \<and> ok \<Longrightarrow> row_of st i \<noteq> None \<and> row_of st' i \<noteq> None"
    using hit_row [of ut db c st st'] call ids(2) by auto
  have step: "row_step c i st st'"
    using run_op_simulates [OF call assms(2) ids(2)] .
  show ?thesis
  proof (cases "row_of st i")
    case None
    have "left (new_row ex) \<le> Suc (refill c)" if "fresh_execution ex" for ex
      using left_new [OF that] by simp
    with None hit step ids(3) show ?thesis
      by (cases "row_of st' i") (auto simp: budget_def row_step_def)
  next
    case (Some r)
    then have "i \<in> ex_id ` set (executions st)" using row_of_id by blast
    with unused have "i \<notin> set (all_created cs)" by (auto simp: ids_unused_def)
    with Some hit spend [OF call assms(2) ids(2) Some] show ?thesis
      by (cases "row_of st' i") (auto simp: budget_def)
  qed
qed

lemma successes_bounded:
  assumes "ids_unused cs st" and "list_all (\<lambda>(_, c). op_ok c) cs"
  shows "successes hit ut cs st \<le> budget cs st"
  using assms
proof (induction cs arbitrary: st)
  case (Cons a cs)
  obtain db c where a: "a = (db, c)" by (cases a)
  obtain ok st' where call: "run_op ut db c st = (ok, st')" by (cases "run_op ut db c st")
  from Cons.prems have "ids_unused cs st'"
    unfolding a using ids_unused_step(1) [OF _ call] by blast
  with Cons have "successes hit ut cs st' \<le> budget cs st'" by simp
  with budget_step [OF call, of cs] Cons.prems show ?case by (simp add: a call)
qed simp

end

subsection \<open>Budgets of completions, deaths and claims\<close>

lemma row_step_some:
  "row_step c i st st' \<Longrightarrow> row_of st i = Some r \<Longrightarrow> row_of st' i = Some r' \<Longrightarrow> r' = r \<or> exec_trans (requeues i c) r r'"
  by (auto simp: row_step_def)

lemma row_of_update:
  assumes "distinct (map ex_id (executions st))" and "r \<in> set (executions st)" and "ex_id r = i" and "P r"
    and "executions st' = map (\<lambda>r. if P r then f r else r) (executions st)" and "\<And>r. ex_id (f r) = ex_id r"
  shows "row_of st i = Some r \<and> row_of st' i = Some (f r)"
proof -
  have row: "row_of st i = Some r" using row_of_mem [OF assms(1,2)] assms(3) by simp
  have "row_of st' i = map_option (\<lambda>r. if P r then f r else r) (row_of st i)"
    unfolding row_of_def assms(5) by (rule find_update) (rule assms(6))
  with row assms(4) show ?thesis by simp
qed

lemma complete_accepted:
  assumes call: "run_op ut db (Op_Complete i rid s d e x now) st = (True, st')" and "distinct (map ex_id (executions st))"
  obtains r where "row_of st i = Some r" and "ex_state r = ES_Claimed" and "fence_ok rid r"
    and "row_of st' i = Some (r\<lparr>ex_state := s, ex_completed_at := Some now, ex_duration_ms := d, ex_error := e,
      ex_dead_reason := x\<rparr>)"
proof -
  define P where "P = (\<lambda>r. ex_id r = i \<and> ex_state r = ES_Claimed \<and> fence_ok rid r)"
  define f :: "ExecRow \<Rightarrow> ExecRow" where
    "f r = r\<lparr>ex_state := s, ex_completed_at := Some now, ex_duration_ms := d, ex_error := e, ex_dead_reason := x\<rparr>" for r
  from call have ex: "filter P (executions st) \<noteq> []" and st': "executions st' = map (\<lambda>r. if P r then f r else r) (executions st)"
    by (auto simp: call_steps complete_execution_def P_def f_def)
  from ex obtain r where r: "r \<in> set (executions st)" "P r" by (auto simp: filter_empty_conv)
  with row_of_update [OF assms(2) r(1) _ r(2) st'] that show thesis by (simp add: P_def f_def)
qed

lemma claim_accepted:
  assumes call: "run_op ut db (Op_Claim i rid now) st = (True, st')" and "distinct (map ex_id (executions st))"
  obtains r where "row_of st i = Some r" and "ex_state r = ES_Queued" and "row_of st' i = Some (claim_update rid now r)"
proof -
  define P where "P = (\<lambda>r :: ExecRow. ex_id r = i \<and> ex_state r = ES_Queued)"
  from call have ex: "filter P (executions st) \<noteq> []"
    and st': "executions st' = map (\<lambda>r. if P r then claim_update rid now r else r) (executions st)"
    by (auto simp: call_steps claim_execution_def get_execution_def read_db_def P_def filter_empty_conv
        split: option.splits if_splits sum.splits prod.splits)
  from ex obtain r where r: "r \<in> set (executions st)" "P r" by (auto simp: filter_empty_conv)
  with row_of_update [OF assms(2) r(1) _ r(2) st'] that show thesis by (simp add: P_def)
qed

lemma dead_accepted:
  assumes call: "run_op ut db (Op_Complete_As_Dead i rid d e dl now) st = (True, st')"
    and "distinct (map ex_id (executions st))"
  obtains r where "row_of st i = Some r" and "ex_state r \<in> {ES_Claimed, ES_Failed}" and "fence_ok rid r"
    and "row_of st' i = Some (r\<lparr>ex_state := ES_Dead, ex_completed_at := Some now, ex_duration_ms := d, ex_error := e,
      ex_dead_reason := Some (dl_dead_reason dl)\<rparr>)" and "dead_letters st' = dead_letters st @ [dl]"
proof -
  define P where "P = (\<lambda>r. ex_id r = i \<and> ex_state r \<in> {ES_Claimed, ES_Failed} \<and> fence_ok rid r)"
  define f :: "ExecRow \<Rightarrow> ExecRow" where
    "f r = r\<lparr>ex_state := ES_Dead, ex_completed_at := Some now, ex_duration_ms := d, ex_error := e,
             ex_dead_reason := Some (dl_dead_reason dl)\<rparr>" for r
  have "(\<exists>r \<in> set (executions st). P r) \<and> dead_letters st' = dead_letters st @ [dl] \<and>
      executions st' = map (\<lambda>r. if P r then f r else r) (executions st)"
    using executions_dead [OF call] unfolding P_def f_def by simp
  then obtain r where r: "r \<in> set (executions st)" "P r"
    and st': "executions st' = map (\<lambda>r. if P r then f r else r) (executions st)"
    and dl: "dead_letters st' = dead_letters st @ [dl]" by blast
  with row_of_update [OF assms(2) r(1) _ r(2) st'] that show thesis by (simp add: P_def f_def)
qed

fun completes :: "Uuid \<Rightarrow> store_op \<Rightarrow> bool" where
  "completes i (Op_Complete j rid s d e x now) \<longleftrightarrow> j = i"
| "completes i _ \<longleftrightarrow> False"

fun kills :: "Uuid \<Rightarrow> store_op \<Rightarrow> bool" where
  "kills i (Op_Complete_As_Dead j rid d e dl now) \<longleftrightarrow> j = i"
| "kills i _ \<longleftrightarrow> False"

fun claims :: "Uuid \<Rightarrow> store_op \<Rightarrow> bool" where
  "claims i (Op_Claim j rid now) \<longleftrightarrow> j = i"
| "claims i _ \<longleftrightarrow> False"

definition open_row :: "ExecRow \<Rightarrow> nat" where
  "open_row r = (if terminal (ex_state r) then 0 else 1)"

definition mortal_row :: "ExecRow \<Rightarrow> nat" where
  "mortal_row r = (if ex_state r \<in> {ES_Completed, ES_Dead, ES_Cancelled} then 0 else 1)"

definition queued_row :: "ExecRow \<Rightarrow> nat" where
  "queued_row r = (if ex_state r = ES_Queued then 1 else 0)"

lemma trans_budgets:
  assumes "exec_trans rq r r'"
  shows "open_row r' \<le> open_row r" and "mortal_row r' \<le> mortal_row r"
    and "queued_row r' \<le> queued_row r + (if rq then 1 else 0)"
  using assms
  by (auto elim!: exec_trans_E simp: open_row_def mortal_row_def queued_row_def terminal_def claim_update_def
      requeue_update_def)

lemma kind_of_call:
  "completes i c \<Longrightarrow> \<exists>rid s d e x now. c = Op_Complete i rid s d e x now"
  "kills i c \<Longrightarrow> \<exists>rid d e dl now. c = Op_Complete_As_Dead i rid d e dl now"
  "claims i c \<Longrightarrow> \<exists>rid now. c = Op_Claim i rid now"
  by (cases c; simp)+

lemma accepted_completion:
  assumes "run_op ut db c st = (True, st')" and "distinct (map ex_id (executions st))" and "completes i c"
  shows "\<exists>r r'. row_of st i = Some r \<and> row_of st' i = Some r' \<and> open_row r = 1 \<and> (op_ok c \<longrightarrow> open_row r' = 0)"
proof -
  obtain rid s d e x now where c: "c = Op_Complete i rid s d e x now" using kind_of_call(1) [OF assms(3)] by blast
  from complete_accepted [OF assms(1) [unfolded c] assms(2)] show ?thesis
    by cases (auto simp: c open_row_def terminal_def)
qed

lemma accepted_death:
  assumes "run_op ut db c st = (True, st')" and "distinct (map ex_id (executions st))" and "kills i c"
  shows "\<exists>r r'. row_of st i = Some r \<and> row_of st' i = Some r' \<and> mortal_row r = 1 \<and> mortal_row r' = 0"
proof -
  obtain rid d e dl now where c: "c = Op_Complete_As_Dead i rid d e dl now" using kind_of_call(2) [OF assms(3)] by blast
  from dead_accepted [OF assms(1) [unfolded c] assms(2)] show ?thesis
    by cases (auto simp: mortal_row_def)
qed

lemma accepted_claim:
  assumes "run_op ut db c st = (True, st')" and "distinct (map ex_id (executions st))" and "claims i c"
  shows "\<exists>r r'. row_of st i = Some r \<and> row_of st' i = Some r' \<and> queued_row r = 1 \<and> queued_row r' = 0"
proof -
  obtain rid now where c: "c = Op_Claim i rid now" using kind_of_call(3) [OF assms(3)] by blast
  from claim_accepted [OF assms(1) [unfolded c] assms(2)] show ?thesis
    by cases (auto simp: queued_row_def claim_update_def)
qed

text \<open>A call other than an accepted one of the counted kind moves the row along the machine at most.\<close>

lemma spend_monotone:
  assumes "run_op ut db c st = (ok, st')" and "op_ok c" and "distinct (map ex_id (executions st))"
    and "row_of st i = Some r" and "row_of st' i = Some r'" and "\<And>r r'. exec_trans (requeues i c) r r' \<Longrightarrow> left r' \<le> left r + n"
  shows "left r' \<le> left r + (n :: nat)"
proof -
  have "r' = r \<or> exec_trans (requeues i c) r r'"
    using row_step_some [OF run_op_simulates [OF assms(1-3), of i] assms(4,5)] .
  with assms(6) show ?thesis by auto
qed

interpretation completion: exec_budget "completes i" open_row "\<lambda>_. 0" i for i
proof
  fix ut db c st st' r r' and ok :: bool
  show "row_of st i \<noteq> None \<and> row_of st' i \<noteq> None"
    if "run_op ut db c st = (True, st')" "completes i c" "distinct (map ex_id (executions st))"
    using accepted_completion [OF that(1,3,2)] by auto
  show "(if completes i c \<and> ok then 1 else 0) + open_row r' \<le> open_row r + 0"
    if call: "run_op ut db c st = (ok, st')" "op_ok c" "distinct (map ex_id (executions st))" "row_of st i = Some r"
      "row_of st' i = Some r'"
    using accepted_completion [of ut db c st st' i] spend_monotone [OF call, of open_row 0] trans_budgets(1) call by auto
qed (simp add: open_row_def)

interpretation death: exec_budget "kills i" mortal_row "\<lambda>_. 0" i for i
proof
  fix ut db c st st' r r' and ok :: bool
  show "row_of st i \<noteq> None \<and> row_of st' i \<noteq> None"
    if "run_op ut db c st = (True, st')" "kills i c" "distinct (map ex_id (executions st))"
    using accepted_death [OF that(1,3,2)] by auto
  show "(if kills i c \<and> ok then 1 else 0) + mortal_row r' \<le> mortal_row r + 0"
    if call: "run_op ut db c st = (ok, st')" "op_ok c" "distinct (map ex_id (executions st))" "row_of st i = Some r"
      "row_of st' i = Some r'"
    using accepted_death [of ut db c st st' i] spend_monotone [OF call, of mortal_row 0] trans_budgets(2) call by auto
qed (simp add: mortal_row_def)

interpretation claiming: exec_budget "claims i" queued_row "\<lambda>c. if requeues i c then 1 else 0" i for i
proof
  fix ut db c st st' r r' and ok :: bool
  show "row_of st i \<noteq> None \<and> row_of st' i \<noteq> None"
    if "run_op ut db c st = (True, st')" "claims i c" "distinct (map ex_id (executions st))"
    using accepted_claim [OF that(1,3,2)] by auto
  show "(if claims i c \<and> ok then 1 else 0) + queued_row r' \<le> queued_row r + (if requeues i c then 1 else 0)"
    if call: "run_op ut db c st = (ok, st')" "op_ok c" "distinct (map ex_id (executions st))" "row_of st i = Some r"
      "row_of st' i = Some r'"
    using accepted_claim [of ut db c st st' i] spend_monotone [OF call, of queued_row "if requeues i c then 1 else 0"]
      trans_budgets(3) call by auto
qed (simp add: queued_row_def)

subsection \<open>Lemmas: the invariant of the store\<close>

definition row_ok :: "ExecRow \<Rightarrow> bool" where
  "row_ok r \<longleftrightarrow> (ex_completed_at r \<noteq> None \<longleftrightarrow> terminal (ex_state r))"

definition letter_ok :: "Store \<Rightarrow> DeadLetter \<Rightarrow> bool" where
  "letter_ok st dl \<longleftrightarrow> (\<exists>r. row_of st (dl_execution_id dl) = Some r \<and> ex_state r = ES_Dead)"

definition store_inv :: "Store \<Rightarrow> bool" where
  "store_inv st \<longleftrightarrow>
     distinct (map ex_id (executions st)) \<and> (\<forall>i r. row_of st i = Some r \<longrightarrow> row_ok r) \<and>
     distinct (map dl_execution_id (dead_letters st)) \<and> list_all (letter_ok st) (dead_letters st)"

lemma row_ok_trans: "exec_trans rq r r' \<Longrightarrow> row_ok r \<Longrightarrow> row_ok r'"
  by (auto elim!: exec_trans_E simp: row_ok_def terminal_def claim_update_def requeue_update_def)

lemma row_ok_new: "fresh_execution ex \<Longrightarrow> row_ok (new_row ex)"
  by (simp add: row_ok_def fresh_execution_def terminal_def)

lemma trans_not_dead: "exec_trans rq r r' \<Longrightarrow> ex_state r \<noteq> ES_Dead"
  by (auto elim!: exec_trans_E)

fun touches_letters :: "store_op \<Rightarrow> bool" where
  "touches_letters (Op_Complete_As_Dead i rid d e dl now) = True"
| "touches_letters (Op_Replay i ex) = True"
| "touches_letters (Op_Remove_Letter i) = True"
| "touches_letters (Op_Remove_Letters is) = True"
| "touches_letters (Op_Clear_Letters k) = True"
| "touches_letters (Op_Purge_Expired now) = True"
| "touches_letters _ = False"

lemma letters_other:
  assumes "run_op ut db c st = (ok, st')" and "\<not> touches_letters c"
  shows "dead_letters st' = dead_letters st"
  using assms
  by (cases c)
    (auto simp: call_steps other_calls Let_def create_execution_def create_execution_and_advance_job_state_def
      insert_execution_Inr claim_execution_def get_execution_def read_db_def complete_execution_def
      requeue_abandoned_def requeue_if_claimed_def cancel_execution_def prune_executions_keep_last_def
      prune_executions_older_than_def dest!: upsert_job_state_executions append_entries_keeps delete_selected_eq
      split: if_splits option.splits prod.splits sum.splits)

lemma delete_letters_keeps: "delete_letters db P st = (y, st') \<Longrightarrow> \<exists>K. dead_letters st' = filter K (dead_letters st)"
  by (auto simp: delete_letters_def call_steps intro: exI [of _ "\<lambda>_. True"])

lemma letters_step:
  assumes call: "run_op ut db c st = (ok, st')"
  shows "(\<exists>K. dead_letters st' = filter K (dead_letters st)) \<or>
    ok \<and> (\<exists>i rid d e dl now. c = Op_Complete_As_Dead i rid d e dl now \<and> dead_letters st' = dead_letters st @ [dl])"
proof -
  have kept: "\<exists>K. dead_letters st = filter K (dead_letters st)" by (rule exI [of _ "\<lambda>_. True"]) simp
  show ?thesis
  proof (cases c)
    case (Op_Complete_As_Dead i rid d e dl now)
    then show ?thesis using executions_dead [OF call [unfolded Op_Complete_As_Dead]] kept by auto
  next
    case (Op_Replay i ex)
    with call have "dead_letters st' = dead_letters st \<or> dead_letters st' = filter (\<lambda>dl. dl_id dl \<noteq> i) (dead_letters st)"
      by (auto simp: call_steps replay_dead_letter_def insert_execution_Inr split: if_splits)
    with kept show ?thesis by auto
  qed (use call kept letters_other [OF call] in \<open>auto simp: is_eq remove_dead_letter_def remove_dead_letters_def
        clear_dead_letters_def purge_expired_def split: if_splits option.splits prod.splits
        dest: delete_letters_keeps\<close>)
qed

text \<open>A dead execution with a dead letter is not touched by any call.\<close>

lemma dead_row_stays:
  assumes call: "run_op ut db c st = (ok, st')" and "op_ok c" and inv: "store_inv st" and dl: "dl \<in> set (dead_letters st)"
  shows "letter_ok st' dl"
proof -
  from inv dl obtain r where r: "row_of st (dl_execution_id dl) = Some r" "ex_state r = ES_Dead"
    by (auto simp: store_inv_def list_all_iff letter_ok_def)
  have "\<not> prunable st r"
    using r dl row_of_id [OF r(1)] by (auto simp: prunable_def deletable_execution_def list_ex_iff)
  with r trans_not_dead run_op_simulates [OF call assms(2), of "dl_execution_id dl"] inv
  have "row_of st' (dl_execution_id dl) = Some r"
    by (auto simp: row_step_def store_inv_def)
  with r(2) show ?thesis by (simp add: letter_ok_def)
qed

lemma store_inv_step:
  assumes call: "run_op ut db c st = (ok, st')" and "op_ok c" and inv: "store_inv st"
    and "set (created_ids c) \<inter> ex_id ` set (executions st) = {}"
  shows "store_inv st'"
proof -
  from inv have d: "distinct (map ex_id (executions st))" by (simp add: store_inv_def)
  have "distinct (map ex_id (executions st'))"
  proof -
    have "distinct (created_ids c)" by (cases c) auto
    with d assms(4) have "distinct (map ex_id (executions st) @ created_ids c)" by auto
    with run_op_ids [OF call] d show ?thesis by (elim disjE exE) (simp_all only: distinct_filter)
  qed
  moreover have "row_ok r" if "row_of st' i = Some r" for i r
    using run_op_simulates [OF call assms(2) d, of i] that inv row_ok_trans row_ok_new
    by (auto simp: row_step_def store_inv_def)
  moreover have "distinct (map dl_execution_id (dead_letters st')) \<and> list_all (letter_ok st') (dead_letters st')"
    using letters_step [OF call]
  proof (elim disjE exE conjE)
    fix K assume "dead_letters st' = filter K (dead_letters st)"
    with inv dead_row_stays [OF call assms(2) inv] show ?thesis
      by (auto simp: store_inv_def list_all_iff distinct_map_filter)
  next
    fix i rid d' e dl now
    assume ok and c: "c = Op_Complete_As_Dead i rid d' e dl now" and l: "dead_letters st' = dead_letters st @ [dl]"
    have i: "dl_execution_id dl = i" using assms(2) by (simp add: c)
    from call \<open>ok\<close> have call': "run_op ut db (Op_Complete_As_Dead i rid d' e dl now) st = (True, st')" by (simp add: c)
    from dead_accepted [OF call' d] have "letter_ok st' dl \<and> \<not> letter_ok st dl"
      by cases (auto simp: letter_ok_def i)
    with inv l i dead_row_stays [OF call assms(2) inv] show ?thesis
      by (auto simp: store_inv_def list_all_iff letter_ok_def)
  qed
  ultimately show ?thesis by (simp add: store_inv_def)
qed

lemma store_inv_run:
  assumes "ids_unused cs st" and "list_all (\<lambda>(_, c). op_ok c) cs" and "store_inv st"
  shows "store_inv (run_ops ut cs st)"
  using assms
proof (induction cs arbitrary: st)
  case (Cons a cs)
  obtain db c where a: "a = (db, c)" by (cases a)
  obtain ok st' where call: "run_op ut db c st = (ok, st')" by (cases "run_op ut db c st")
  note ids = ids_unused_step [OF Cons.prems(1) [unfolded a] call]
  from store_inv_step [OF call _ Cons.prems(3) ids(4)] Cons.prems(2) have "store_inv st'" by (simp add: a)
  with Cons.IH [OF ids(1)] Cons.prems(2) show ?case by (simp add: a call)
qed simp

lemma store_inv_empty: "store_inv empty_store"
  by (simp add: store_inv_def empty_store_def row_of_def)

subsection \<open>Properties\<close>

lemma finished_step:
  assumes "row_step c i st st'" and "row_of st i = Some r" and "terminal (ex_state r)"
  shows "row_of st' i = Some r \<or> row_of st' i = None \<or>
    (\<exists>r'. row_of st' i = Some r' \<and> ex_state r = ES_Failed \<and> ex_state r' = ES_Dead)"
  using assms by (auto simp: row_step_def terminal_def elim!: exec_trans_E)

lemma gone_stays_gone:
  assumes "ids_unused cs st" and "list_all (\<lambda>(_, c). op_ok c) cs" and "row_of st i = None" and "i \<notin> set (all_created cs)"
  shows "row_of (run_ops ut cs st) i = None"
  using assms
proof (induction cs arbitrary: st)
  case (Cons a cs)
  obtain db c where a: "a = (db, c)" by (cases a)
  obtain ok st' where call: "run_op ut db c st = (ok, st')" by (cases "run_op ut db c st")
  note ids = ids_unused_step [OF Cons.prems(1) [unfolded a] call]
  from Cons.prems(4) have "i \<notin> set (created_ids c)" "i \<notin> set (all_created cs)" by (auto simp: a)
  with run_op_simulates [OF call _ ids(2), of i] Cons.prems(2,3) have "row_of st' i = None"
    by (auto simp: row_step_def a)
  with Cons.IH [OF ids(1)] Cons.prems(2) \<open>i \<notin> set (all_created cs)\<close> show ?case by (simp add: a call)
qed simp

lemma finished_run:
  assumes "ids_unused cs st" and "list_all (\<lambda>(_, c). op_ok c) cs" and "row_of st i = Some r" and "terminal (ex_state r)"
  shows "row_of (run_ops ut cs st) i \<in> {Some r, None} \<or>
    ex_state r = ES_Failed \<and> (\<exists>r'. row_of (run_ops ut cs st) i = Some r' \<and> ex_state r' = ES_Dead)"
  using assms
proof (induction cs arbitrary: st r)
  case (Cons a cs)
  obtain db c where a: "a = (db, c)" by (cases a)
  obtain ok st' where call: "run_op ut db c st = (ok, st')" by (cases "run_op ut db c st")
  note ids = ids_unused_step [OF Cons.prems(1) [unfolded a] call]
  have ops: "op_ok c" "list_all (\<lambda>(_, c). op_ok c) cs" using Cons.prems(2) by (simp_all add: a)
  have i: "i \<in> ex_id ` set (executions st)" using row_of_id [OF Cons.prems(3)] by blast
  have "row_of st' i = Some r \<or> row_of st' i = None \<or>
      (\<exists>r'. row_of st' i = Some r' \<and> ex_state r = ES_Failed \<and> ex_state r' = ES_Dead)"
    using finished_step [OF run_op_simulates [OF call ops(1) ids(2)] Cons.prems(3,4)] .
  then show ?case
  proof (elim disjE exE conjE)
    assume "row_of st' i = Some r"
    with Cons.IH [OF ids(1) ops(2)] Cons.prems(4) show ?thesis by (simp add: a call)
  next
    assume "row_of st' i = None"
    moreover have "i \<notin> set (all_created cs)" using i Cons.prems(1) by (auto simp: ids_unused_def a)
    ultimately show ?thesis using gone_stays_gone [OF ids(1) ops(2)] by (simp add: a call)
  next
    fix r' assume "row_of st' i = Some r'" "ex_state r = ES_Failed" "ex_state r' = ES_Dead"
    with Cons.IH [OF ids(1) ops(2), of r'] show ?thesis by (auto simp: a call terminal_def)
  qed
qed simp

definition sample_execution :: "Uuid \<Rightarrow> string \<Rightarrow> Execution" where
  "sample_execution i k =
     \<lparr>ex_id = i, ex_job_key = k, ex_fire_at = 0, ex_scheduled_for = 0, ex_attempt = 1, ex_state = ES_Queued,
      ex_runner_id = None, ex_claimed_at = None, ex_started_at = None, ex_completed_at = None, ex_duration_ms = None,
      ex_error = None, ex_dead_reason = None, ex_idempotency_key = None, ex_metadata = Map.empty, ex_created_at = 0\<rparr>"

definition sample_letter :: "Uuid \<Rightarrow> Uuid \<Rightarrow> DeadLetter" where
  "sample_letter i e =
     \<lparr>dl_id = i, dl_execution_id = e, dl_job_key = ''a:b'', dl_fire_at = 0, dl_scheduled_for = 0, dl_attempt = 3,
      dl_error = ''boom'', dl_dead_reason = ''exhausted'', dl_metadata = Map.empty, dl_created_at = 5,
      dl_expires_at = None\<rparr>"

text \<open>Two runners race for an execution, the loser's completion is late, and the winner completes twice.\<close>

definition sample_race :: "(faults \<times> store_op) list" where
  "sample_race =
     map (\<lambda>c. (\<lambda>_. None, c))
       [Op_Create (sample_execution 1 ''a:b''), Op_Claim 1 ''r1'' 1, Op_Claim 1 ''r2'' 2, Op_Requeue_If_Claimed 1 3,
        Op_Claim 1 ''r2'' 4, Op_Complete 1 (Some ''r1'') ES_Completed None None None 5,
        Op_Complete 1 (Some ''r2'') ES_Failed None None None 6, Op_Complete 1 (Some ''r2'') ES_Completed None None None 7,
        Op_Complete_As_Dead 1 (Some ''r2'') None None (sample_letter 9 1) 8, Op_Cancel 1 9, Op_Prune_Older 100 10]"

text \<open>C1: An execution settles once. Along every interleaving of the calls the server makes, with every pattern of
  database failures, at most one completion of an execution is accepted and at most one moves it to the dead letters, however many runners report
  it; and it is handed out at most once more often than calls gave it back to the queue. Late and duplicate reports are
  refused.\<close>

theorem execution_settles_once:
  assumes "ids_unused cs st" and "list_all (\<lambda>(_, c). op_ok c) cs"
  shows "successes (completes i) ut cs st \<le> 1 \<and> successes (kills i) ut cs st \<le> 1 \<and>
    successes (claims i) ut cs st \<le> 1 + length (filter (\<lambda>(_, c). requeues i c) cs)"
proof -
  have "sum_list (map ((\<lambda>c. if requeues i c then 1 else 0 :: nat) \<circ> snd) cs) = length (filter (\<lambda>(_, c). requeues i c) cs)"
    by (induction cs) auto
  moreover have "queued_row r \<le> 1" "open_row r \<le> 1" "mortal_row r \<le> 1" for r
    by (simp_all add: queued_row_def open_row_def mortal_row_def)
  ultimately show ?thesis
    using completion.successes_bounded [OF assms, of i ut] death.successes_bounded [OF assms, of i ut]
      claiming.successes_bounded [OF assms, of i ut]
    by (auto simp: completion.budget_def death.budget_def claiming.budget_def comp_def intro: order_trans
        split: option.splits if_splits)
qed

theorem execution_settles_once_witness:
  "ids_unused sample_race empty_store \<and>
   successes (completes 1) (\<lambda>_. []) sample_race empty_store = 1 \<and> successes (kills 1) (\<lambda>_. []) sample_race empty_store = 1 \<and>
   successes (claims 1) (\<lambda>_. []) sample_race empty_store = 2 \<and>
   successes (claims 1) (\<lambda>_. []) sample_race empty_store \<le> 1 + length (filter (\<lambda>(_, c). requeues 1 c) sample_race)"
proof -
  have "ids_unused sample_race empty_store" and "list_all (\<lambda>(_, c). op_ok c) sample_race" by code_simp+
  moreover have "successes (completes 1) (\<lambda>_. []) sample_race empty_store = 1"
    "successes (kills 1) (\<lambda>_. []) sample_race empty_store = 1" "successes (claims 1) (\<lambda>_. []) sample_race empty_store = 2"
    by code_simp+
  ultimately show ?thesis using execution_settles_once [of sample_race empty_store 1 "\<lambda>_. []"] by simp
qed

text \<open>C36: A finished execution is final. Once an execution is completed, dead or cancelled, no later interleaving of
  calls changes a column of its row; it can only be deleted by retention and is then never back. A failed one can in
  addition become dead, once, when its retry could not be stored.\<close>

theorem finished_execution_is_final:
  assumes "ids_unused cs st" and "list_all (\<lambda>(_, c). op_ok c) cs" and "row_of st i = Some r" and "terminal (ex_state r)"
  shows "row_of (run_ops ut cs st) i \<in> {Some r, None} \<or>
    ex_state r = ES_Failed \<and> (\<exists>r'. row_of (run_ops ut cs st) i = Some r' \<and> ex_state r' = ES_Dead)"
  using assms by (rule finished_run)

theorem finished_execution_is_final_witness:
  "\<exists>r. ex_state r = ES_Completed \<and>
     row_of (run_ops (\<lambda>_. []) (map (\<lambda>c. (\<lambda>_. None, c)) [Op_Claim 1 ''r2'' 9, Op_Cancel 1 9, Op_Requeue_Abandoned ''r1'' 9])
       (empty_store\<lparr>executions := [r]\<rparr>)) 1 \<in> {Some r, None}"
proof -
  let ?cs = "map (\<lambda>c. (\<lambda>_. None, c)) [Op_Claim 1 ''r2'' 9, Op_Cancel 1 9, Op_Requeue_Abandoned ''r1'' 9]"
  define r where "r = (new_row (sample_execution 1 ''a:b''))\<lparr>ex_state := ES_Completed, ex_runner_id := Some ''r1''\<rparr>"
  define st where "st = empty_store\<lparr>executions := [r]\<rparr>"
  have "ex_state r = ES_Completed" "ex_id r = 1" by (simp_all add: r_def sample_execution_def)
  moreover from this have "ids_unused ?cs st" "row_of st 1 = Some r" "terminal (ex_state r)"
    by (simp_all add: ids_unused_def st_def row_of_def terminal_def)
  ultimately show ?thesis
    using finished_execution_is_final [of ?cs st 1 r "\<lambda>_. []"] by (intro exI [of _ r]) (simp add: st_def)
qed

text \<open>C3: Dead letters and dead executions belong together. Along every interleaving of calls from an empty store, each
  dead letter has its execution in the table and that execution is dead, and no execution has two dead letters. No
  foreign key enforces this: it rests on the guarded transaction that writes both and on retention sparing dead
  executions that still have a letter.\<close>

theorem dead_letters_have_their_execution:
  assumes "ids_unused cs empty_store" and "list_all (\<lambda>(_, c). op_ok c) cs" and "st = run_ops ut cs empty_store"
  shows "distinct (map dl_execution_id (dead_letters st)) \<and>
    (\<forall>dl \<in> set (dead_letters st). \<exists>r \<in> set (executions st). ex_id r = dl_execution_id dl \<and> ex_state r = ES_Dead)"
  using store_inv_run [OF assms(1,2) store_inv_empty, of ut] assms(3)
  by (auto simp: store_inv_def list_all_iff letter_ok_def dest!: bspec dest: row_of_id)

theorem dead_letters_have_their_execution_witness:
  "map dl_execution_id (dead_letters (run_ops (\<lambda>_. []) sample_race empty_store)) = [1] \<and>
   (\<exists>r \<in> set (executions (run_ops (\<lambda>_. []) sample_race empty_store)). ex_id r = 1 \<and> ex_state r = ES_Dead)"
proof -
  have "ids_unused sample_race empty_store" and "list_all (\<lambda>(_, c). op_ok c) sample_race" by code_simp+
  from dead_letters_have_their_execution [OF this refl, of "\<lambda>_. []"]
  have "\<forall>dl \<in> set (dead_letters (run_ops (\<lambda>_. []) sample_race empty_store)).
      \<exists>r \<in> set (executions (run_ops (\<lambda>_. []) sample_race empty_store)). ex_id r = dl_execution_id dl \<and> ex_state r = ES_Dead"
    by blast
  moreover have "map dl_execution_id (dead_letters (run_ops (\<lambda>_. []) sample_race empty_store)) = [1]" by code_simp
  ultimately show ?thesis by auto
qed

text \<open>C2: Retention loses no work. In every store reached by an interleaving of calls, a call that makes an execution
  disappear, which only the two retention sweeps do, deletes one that is finished and that no dead letter refers to:
  a queued or claimed execution is never deleted, nor a dead one still waiting in the dead letters.\<close>

theorem retention_spares_unfinished:
  assumes "ids_unused cs empty_store" and "list_all (\<lambda>(_, c). op_ok c) cs" and "st = run_ops ut cs empty_store"
    and "run_op ut db c st = (ok, st')" and "op_ok c" and "row_of st i = Some r" and "row_of st' i = None"
  shows "terminal (ex_state r) \<and> (\<forall>dl \<in> set (dead_letters st). dl_execution_id dl \<noteq> i)"
proof -
  have inv: "store_inv st" using store_inv_run [OF assms(1,2) store_inv_empty] assms(3) by simp
  then have "prunable st r" and "row_ok r"
    using run_op_simulates [OF assms(4,5), of i] assms(6,7) by (auto simp: row_step_def store_inv_def)
  moreover have "\<not> letter_ok st dl" if "dl_execution_id dl = i" "dl \<in> set (dead_letters st)" for dl
    using that \<open>prunable st r\<close> assms(6) row_of_id [OF assms(6)]
    by (auto simp: letter_ok_def prunable_def deletable_execution_def list_ex_iff)
  ultimately show ?thesis
    using inv by (auto simp: row_ok_def prunable_def store_inv_def list_all_iff)
qed

theorem retention_spares_unfinished_witness:
  "\<exists>st st' r. row_of st 1 = Some r \<and> run_op (\<lambda>_. []) (\<lambda>_. None) (Op_Prune_Older 100 10) st = (True, st') \<and>
     row_of st' 1 = None \<and> terminal (ex_state r)"
proof -
  let ?cs = "map (\<lambda>c. (\<lambda>_. None, c))
    [Op_Create (sample_execution 1 ''a:b''), Op_Claim 1 ''r1'' 1, Op_Complete 1 (Some ''r1'') ES_Completed None None None 5]"
  define st where "st = run_ops (\<lambda>_. []) ?cs empty_store"
  define p where "p = run_op (\<lambda>_. []) (\<lambda>_. None) (Op_Prune_Older 100 10) st"
  have "ids_unused ?cs empty_store" "list_all (\<lambda>(_, c). op_ok c) ?cs" by code_simp+
  moreover have "\<not> Option.is_none (row_of (run_ops (\<lambda>_. []) ?cs empty_store) 1)" by code_simp
  then obtain r where "row_of st 1 = Some r" unfolding st_def by (auto simp: Option.is_none_def)
  moreover have "fst (run_op (\<lambda>_. []) (\<lambda>_. None) (Op_Prune_Older 100 10) (run_ops (\<lambda>_. []) ?cs empty_store)) \<and>
      Option.is_none (row_of (snd (run_op (\<lambda>_. []) (\<lambda>_. None) (Op_Prune_Older 100 10)
        (run_ops (\<lambda>_. []) ?cs empty_store))) 1)" by code_simp
  then have "p = (True, snd p)" "row_of (snd p) 1 = None"
    unfolding p_def st_def by (auto simp: Option.is_none_def prod_eq_iff)
  ultimately have "row_of st 1 = Some r \<and> p = (True, snd p) \<and> row_of (snd p) 1 = None \<and> terminal (ex_state r)"
    using retention_spares_unfinished [of ?cs st "\<lambda>_. []" "\<lambda>_. None" "Op_Prune_Older 100 10" True "snd p" 1 r]
    unfolding p_def [symmetric] st_def [symmetric] by simp
  then show ?thesis unfolding p_def by blast
qed

subsection \<open>Replaying dead letters\<close>

fun replays :: "Uuid \<Rightarrow> store_op \<Rightarrow> bool" where
  "replays j (Op_Replay i ex) \<longleftrightarrow> i = j"
| "replays j _ \<longleftrightarrow> False"

fun writes_letter :: "Uuid \<Rightarrow> store_op \<Rightarrow> bool" where
  "writes_letter j (Op_Complete_As_Dead i rid d e dl now) \<longleftrightarrow> dl_id dl = j"
| "writes_letter j _ \<longleftrightarrow> False"

lemma replay_accepted:
  assumes "run_op ut db (Op_Replay j ex) st = (True, st')"
  shows "(\<exists>dl \<in> set (dead_letters st). dl_id dl = j) \<and>
    dead_letters st' = filter (\<lambda>dl. dl_id dl \<noteq> j) (dead_letters st) \<and> executions st' = executions st @ [new_row ex]"
  using assms by (auto simp: call_steps replay_dead_letter_def insert_execution_Inr filter_empty_conv split: if_splits)

lemma replays_bounded:
  assumes "list_all (\<lambda>(_, c). \<not> writes_letter j c) cs"
  shows "successes (replays j) ut cs st \<le> (if j \<in> dl_id ` set (dead_letters st) then 1 else 0)"
  using assms
proof (induction cs arbitrary: st)
  case (Cons a cs)
  obtain db c where a: "a = (db, c)" by (cases a)
  obtain ok st' where call: "run_op ut db c st = (ok, st')" by (cases "run_op ut db c st")
  from Cons have IH: "successes (replays j) ut cs st' \<le> (if j \<in> dl_id ` set (dead_letters st') then 1 else 0)" by simp
  from letters_step [OF call] Cons.prems
  have mono: "j \<in> dl_id ` set (dead_letters st') \<Longrightarrow> j \<in> dl_id ` set (dead_letters st)"
    by (auto simp: a)
  show ?case
  proof (cases "replays j c \<and> ok")
    case True
    then obtain ex where "c = Op_Replay j ex" by (cases c) auto
    with True call have "run_op ut db (Op_Replay j ex) st = (True, st')" by simp
    note acc = replay_accepted [OF this]
    then have "j \<notin> dl_id ` set (dead_letters st')" and "j \<in> dl_id ` set (dead_letters st)" by auto
    with IH True show ?thesis by (simp add: a call)
  next
    case False
    then have "successes (replays j) ut (a # cs) st = successes (replays j) ut cs st'" by (auto simp: a call)
    with IH mono show ?thesis by (auto split: if_splits)
  qed
qed simp

text \<open>C37: A dead letter is replayed at most once. However many replays of one dead letter are requested and however they
  interleave with other calls and database failures, at most one succeeds, and that one inserts exactly its execution
  and removes the letter; a refused replay changes nothing.\<close>

theorem dead_letter_replayed_once:
  assumes "list_all (\<lambda>(_, c). \<not> writes_letter j c) cs"
  shows "successes (replays j) ut cs st \<le> 1 \<and>
    (\<forall>db ex st'. run_op ut db (Op_Replay j ex) st = (True, st') \<longrightarrow>
       dead_letters st' = filter (\<lambda>dl. dl_id dl \<noteq> j) (dead_letters st) \<and> executions st' = executions st @ [new_row ex]) \<and>
    (\<forall>db ex st'. run_op ut db (Op_Replay j ex) st = (False, st') \<longrightarrow> st' = st)"
proof -
  have "st' = st" if "run_op ut db (Op_Replay j ex) st = (False, st')" for db ex st'
    using that by (auto simp: call_steps replay_dead_letter_def)
  moreover have "successes (replays j) ut cs st \<le> 1"
    using replays_bounded [OF assms, of ut st] by (rule order_trans) simp
  ultimately show ?thesis using replay_accepted by blast
qed

theorem dead_letter_replayed_once_witness:
  "successes (replays 9) (\<lambda>_. [])
     (map (\<lambda>c. (\<lambda>_. None, c)) [Op_Replay 9 (sample_execution 2 ''a:b''), Op_Replay 9 (sample_execution 3 ''a:b'')])
     (empty_store\<lparr>dead_letters := [sample_letter 9 1]\<rparr>) = 1"
proof -
  let ?cs = "map (\<lambda>c. (\<lambda>_. None, c)) [Op_Replay 9 (sample_execution 2 ''a:b''), Op_Replay 9 (sample_execution 3 ''a:b'')]"
  let ?st = "empty_store\<lparr>dead_letters := [sample_letter 9 1]\<rparr>"
  have "successes (replays 9) (\<lambda>_. []) ?cs ?st \<le> 1"
    using dead_letter_replayed_once [of 9 ?cs "\<lambda>_. []" ?st] by simp
  moreover have "successes (replays 9) (\<lambda>_. []) ?cs ?st \<ge> 1" by code_simp
  ultimately show ?thesis by simp
qed

end
