(* ===== verification/Store_Queries.thy ===== *)
theory Store_Queries
  imports Lifecycle
begin

text \<open>
  The answers of the store's queries: paging through executions with a cursor, the search for a part of a job key, the
  counts behind the concurrency guards and the order of log lines.
\<close>

subsection \<open>Sorting by two keys\<close>

definition lex_le :: "('a \<Rightarrow> 'k :: linorder) \<Rightarrow> ('a \<Rightarrow> 'l :: linorder) \<Rightarrow> 'a \<Rightarrow> 'a \<Rightarrow> bool" where
  "lex_le f g x y \<longleftrightarrow> f x < f y \<or> f x = f y \<and> g x \<le> g y"

lemma insort_lex:
  assumes "sorted_wrt (lex_le f g) zs" and "\<forall>z \<in> set zs. g y \<le> g z"
  shows "sorted_wrt (lex_le f g) (insort_key f y zs)"
  using assms by (induction zs) (auto simp: lex_le_def set_insort_key)

lemma sort_two_keys: "sorted_wrt (lex_le f g) (sort_key f (sort_key g xs))"
proof -
  have "sorted_wrt (lex_le f g) (sort_key f ys)" if "sorted (map g ys)" for ys
    using that
  proof (induction ys)
    case (Cons y ys)
    then show ?case by (simp add: insort_lex)
  qed simp
  then show ?thesis by simp
qed

lemma newest_first_filter: "newest_first (filter P rows) = filter P (newest_first rows)"
  by (simp add: newest_first_def filter_sort)

definition newer :: "'a Execution_scheme \<Rightarrow> 'a Execution_scheme \<Rightarrow> bool" where
  "newer a b \<longleftrightarrow> ex_created_at a > ex_created_at b \<or> ex_created_at a = ex_created_at b \<and> ex_id a > ex_id b"

lemma newest_first_sorted:
  assumes "distinct (map ex_id rows)"
  shows "sorted_wrt newer (newest_first rows)"
proof -
  have "sorted_wrt newer xs"
    if "distinct (map ex_id xs)" and "sorted_wrt (lex_le (\<lambda>r. - ex_created_at r) (\<lambda>r. - int (ex_id r))) xs" for xs
    using that by (induction xs) (auto simp: lex_le_def newer_def image_iff nat_less_le)
  moreover have "distinct (map ex_id (newest_first rows))"
    using assms by (simp add: newest_first_def distinct_map)
  ultimately show ?thesis
    unfolding newest_first_def using sort_two_keys by blast
qed

subsection \<open>Paging\<close>

text \<open>
  How a client walks through the executions: it asks for a page and goes on strictly below the last row it saw, until a
  page is empty. The number bounds the pages it asks for.
\<close>

definition next_page :: "ExecutionFilter \<Rightarrow> Execution \<Rightarrow> ExecutionFilter" where
  "next_page f ex = f\<lparr>ef_until := Some (ex_created_at ex), ef_until_id := Some (ex_id ex)\<rparr>"

fun all_pages :: "nat \<Rightarrow> ExecutionFilter \<Rightarrow> Store \<Rightarrow> Execution list" where
  "all_pages 0 f st = []"
| "all_pages (Suc n) f st =
     (case fst (list_executions (\<lambda>_. None) f st) of
        Inl e \<Rightarrow> []
      | Inr page \<Rightarrow> if page = [] then [] else page @ all_pages n (next_page f (last page)) st)"

definition page_size :: "ExecutionFilter \<Rightarrow> nat" where
  "page_size f = min (case ef_limit f of None \<Rightarrow> 100 | Some n \<Rightarrow> n) MAX_EXECUTIONS_LIMIT"

definition matching :: "ExecutionFilter \<Rightarrow> Store \<Rightarrow> ExecRow list" where
  "matching f st = newest_first (filter (filter_matches f) (executions st))"

lemma list_executions_page:
  "fst (list_executions (\<lambda>_. None) f st) = Inr (map row_to_execution (take (page_size f) (matching f st)))"
  by (simp add: list_executions_def page_size_def matching_def read_db_def stmt_def commit_def Let_def)

lemma row_to_execution_simps [simp]:
  "ex_id (row_to_execution r) = ex_id r" "ex_created_at (row_to_execution r) = ex_created_at r"
  by (simp_all add: row_to_execution_def Execution.defs)

lemma newer_order: "newer a b \<Longrightarrow> newer b c \<Longrightarrow> newer a c" "\<not> newer a a" "newer a b \<Longrightarrow> \<not> newer b a"
  by (auto simp: newer_def)

lemma filter_newer:
  assumes "sorted_wrt newer (xs @ c # ys)"
  shows "filter (newer c) (xs @ c # ys) = ys"
  using assms
  by (auto simp: sorted_wrt_append filter_id_conv filter_empty_conv newer_order(2) dest: newer_order(3))

lemma next_page_matches:
  assumes "filter_matches f c"
  shows "filter_matches (next_page f (row_to_execution c)) r \<longleftrightarrow> filter_matches f r \<and> newer c r"
proof -
  have "(case ef_until f of
           None \<Rightarrow> True
         | Some t \<Rightarrow>
             (case ef_until_id f of
                Some i \<Rightarrow> ex_created_at r < t \<or> (ex_created_at r = t \<and> ex_id r < i)
              | None \<Rightarrow> ex_created_at r \<le> t))"
    if "newer c r"
    using assms that unfolding filter_matches_def newer_def by (cases "ef_until f"; cases "ef_until_id f") auto
  then show ?thesis
    unfolding filter_matches_def next_page_def newer_def by (auto simp del: split_paired_All)
qed

lemma matching_next:
  assumes "distinct (map ex_id (executions st))" and "matching f st = xs @ c # ys"
  shows "matching (next_page f (row_to_execution c)) st = ys"
proof -
  have "c \<in> set (matching f st)" using assms(2) by simp
  then have c: "filter_matches f c" by (simp add: matching_def newest_first_def)
  have "filter_matches (next_page f (row_to_execution c)) = (\<lambda>r. filter_matches f r \<and> newer c r)"
    using next_page_matches [OF c] by blast
  then have "matching (next_page f (row_to_execution c)) st = filter (newer c) (matching f st)"
    by (simp add: matching_def newest_first_filter)
  moreover have "sorted_wrt newer (matching f st)"
    unfolding matching_def by (rule newest_first_sorted) (use assms(1) in \<open>simp add: distinct_map_filter\<close>)
  ultimately show ?thesis using filter_newer assms(2) by metis
qed

lemma page_size_next [simp]: "page_size (next_page f ex) = page_size f"
  by (simp add: page_size_def next_page_def)

lemma all_pages_complete:
  assumes "distinct (map ex_id (executions st))" and "page_size f > 0" and "length (matching f st) < n"
  shows "all_pages n f st = map row_to_execution (matching f st)"
  using assms
proof (induction n arbitrary: f)
  case (Suc n)
  define page where "page = take (page_size f) (matching f st)"
  define rest where "rest = drop (page_size f) (matching f st)"
  have split: "matching f st = page @ rest" by (simp add: page_def rest_def)
  show ?case
  proof (cases "matching f st = []")
    case False
    then have "page \<noteq> []" using Suc.prems(2) by (simp add: page_def)
    then obtain xs c where p: "page = xs @ [c]" using rev_exhaust by blast
    have next_m: "matching (next_page f (row_to_execution c)) st = rest"
      by (rule matching_next [OF Suc.prems(1)]) (simp add: split p)
    from Suc.prems(3) \<open>page \<noteq> []\<close> have "length rest < n" by (cases page) (simp_all add: split)
    with Suc.IH [OF Suc.prems(1), of "next_page f (row_to_execution c)"] Suc.prems(2) next_m
    have "all_pages n (next_page f (row_to_execution c)) st = map row_to_execution rest" by simp
    with p have "all_pages (Suc n) f st = map row_to_execution (page @ rest)"
      by (simp add: list_executions_page page_def [symmetric])
    then show ?thesis by (simp add: split)
  qed (simp add: list_executions_page)
qed simp

text \<open>C38: Paging visits each execution once. A client that follows the cursor of the last row it saw gets, over all its
  pages, exactly the executions the filter selects, each once and newest first, ties of the creation time broken by the
  id; no row is skipped or repeated at a page boundary, also when many rows share one creation time.\<close>

theorem paging_visits_each_once:
  assumes "distinct (map ex_id (executions st))" and "page_size f > 0" and "length (executions st) < n"
  shows "set (all_pages n f st) = row_to_execution ` {r \<in> set (executions st). filter_matches f r} \<and>
    sorted_wrt newer (all_pages n f st) \<and> distinct (map ex_id (all_pages n f st))"
proof -
  have "length (matching f st) < n"
    using le_less_trans [OF length_filter_le assms(3)] by (simp add: matching_def newest_first_def)
  then have pages: "all_pages n f st = map row_to_execution (matching f st)"
    using all_pages_complete assms(1,2) by blast
  have "sorted_wrt newer (matching f st)"
    unfolding matching_def by (rule newest_first_sorted) (use assms(1) in \<open>simp add: distinct_map_filter\<close>)
  then have "sorted_wrt newer (all_pages n f st)"
    unfolding pages sorted_wrt_map by (rule sorted_wrt_mono_rel [rotated]) (simp add: newer_def)
  moreover have "distinct (map ex_id (all_pages n f st))"
  proof -
    have "map ex_id (all_pages n f st) = map ex_id (matching f st)" by (simp add: pages comp_def)
    moreover have "distinct (map ex_id (matching f st))"
      using distinct_map_filter [OF assms(1), of "filter_matches f"]
      by (simp add: matching_def newest_first_def distinct_map)
    ultimately show ?thesis by simp
  qed
  moreover have "set (all_pages n f st) = row_to_execution ` {r \<in> set (executions st). filter_matches f r}"
    by (simp add: pages matching_def newest_first_def)
  ultimately show ?thesis by blast
qed

theorem paging_visits_each_once_witness:
  "let pages = all_pages 5 \<lparr>ef_job_key = None, ef_job_key_contains = None, ef_job_keys = None, ef_states = [],
         ef_runner_id = None, ef_since = None, ef_until = None, ef_until_id = None, ef_limit = Some 2\<rparr>
       (empty_store\<lparr>executions := map (\<lambda>i. new_row (sample_execution i ''a:b'')) [2, 3, 1]\<rparr>)
   in ex_id ` set pages = {1, 2, 3} \<and> sorted_wrt newer pages \<and> distinct (map ex_id pages)"
proof -
  define f :: ExecutionFilter where
    "f = \<lparr>ef_job_key = None, ef_job_key_contains = None, ef_job_keys = None, ef_states = [],
       ef_runner_id = None, ef_since = None, ef_until = None, ef_until_id = None, ef_limit = Some 2\<rparr>"
  define st where "st = empty_store\<lparr>executions := map (\<lambda>i. new_row (sample_execution i ''a:b'')) [2, 3, 1]\<rparr>"
  have ids: "map ex_id (executions st) = [2, 3, 1]" by (simp add: st_def sample_execution_def)
  have "page_size f > 0" by (simp add: f_def page_size_def MAX_EXECUTIONS_LIMIT_def)
  moreover have "length (executions st) < 5" by (simp add: st_def)
  moreover have all: "filter_matches f r" for r by (simp add: f_def filter_matches_def)
  ultimately have pages: "set (all_pages 5 f st) = row_to_execution ` set (executions st) \<and>
      sorted_wrt newer (all_pages 5 f st) \<and> distinct (map ex_id (all_pages 5 f st))"
    using paging_visits_each_once [of st f 5] ids by simp
  have "ex_id ` row_to_execution ` set (executions st) = set (map ex_id (executions st))"
    by (simp add: image_comp comp_def)
  also have "\<dots> = {1, 2, 3}" unfolding ids by auto
  finally show ?thesis using pages unfolding Let_def f_def st_def by simp
qed

subsection \<open>The search for a part of a job key\<close>

definition escaped_char :: "char \<Rightarrow> string" where
  "escaped_char c = (if c \<in> {CHR 0x5C, CHR ''%'', CHR ''_''} then [CHR 0x5C, c] else [c])"

lemma like_contains_escapes: "like_contains n = CHR ''%'' # concat (map escaped_char n) @ ''%''"
  by (induction n) (auto simp: like_contains_def replace_char_def escaped_char_def Let_def)

lemma sql_like_any: "sql_like (CHR ''%'' # ps) s \<longleftrightarrow> (\<exists>pre post. s = pre @ post \<and> sql_like ps post)"
proof -
  have "list_ex (\<lambda>n. sql_like ps (drop n s)) [0 ..< Suc (length s)] \<longleftrightarrow> (\<exists>n \<le> length s. sql_like ps (drop n s))"
    unfolding list_ex_iff set_upt by (auto simp: less_Suc_eq_le simp del: upt_Suc)
  also have "\<dots> \<longleftrightarrow> (\<exists>pre post. s = pre @ post \<and> sql_like ps post)"
    by (metis append_eq_conv_conj append_take_drop_id le_add1 length_append)
  finally show ?thesis by simp
qed

lemma sql_like_escaped:
  "sql_like (escaped_char q @ ps) s \<longleftrightarrow> (\<exists>c cs. s = c # cs \<and> ascii_lower c = ascii_lower q \<and> sql_like ps cs)"
  by (cases s) (auto simp: escaped_char_def)

lemma sql_like_literal:
  "sql_like (concat (map escaped_char n) @ ps) s \<longleftrightarrow>
     (\<exists>mid post. s = mid @ post \<and> map ascii_lower mid = map ascii_lower n \<and> sql_like ps post)"
proof (induction n arbitrary: s)
  case (Cons q n)
  have "sql_like (concat (map escaped_char (q # n)) @ ps) s \<longleftrightarrow>
      (\<exists>c cs. s = c # cs \<and> ascii_lower c = ascii_lower q \<and> sql_like (concat (map escaped_char n) @ ps) cs)"
    using sql_like_escaped by simp
  also have "\<dots> \<longleftrightarrow> (\<exists>mid post. s = mid @ post \<and> map ascii_lower mid = map ascii_lower (q # n) \<and> sql_like ps post)"
    unfolding Cons.IH by (simp add: map_eq_Cons_conv) (metis append_Cons)
  finally show ?case .
qed simp

text \<open>C39: The search text is matched literally. A job key passes the search filter exactly when it contains the text
  somewhere, letters of the ASCII alphabet compared without regard to case: percent signs, underscores and backslashes
  of the text lose their meaning as wildcards.\<close>

theorem like_contains_is_substring:
  "sql_like (like_contains needle) key \<longleftrightarrow>
     (\<exists>pre mid post. key = pre @ mid @ post \<and> map ascii_lower mid = map ascii_lower needle)"
  unfolding like_contains_escapes sql_like_any sql_like_literal by (auto simp: sql_like_any)

subsection \<open>Counts\<close>

text \<open>The term that makes the partial index usable does not change the count behind the concurrency guards.\<close>

lemma count_ignores_index_term:
  "fst (count_executions_in_states (\<lambda>_. None) k states st) =
     Inr (length (filter (\<lambda>r. ex_job_key r = k \<and> ex_state r \<in> set states) (executions st)))"
proof -
  have "(ex_state r \<in> set states \<and> inflight_index_term states r) = (ex_state r \<in> set states)" for r
    by (auto simp: inflight_index_term_def list_all_iff)
  then show ?thesis
    by (simp add: count_executions_in_states_def read_db_def stmt_def commit_def)
qed

subsection \<open>Log lines\<close>

definition log_lines :: "Uuid \<Rightarrow> ExecutionLogEntry list \<Rightarrow> ExecutionLogEntry list" where
  "log_lines i ls = filter (\<lambda>l. lg_execution_id l = i) ls"

definition unnumbered :: "ExecutionLogEntry \<Rightarrow> ExecutionLogEntry" where
  "unnumbered l = l\<lparr>lg_seq := 0\<rparr>"

definition log_inv :: "Store \<Rightarrow> bool" where
  "log_inv st \<longleftrightarrow> (\<forall>i. sorted_wrt (<) (map lg_seq (log_lines i (execution_logs st))))"

lemma log_lines_append [simp]: "log_lines i (xs @ ys) = log_lines i xs @ log_lines i ys"
  by (simp add: log_lines_def)

text \<open>The number the next line of an execution gets lies above all numbers of its lines.\<close>

definition next_above :: "(Uuid \<rightharpoonup> int) \<Rightarrow> Store \<Rightarrow> bool" where
  "next_above seqs st \<longleftrightarrow>
     (\<forall>i n. seqs i = Some n \<longrightarrow> (\<forall>l \<in> set (log_lines i (execution_logs st)). lg_seq l < n))"

lemma next_seq_above:
  assumes "next_seq_for_execution fault i st = Inr n" and "l \<in> set (log_lines i (execution_logs st))"
  shows "lg_seq l < n"
proof -
  have "lg_seq l \<le> Max (lg_seq ` set (log_lines i (execution_logs st)))" using assms(2) by simp
  moreover have "n = Max (lg_seq ` set (log_lines i (execution_logs st))) + 1"
    using assms by (auto simp: next_seq_for_execution_def Let_def stmt_Inr log_lines_def filter_empty_conv split: if_splits)
  ultimately show ?thesis by simp
qed

lemma insert_log_inv:
  assumes "insert_log_with fault entry n st = Inr st'" and "log_inv st"
    and "\<forall>l \<in> set (log_lines (lg_execution_id entry) (execution_logs st)). lg_seq l < n"
  shows "log_inv st'" and "execution_logs st' = execution_logs st @ [entry\<lparr>lg_seq := n\<rparr>]"
proof -
  show logs: "execution_logs st' = execution_logs st @ [entry\<lparr>lg_seq := n\<rparr>]"
    using assms(1) by (auto simp: insert_log_with_def stmt_Inr split: if_splits)
  show "log_inv st'"
    using assms(2,3) unfolding log_inv_def logs by (auto simp: log_lines_def sorted_wrt_append)
qed

lemma append_entries_inv:
  assumes "append_entries db es seqs st = Inr st'" and "log_inv st" and "next_above seqs st"
  shows "log_inv st' \<and> (\<exists>new. execution_logs st' = execution_logs st @ new \<and> map unnumbered new = map unnumbered es)"
  using assms
proof (induction es arbitrary: db seqs st)
  case (Cons entry es)
  let ?i = "lg_execution_id entry"
  from Cons.prems(1) obtain n st1 where
    n: "(case seqs ?i of Some n \<Rightarrow> Inr n | None \<Rightarrow> next_seq_for_execution (db 0) ?i st) = Inr n" and
    ins: "insert_log_with (db 1) entry n st = Inr st1" and
    rest: "append_entries (\<lambda>n. db (n + 2)) es (seqs(?i \<mapsto> n + 1)) st1 = Inr st'"
    by (auto simp: bind_db_Inr)
  have above: "\<forall>l \<in> set (log_lines ?i (execution_logs st)). lg_seq l < n"
    using n Cons.prems(3) next_seq_above by (auto simp: next_above_def split: option.splits)
  note st1 = insert_log_inv [OF ins Cons.prems(2) above]
  have "next_above (seqs(?i \<mapsto> n + 1)) st1"
    using Cons.prems(3) above by (auto simp: next_above_def st1(2) log_lines_def)
  from Cons.IH [OF rest st1(1) this] obtain new where
    "log_inv st'" "execution_logs st' = execution_logs st1 @ new" "map unnumbered new = map unnumbered es"
    by blast
  then show ?case
    by (intro conjI exI [of _ "entry\<lparr>lg_seq := n\<rparr> # new"]) (simp_all add: st1(2), simp add: unnumbered_def)
qed simp

lemma upsert_job_state_logs: "upsert_job_state_with fault s st = Inr st' \<Longrightarrow> execution_logs st' = execution_logs st"
  by (auto simp: upsert_job_state_with_def stmt_Inr)

lemma log_inv_same: "execution_logs st' = execution_logs st \<Longrightarrow> log_inv st \<Longrightarrow> log_inv st'"
  by (simp add: log_inv_def)

lemma log_inv_deleted:
  assumes "execution_logs st' = filter (\<lambda>l. lg_execution_id l \<notin> S) (execution_logs st)" and "log_inv st"
  shows "log_inv st'"
proof -
  have "log_lines i (execution_logs st') = (if i \<in> S then [] else log_lines i (execution_logs st))" for i
    unfolding assms(1) log_lines_def by (auto simp: filter_empty_conv intro!: filter_cong)
  with assms(2) show ?thesis by (simp add: log_inv_def)
qed

lemma append_logs_batch_inv:
  assumes "append_logs_batch db es st = (y, st')" and "log_inv st"
  shows "log_inv st'"
    and "y = Inr () \<Longrightarrow> \<exists>new. execution_logs st' = execution_logs st @ new \<and> map unnumbered new = map unnumbered es"
    and "y \<noteq> Inr () \<Longrightarrow> st' = st"
  using assms append_entries_inv [where seqs = Map.empty, OF _ assms(2)]
  by (auto simp: append_logs_batch_def call_steps next_above_def split: if_splits)

lemma append_log_inv:
  assumes "append_log db entry st = (y, st')" and "log_inv st"
  shows "log_inv st'"
proof -
  have "log_inv st'"
    if "next_seq_for_execution (db 0) (lg_execution_id entry) st = Inr n" and "insert_log_with (db 1) entry n st = Inr st'" for n
    using insert_log_inv(1) [OF that(2) assms(2)] next_seq_above [OF that(1)] by blast
  then show ?thesis using assms by (auto simp: append_log_def call_steps)
qed

fun touches_logs :: "store_op \<Rightarrow> bool" where
  "touches_logs (Op_Append_Log l) = True"
| "touches_logs (Op_Append_Logs ls) = True"
| "touches_logs (Op_Prune_Older t n) = True"
| "touches_logs (Op_Prune_Keep_Last k keep n) = True"
| "touches_logs _ = False"

lemma logs_other:
  assumes "run_op ut db c st = (ok, st')" and "\<not> touches_logs c"
  shows "execution_logs st' = execution_logs st"
  using assms
  by (cases c)
    (auto simp: call_steps other_calls Let_def create_execution_def create_execution_and_advance_job_state_def
      insert_execution_Inr claim_execution_def get_execution_def read_db_def complete_execution_def
      requeue_abandoned_def requeue_if_claimed_def cancel_execution_def complete_as_dead_def update_to_dead_with_def
      insert_dead_letter_with_def replay_dead_letter_def dest!: upsert_job_state_logs
      split: if_splits option.splits prod.splits sum.splits)

lemma log_inv_step:
  assumes "run_op ut db c st = (ok, st')" and "log_inv st"
  shows "log_inv st'"
proof (cases "touches_logs c")
  case False
  with assms logs_other log_inv_same show ?thesis by blast
next
  case True
  have "log_inv st'" if "delete_selected db' sel st = (y, st')" for db' sel y
    using delete_selected_eq [OF that] assms(2) log_inv_deleted [of st' "set sel" st] by auto
  then show ?thesis
    using True assms append_log_inv append_logs_batch_inv(1)
    by (cases c) (auto simp: is_eq prune_executions_older_than_def prune_executions_keep_last_def Let_def)
qed

lemma log_inv_run: "log_inv st \<Longrightarrow> log_inv (run_ops ut cs st)"
proof (induction cs arbitrary: st)
  case (Cons a cs)
  then show ?case by (cases a; cases "run_op ut (fst a) (snd a) st") (auto dest: log_inv_step)
qed simp

lemma log_inv_empty: "log_inv empty_store"
  by (simp add: log_inv_def log_lines_def empty_store_def)

lemma unnumbered_fields [simp]:
  "lg_execution_id (unnumbered l) = lg_execution_id l" "lg_timestamp (unnumbered l) = lg_timestamp l"
  by (simp_all add: unnumbered_def)

lemma unnumbered_lines:
  assumes "map unnumbered xs = map unnumbered ys"
  shows "map unnumbered (log_lines i xs) = map unnumbered (log_lines i ys)"
proof -
  have "log_lines i (map unnumbered zs) = map unnumbered (log_lines i zs)" for zs
    by (simp add: log_lines_def filter_map comp_def)
  with assms show ?thesis by metis
qed

lemma unnumbered_timestamps:
  assumes "map unnumbered xs = map unnumbered ys"
  shows "map lg_timestamp xs = map lg_timestamp ys"
proof -
  have "map lg_timestamp zs = map lg_timestamp (map unnumbered zs)" for zs by (simp add: comp_def)
  with assms show ?thesis by metis
qed

lemma read_logs_sorted:
  assumes "log_inv st" and "sorted (map lg_timestamp (log_lines i (execution_logs st)))"
    and "length (log_lines i (execution_logs st)) \<le> limit"
  shows "fst (read_logs (\<lambda>_. None) i limit st) = Inr (log_lines i (execution_logs st))"
proof -
  have "sorted (map lg_seq (log_lines i (execution_logs st)))"
    using assms(1) by (simp add: log_inv_def strict_sorted_imp_sorted)
  with assms(2,3) show ?thesis
    by (simp add: read_logs_def read_db_def stmt_def commit_def log_lines_def [symmetric] sorted_sort_id
        sort_key_id_if_sorted)
qed

definition sample_log :: "Uuid \<Rightarrow> instant \<Rightarrow> ExecutionLogEntry" where
  "sample_log j t =
     \<lparr>lg_id = j, lg_execution_id = 1, lg_timestamp = t, lg_level = ''info'', lg_message = ''line'', lg_fields = Map.empty,
      lg_seq = 0\<rparr>"

definition sample_logging :: "(faults \<times> store_op) list" where
  "sample_logging =
     [(\<lambda>_. None, Op_Create (sample_execution 1 ''a:b'')), (\<lambda>_. None, Op_Append_Log (sample_log 1 5))]"



end
