(* ===== verification/Spec2Isabelle.thy ===== *)
theory Spec2Isabelle
  imports Execution Runner_Api Trigger Config_Schedule Store_Queries
begin

text \<open>
  Croniq is a distributed job scheduler. A server reads job definitions from a Croniqfile or its API and arms a trigger
  per job. When a trigger fires, the server stores an execution and queues a work item; runners poll the server for
  work, hold it in flight and report what became of it, and the execution policy decides whether a failed attempt is
  retried or becomes a dead letter.

  \<^bold>\<open>The parts and the theories.\<close> Paths are relative to \<^verbatim>\<open>src/crates/\<close>.

  \<^item> \<open>Prelude\<close>: machine types, durations, instants, and the parts of the Rust library the source calls.
  \<^item> \<open>Execution\<close>: \<^verbatim>\<open>croniq-execution/src/\<close>, the policy a finished attempt is judged by (retry, jitter, timeout,
    dead letter) and the duration parser.
  \<^item> \<open>Work_Queue\<close>, \<open>Registry\<close>, \<open>Runner_Api\<close>: \<^verbatim>\<open>croniq-runner/src/\<close>, the priority queue with its counters, the table
    of runners with takeover fencing and the capability router, and the state and handlers of the pull API.
  \<^item> \<open>Lexer\<close>, \<open>Config_Ast\<close>, \<open>Parser\<close>, \<open>Format\<close>: \<^verbatim>\<open>croniq-config/src/\<close> from the bytes of a Croniqfile to its syntax
    tree and back. \<open>Relex\<close>, \<open>Reparse\<close> and \<open>Reschedule\<close> hold the lemmas on reading what the formatter wrote.
  \<^item> \<open>Config_Schedule\<close>: \<^verbatim>\<open>croniq-config/src/schedule.rs\<close>, the compiled schedule of a job and the line it is written
    back as.
  \<^item> \<open>Chrono\<close>: the civil calendar and time zones of the \<^verbatim>\<open>chrono\<close> crates as parameters with named laws, and concrete
    instances that satisfy them.
  \<^item> \<open>Schedule\<close>, \<open>Calendar\<close>, \<open>Gate\<close>, \<open>Trigger\<close>: \<^verbatim>\<open>croniq-scheduler/src/\<close>, when a schedule fires, which instants a
    calendar allows, the search for the next opening, and the life of a trigger, with the two functions of
    \<^verbatim>\<open>croniq-server/src/scheduler.rs\<close> that rebuild a trigger or skip a fire.
  \<^item> \<open>Store\<close>: \<^verbatim>\<open>croniq-store/src/sqlite.rs\<close> with the entities of \<^verbatim>\<open>models.rs\<close> and the rule of \<^verbatim>\<open>retention_sql.rs\<close>.
    \<open>Lifecycle\<close> follows one execution through every interleaving of store calls, and \<open>Store_Queries\<close> is about what
    the queries answer.

  \<^bold>\<open>State and operations.\<close> A struct is a record, an enum a datatype, a method that mutates its receiver a function
  that returns the new value, a \<^verbatim>\<open>Result\<close> a sum with the error on the left. Definitions keep the names of the source;
  a name that occurs in several files carries a prefix. The clock is an argument. Third-party code (\<^verbatim>\<open>chrono\<close>,
  \<^verbatim>\<open>rand\<close>, \<^verbatim>\<open>serde_json\<close>) is an argument with its documented behaviour as a hypothesis. A table of the store is the list of its rows, a
  statement a function on it, and each statement of a call can fail; calls take a lock, so an interleaving is a list of
  calls in the order in which they got it.

  \<^bold>\<open>What the lemmas show.\<close>

  \<^item> The retry chain of a job has exactly the length its policy says; the duration parser accepts exactly its grammar.
  \<^item> In the queue counters and items agree, the first item of the highest effective priority leaves first, and waiting
    is bounded by aging. In the registry a takeover converges: the deposed instance is fenced off and the winner is
    not. A poll hands out each execution once and books what it hands out; cancels, leases and tallies are neither lost
    nor duplicated.
  \<^item> Lexing and parsing end on every input, with bounded nesting, and stored calendar rules cannot smuggle in other
    items; quoted strings and schedules survive being written and read back; the formatter reports exactly the
    comments it loses.
  \<^item> The next fire of a schedule is its least fire time, calendars are factored into interval sets exactly, a trigger
    fires only when it is due and its gates are open, intervals do not drift, missed fires are replayed exactly and a
    pending fire survives a reload.
  \<^item> In the store an execution settles once, a finished one is final, dead letters and dead executions belong together,
    retention spares unfinished work, a dead letter is replayed once, paging visits each row once, the search text is
    taken literally and log lines come back in order.

  \<^bold>\<open>Interfaces.\<close> \<open>dispatch_queue\<close> is what the pull API uses of the queue and \<open>claim_ledger\<close> what it uses of the
  registry; \<open>ticker\<close> and \<open>exact_ticker\<close> are what a trigger uses of a schedule; \<open>gate\<close> and \<open>gate_pair\<close> what it uses
  of calendar and window; \<open>exec_budget\<close> is the argument that a store call can be accepted only so often. Each is
  interpreted on the definitions of the component that provides it.

  \<^bold>\<open>Bounds and termination.\<close> The loops of lexer and parser are recursive functions whose termination is proved from
  the input that remains. The searches of the scheduler carry the bounds of the source (\<open>MAX_SCAN_DAYS\<close>,
  \<open>MAX_ROUNDS\<close>, \<open>MAX_GATE_JUMPS\<close>, \<open>MISSED_FIRE_WALK_LIMIT\<close>), and the lemmas say what holds when a bound is hit. The
  number of attempts a failing job is followed for and the number of pages a client asks for are arguments; any number
  above the attempts of the policy, or above the rows of the table, is enough.

  \<^bold>\<open>Not modelled.\<close> The tick of the scheduler loop, the completion engine and the watchdog call the operations above
  under locks and with alerts and metrics around them. The HTTP routes, the MCP tools, the command line, the web
  assembly bindings and the runner SDKs are front ends over JSON. The PostgreSQL store is a second dialect of the same
  contract; of the SQLite store the tables of users, keys, sessions, definitions, alerts, notes and runners and the
  aggregates of floating point numbers are left out. Compilation and validation of a Croniqfile beyond schedules and
  calendar settings, conversion, fingerprints, authentication, mail, telemetry and the user interface are left out.
\<close>

end
